(* ===== verification/Prelude.thy ===== *)
theory Prelude
  imports Main "HOL-Library.Word" "HOL-Library.Sublist"
begin

text \<open>
  The shared vocabulary of the development: Go errors and the outcome of a Go call, the
  state-passing computations every component is written in, Go maps with their zero-value
  lookup, and the fact collections the component proofs use.

  A Go function that talks to the outside world is a value of type \<open>('w, 'a) io\<close>: it takes
  the state \<open>'w\<close> and yields \<open>None\<close> when it does not return, or \<open>Some (r, w')\<close> with the new
  state and an outcome \<open>r\<close>. An outcome is a normal result, a returned \<open>error\<close> value, or a
  run-time panic. A panic unwinds the stack and runs the deferred calls on its way, so it
  carries the state too.
\<close>

named_theorems io_simps \<open>characteristic equations of the io combinators\<close>
named_theorems io_elims \<open>elimination rules: what a computation that returned has done\<close>

section \<open>Errors and outcomes\<close>

text \<open>
  The errors the code tells apart: \<open>ErrorString\<close> is \<open>fmt.Errorf\<close> or \<open>errors.New\<close> without a
  cause, \<open>StatusError\<close> carries a gRPC status code, \<open>ExtError\<close> is any other error made by a
  library, \<open>WrapError\<close> is \<open>errors.Wrap\<close>, \<open>errors.Wrapf\<close> or \<open>fmt.Errorf\<close> with \<open>%w\<close>.
\<close>

datatype goerr =
    ErrorString string
  | StatusError nat string
  | ExtError string
  | WrapError string goerr

datatype (dead 'a) outcome = Ok 'a | Fail goerr | Panic string

fun is_Ok :: "'a outcome \<Rightarrow> bool" where
  "is_Ok (Ok a) = True"
| "is_Ok _ = False"

type_synonym ('w, 'a) io = "'w \<Rightarrow> ('a outcome \<times> 'w) option"

section \<open>State-passing computations\<close>

definition io_return :: "'a \<Rightarrow> ('w, 'a) io" where
  "io_return a w = Some (Ok a, w)"

definition io_fail :: "goerr \<Rightarrow> ('w, 'a) io" where
  "io_fail e w = Some (Fail e, w)"

definition io_panic :: "string \<Rightarrow> ('w, 'a) io" where
  "io_panic m w = Some (Panic m, w)"

definition io_diverge :: "('w, 'a) io" where
  "io_diverge w = None"

definition io_bind :: "('w, 'a) io \<Rightarrow> ('a \<Rightarrow> ('w, 'b) io) \<Rightarrow> ('w, 'b) io" where
  "io_bind m k w =
     (case m w of
        None \<Rightarrow> None
      | Some (Ok a, w') \<Rightarrow> k a w'
      | Some (Fail e, w') \<Rightarrow> Some (Fail e, w')
      | Some (Panic s, w') \<Rightarrow> Some (Panic s, w'))"

text \<open>A call of a library function that returns a value and a possibly nil error.\<close>

definition io_call :: "('w \<Rightarrow> (goerr + 'a) \<times> 'w) \<Rightarrow> ('w, 'a) io" where
  "io_call f w = (case f w of (Inl e, w') \<Rightarrow> Some (Fail e, w') | (Inr a, w') \<Rightarrow> Some (Ok a, w'))"

text \<open>A call of a library function that returns only a possibly nil error.\<close>

definition io_check :: "('w \<Rightarrow> goerr option \<times> 'w) \<Rightarrow> ('w, unit) io" where
  "io_check f w = (case f w of (Some e, w') \<Rightarrow> Some (Fail e, w') | (None, w') \<Rightarrow> Some (Ok (), w'))"

text \<open>\<open>if err != nil { return errors.Wrap(err, msg) }\<close>\<close>

definition io_wrap :: "string \<Rightarrow> ('w, 'a) io \<Rightarrow> ('w, 'a) io" where
  "io_wrap s m w =
     (case m w of
        None \<Rightarrow> None
      | Some (Fail e, w') \<Rightarrow> Some (Fail (WrapError s e), w')
      | Some (r, w') \<Rightarrow> Some (r, w'))"

text \<open>The error as a value the caller inspects; a panic is not an error value.\<close>

definition io_try :: "('w, 'a) io \<Rightarrow> ('w, goerr + 'a) io" where
  "io_try m w =
     (case m w of
        None \<Rightarrow> None
      | Some (Ok a, w') \<Rightarrow> Some (Ok (Inr a), w')
      | Some (Fail e, w') \<Rightarrow> Some (Ok (Inl e), w')
      | Some (Panic s, w') \<Rightarrow> Some (Panic s, w'))"

text \<open>\<open>defer c\<close>: the deferred call runs after the body, whatever the body's outcome.\<close>

definition io_defer :: "('w \<Rightarrow> 'w option) \<Rightarrow> ('w, 'a) io \<Rightarrow> ('w, 'a) io" where
  "io_defer c m w =
     (case m w of
        None \<Rightarrow> None
      | Some (r, w') \<Rightarrow> (case c w' of None \<Rightarrow> None | Some w'' \<Rightarrow> Some (r, w'')))"

text \<open>A deferred call that may itself panic; its panic replaces the outcome of the body.\<close>

definition io_finally :: "('w, unit) io \<Rightarrow> ('w, 'a) io \<Rightarrow> ('w, 'a) io" where
  "io_finally c m w =
     (case m w of
        None \<Rightarrow> None
      | Some (r, w') \<Rightarrow>
          (case c w' of
             None \<Rightarrow> None
           | Some (Panic p, w'') \<Rightarrow> Some (Panic p, w'')
           | Some (_, w'') \<Rightarrow> Some (r, w'')))"

text \<open>A computation on a part of the state.\<close>

definition io_on :: "('s \<Rightarrow> 'w) \<Rightarrow> ('w \<Rightarrow> 's \<Rightarrow> 's) \<Rightarrow> ('w, 'a) io \<Rightarrow> ('s, 'a) io" where
  "io_on get_part put_part m s =
     (case m (get_part s) of None \<Rightarrow> None | Some (r, w') \<Rightarrow> Some (r, put_part w' s))"

text \<open>A state change that always returns.\<close>

definition io_modify :: "('w \<Rightarrow> 'w) \<Rightarrow> ('w, unit) io" where
  "io_modify f w = Some (Ok (), f w)"

lemma io_basic [io_simps]:
  "io_return a w = Some (Ok a, w)"
  "io_fail e w = Some (Fail e, w)"
  "io_panic s w = Some (Panic s, w)"
  "io_diverge w = None"
  "io_modify f w = Some (Ok (), f w)"
  by (simp_all add: io_return_def io_fail_def io_panic_def io_diverge_def io_modify_def)

lemma io_bind_cases [io_simps]:
  "m w = None \<Longrightarrow> io_bind m k w = None"
  "m w = Some (Ok a, w') \<Longrightarrow> io_bind m k w = k a w'"
  "m w = Some (Fail e, w') \<Longrightarrow> io_bind m k w = Some (Fail e, w')"
  "m w = Some (Panic s, w') \<Longrightarrow> io_bind m k w = Some (Panic s, w')"
  by (simp_all add: io_bind_def)

lemma io_wrap_cases [io_simps]:
  "m w = None \<Longrightarrow> io_wrap s m w = None"
  "m w = Some (Ok a, w') \<Longrightarrow> io_wrap s m w = Some (Ok a, w')"
  "m w = Some (Fail e, w') \<Longrightarrow> io_wrap s m w = Some (Fail (WrapError s e), w')"
  "m w = Some (Panic p, w') \<Longrightarrow> io_wrap s m w = Some (Panic p, w')"
  by (simp_all add: io_wrap_def)

lemma io_try_cases [io_simps]:
  "m w = None \<Longrightarrow> io_try m w = None"
  "m w = Some (Ok a, w') \<Longrightarrow> io_try m w = Some (Ok (Inr a), w')"
  "m w = Some (Fail e, w') \<Longrightarrow> io_try m w = Some (Ok (Inl e), w')"
  "m w = Some (Panic p, w') \<Longrightarrow> io_try m w = Some (Panic p, w')"
  by (simp_all add: io_try_def)

lemma io_call_cases [io_simps]:
  "f w = (Inl e, w') \<Longrightarrow> io_call f w = Some (Fail e, w')"
  "f w = (Inr a, w') \<Longrightarrow> io_call f w = Some (Ok a, w')"
  by (simp_all add: io_call_def)

lemma io_check_cases [io_simps]:
  "f w = (Some e, w') \<Longrightarrow> io_check f w = Some (Fail e, w')"
  "f w = (None, w') \<Longrightarrow> io_check f w = Some (Ok (), w')"
  by (simp_all add: io_check_def)

lemma io_defer_cases [io_simps]:
  "m w = None \<Longrightarrow> io_defer c m w = None"
  "m w = Some (r, w') \<Longrightarrow> c w' = Some w'' \<Longrightarrow> io_defer c m w = Some (r, w'')"
  "m w = Some (r, w') \<Longrightarrow> c w' = None \<Longrightarrow> io_defer c m w = None"
  by (simp_all add: io_defer_def)

text \<open>The monad laws: how a sequence of Go statements may be regrouped.\<close>

lemma io_bind_return [simp]: "io_bind (io_return a) k = k a"
  by (rule ext) (simp add: io_bind_def io_return_def)

lemma io_bind_return_right [simp]: "io_bind m io_return = m"
  by (rule ext) (simp add: io_bind_def io_return_def split: option.split prod.split outcome.split)

lemma io_bind_assoc: "io_bind (io_bind m k) l = io_bind m (\<lambda>a. io_bind (k a) l)"
  by (rule ext) (simp add: io_bind_def split: option.split prod.split outcome.split)

text \<open>Inversion: a sequence that returned normally has run each part normally.\<close>

lemma io_bind_Ok [io_elims]:
  assumes "io_bind m k w = Some (Ok b, w'')"
  obtains a w' where "m w = Some (Ok a, w')" "k a w' = Some (Ok b, w'')"
  using assms by (auto simp: io_bind_def split: option.splits prod.splits outcome.splits)

lemma io_wrap_Ok [io_elims]: "io_wrap s m w = Some (Ok a, w') \<Longrightarrow> m w = Some (Ok a, w')"
  by (auto simp: io_wrap_def split: option.splits prod.splits outcome.splits)

lemma io_call_Ok [io_elims]: "io_call f w = Some (Ok a, w') \<Longrightarrow> f w = (Inr a, w')"
  by (auto simp: io_call_def split: sum.splits prod.splits)

lemma io_check_Ok [io_elims]: "io_check f w = Some (Ok a, w') \<Longrightarrow> f w = (None, w')"
  by (auto simp: io_check_def split: option.splits prod.splits)

lemma io_defer_Some [io_elims]:
  assumes "io_defer c m w = Some (r, w'')"
  obtains w' where "m w = Some (r, w')" "c w' = Some w''"
  using assms by (auto simp: io_defer_def split: option.splits)

section \<open>What a computation keeps, and whether it returns\<close>

text \<open>
  \<open>io_keeps f m\<close>: whatever \<open>m\<close> does and however it ends, the observation \<open>f\<close> of the state is the
  same afterwards. \<open>io_total m\<close>: \<open>m\<close> returns in every state. Both are closed under the
  combinators, so a frame property of a Go function follows from those of its calls.
\<close>

definition io_keeps :: "('w \<Rightarrow> 'x) \<Rightarrow> ('w, 'a) io \<Rightarrow> bool" where
  "io_keeps f m \<longleftrightarrow> (\<forall>w r w'. m w = Some (r, w') \<longrightarrow> f w' = f w)"

definition io_total :: "('w, 'a) io \<Rightarrow> bool" where
  "io_total m \<longleftrightarrow> (\<forall>w. m w \<noteq> None)"

named_theorems io_frames \<open>closure of io_keeps and io_total under the combinators\<close>

lemma io_keepsD: "io_keeps f m \<Longrightarrow> m w = Some (r, w') \<Longrightarrow> f w' = f w"
  by (simp add: io_keeps_def)

lemma io_totalE:
  assumes "io_total m"
  obtains r w' where "m w = Some (r, w')"
  using assms unfolding io_total_def by (metis option.exhaust surj_pair)

lemma io_keeps_basic [io_frames]:
  "io_keeps f (io_return a)" "io_keeps f (io_fail e)" "io_keeps f (io_panic p)"
  by (simp_all add: io_keeps_def io_basic)

lemma io_total_basic [io_frames]:
  "io_total (io_return a)" "io_total (io_fail e)" "io_total (io_panic p)"
  "io_total (io_modify g)" "io_total (io_call h)" "io_total (io_check k)"
  by (simp_all add: io_total_def io_basic io_call_def io_check_def
      split: sum.split option.split prod.split)

lemma io_keeps_modify [io_frames]: "(\<And>w. f (g w) = f w) \<Longrightarrow> io_keeps f (io_modify g)"
  by (simp add: io_keeps_def io_basic)

lemma io_keeps_call [io_frames]: "(\<And>w. f (snd (g w)) = f w) \<Longrightarrow> io_keeps f (io_call g)"
  unfolding io_keeps_def io_call_def
  by (metis (mono_tags, lifting) case_prod_unfold option.inject snd_conv sum.case_eq_if)

lemma io_keeps_check [io_frames]: "(\<And>w. f (snd (g w)) = f w) \<Longrightarrow> io_keeps f (io_check g)"
  unfolding io_keeps_def io_check_def
  by (metis (mono_tags, lifting) case_prod_unfold option.case_eq_if option.inject snd_conv)

lemma io_keeps_bind [io_frames]:
  assumes "io_keeps f m" "\<And>a. io_keeps f (k a)"
  shows "io_keeps f (io_bind m k)"
  unfolding io_keeps_def io_bind_def
  by (auto dest!: io_keepsD [OF assms(1)] io_keepsD [OF assms(2)]
      split: option.splits prod.splits outcome.splits)

lemma io_keeps_wrap [io_frames]: "io_keeps f m \<Longrightarrow> io_keeps f (io_wrap s m)"
  unfolding io_keeps_def io_wrap_def by (auto split: option.splits prod.splits outcome.splits)

lemma io_keeps_try [io_frames]: "io_keeps f m \<Longrightarrow> io_keeps f (io_try m)"
  unfolding io_keeps_def io_try_def by (auto split: option.splits prod.splits outcome.splits)

lemma io_keeps_defer [io_frames]:
  "(\<And>w w'. c w = Some w' \<Longrightarrow> f w' = f w) \<Longrightarrow> io_keeps f m \<Longrightarrow> io_keeps f (io_defer c m)"
  unfolding io_keeps_def io_defer_def by (auto split: option.splits)

lemma io_keeps_finally [io_frames]:
  "io_keeps f c \<Longrightarrow> io_keeps f m \<Longrightarrow> io_keeps f (io_finally c m)"
  unfolding io_keeps_def io_finally_def by (auto split: option.splits outcome.splits)

lemma io_total_bind [io_frames]:
  "io_total m \<Longrightarrow> (\<And>a. io_total (k a)) \<Longrightarrow> io_total (io_bind m k)"
  unfolding io_total_def io_bind_def by (simp split: option.split prod.split outcome.split)

lemma io_total_wrap [io_frames]: "io_total m \<Longrightarrow> io_total (io_wrap s m)"
  unfolding io_total_def io_wrap_def by (simp split: option.split prod.split outcome.split)

lemma io_total_try [io_frames]: "io_total m \<Longrightarrow> io_total (io_try m)"
  unfolding io_total_def io_try_def by (simp split: option.split prod.split outcome.split)

lemma io_total_defer [io_frames]:
  "(\<And>w. c w \<noteq> None) \<Longrightarrow> io_total m \<Longrightarrow> io_total (io_defer c m)"
  unfolding io_total_def io_defer_def by (metis (no_types, lifting) case_prod_unfold option.case_eq_if option.distinct(1))

lemma io_total_finally [io_frames]:
  assumes "io_total c" "io_total m"
  shows "io_total (io_finally c m)"
  unfolding io_total_def
proof
  fix w
  obtain r w1 where m: "m w = Some (r, w1)" using assms(2) by (rule io_totalE)
  obtain d w2 where "c w1 = Some (d, w2)" using assms(1) by (rule io_totalE)
  with m show "io_finally c m w \<noteq> None" by (cases d) (simp_all add: io_finally_def)
qed

lemma io_total_if [io_frames]: "io_total m \<Longrightarrow> io_total n \<Longrightarrow> io_total (\<lambda>w. if p w then m w else n w)"
  by (simp add: io_total_def)

lemma io_total_on [io_frames]: "io_total m \<Longrightarrow> io_total (io_on g p m)"
  unfolding io_total_def io_on_def by (simp split: option.split prod.split)

lemma io_keeps_on [io_frames]: "(\<And>w s. f (p w s) = f s) \<Longrightarrow> io_keeps f (io_on g p m)"
  unfolding io_keeps_def io_on_def by (auto split: option.splits)

section \<open>Interfaces and contexts\<close>

text \<open>A value of type \<open>interface{}\<close> that should have a given dynamic type.\<close>

datatype 'a iface = IVal 'a | IOther

text \<open>
  A \<open>context.Context\<close> by the values it carries; deadlines and cancellation are left out.
  \<open>Background\<close> carries none, and a key that is missing gives nil.
\<close>

type_synonym context_values = "string \<rightharpoonup> string iface"

definition Background :: context_values where
  "Background = Map.empty"

definition WithValue :: "context_values \<Rightarrow> string \<Rightarrow> string iface \<Rightarrow> context_values" where
  "WithValue ctx key v = ctx(key \<mapsto> v)"

section \<open>Go maps\<close>

type_synonym strmap = "string \<rightharpoonup> string"

text \<open>\<open>m[k]\<close> on a \<open>map[string]string\<close> is the empty string where the key is missing.\<close>

definition go_lookup :: "strmap \<Rightarrow> string \<Rightarrow> string" where
  "go_lookup m k = (case m k of None \<Rightarrow> [] | Some v \<Rightarrow> v)"

lemma go_lookup_simps [simp]:
  "go_lookup (m(k \<mapsto> v)) j = (if j = k then v else go_lookup m j)"
  "go_lookup Map.empty j = []"
  by (simp_all add: go_lookup_def)

end
