(* ===== verification/Kube.thy ===== *)
theory Kube
  imports GoStd
begin

text \<open>
  The Kubernetes objects the operator reads and builds (cmd/transflect-operator/operator.go and
  envoyfilter.go): the fields of a ReplicaSet the code looks at, the port, revision and
  deployment it reads from them, the entry of the active state, and the Service, Ingress and
  EnvoyFilter made for a ReplicaSet. Fields the code neither reads nor sets are left out; an
  owner reference is copied as a whole, so its other fields are kept in \<open>or_rest\<close>.
\<close>

section \<open>Annotations\<close>

definition deploymentAnnotation :: string where
  "deploymentAnnotation = ''transflect.cash.squareup.com/deployment''"
definition excludeAnnotation :: string where
  "excludeAnnotation = ''transflect.cash.squareup.com/exclude-grpc-services''"
definition httpPrefixAnnotation :: string where
  "httpPrefixAnnotation = ''transflect.cash.squareup.com/http-path-prefix''"
definition includeAnnotation :: string where
  "includeAnnotation = ''transflect.cash.squareup.com/include-grpc-services''"
definition portAnnotation :: string where
  "portAnnotation = ''transflect.cash.squareup.com/port''"
definition replicasetAnnotation :: string where
  "replicasetAnnotation = ''transflect.cash.squareup.com/replicaset''"
definition versionAnnotation :: string where
  "versionAnnotation = ''transflect.cash.squareup.com/version''"

abbreviation revisionAnnotation :: string where
  "revisionAnnotation \<equiv> ''deployment.kubernetes.io/revision''"

lemmas annotation_defs = deploymentAnnotation_def excludeAnnotation_def httpPrefixAnnotation_def
  includeAnnotation_def portAnnotation_def replicasetAnnotation_def versionAnnotation_def

section \<open>ReplicaSets\<close>

record owner_ref =
  or_APIVersion :: string
  or_Kind :: string
  or_Name :: string
  or_UID :: string
  or_rest :: string

record replicaset =
  rs_APIVersion :: string
  rs_Namespace :: string
  rs_Name :: string
  rs_UID :: string
  rs_Annotations :: strmap
  rs_OwnerReferences :: "owner_ref list"
  rs_ReadyReplicas :: "32 word"
  rs_TemplateLabels :: strmap

record deployment =
  dp_Namespace :: string
  dp_Name :: string

definition grpcPortStr :: "string \<Rightarrow> 32 word" where
  "grpcPortStr s =
     (case Atoi s of
        None \<Rightarrow> 0
      | Some i \<Rightarrow> if i < 0 \<or> i > 65535 then 0 else word_of_int i)"

definition grpcPort :: "replicaset \<Rightarrow> 32 word" where
  "grpcPort rs = grpcPortStr (go_lookup (rs_Annotations rs) portAnnotation)"

definition deployRevisionStr :: "string \<Rightarrow> int" where
  "deployRevisionStr s = (case Atoi s of None \<Rightarrow> 0 | Some i \<Rightarrow> if i < 0 then 0 else i)"

definition deployRevision :: "replicaset \<Rightarrow> int" where
  "deployRevision rs = deployRevisionStr (go_lookup (rs_Annotations rs) revisionAnnotation)"

definition getDeployment :: "replicaset \<Rightarrow> owner_ref option" where
  "getDeployment rs = find (\<lambda>owner. or_Kind owner = ''Deployment'') (rs_OwnerReferences rs)"

definition getDeploymentKey :: "replicaset \<Rightarrow> string \<times> bool" where
  "getDeploymentKey rs =
     (case getDeployment rs of
        None \<Rightarrow> ([], False)
      | Some d \<Rightarrow> if rs_Namespace rs = [] then (or_Name d, True)
                  else (rs_Namespace rs @ ''/'' @ or_Name d, True))"

abbreviation deployKey :: "replicaset \<Rightarrow> string" where
  "deployKey rs \<equiv> fst (getDeploymentKey rs)"

record active_entry =
  ae_revision :: int
  ae_grpcPort :: "32 word"
  ae_excludeServices :: string
  ae_includeServices :: string
  ae_httpPathPrefix :: string

definition newActiveEntry :: "replicaset \<Rightarrow> active_entry" where
  "newActiveEntry rs =
     \<lparr>ae_revision = deployRevision rs, ae_grpcPort = grpcPort rs,
      ae_excludeServices = go_lookup (rs_Annotations rs) excludeAnnotation,
      ae_includeServices = go_lookup (rs_Annotations rs) includeAnnotation,
      ae_httpPathPrefix = go_lookup (rs_Annotations rs) httpPrefixAnnotation\<rparr>"

section \<open>Objects made for a ReplicaSet\<close>

record object_meta =
  om_Namespace :: string
  om_Name :: string
  om_ResourceVersion :: string
  om_Labels :: strmap
  om_Annotations :: strmap
  om_OwnerReferences :: "owner_ref list"

definition plain_meta :: "string \<Rightarrow> string \<Rightarrow> object_meta" where
  "plain_meta ns nm =
     \<lparr>om_Namespace = ns, om_Name = nm, om_ResourceVersion = [], om_Labels = Map.empty,
      om_Annotations = Map.empty, om_OwnerReferences = []\<rparr>"

record service_port =
  sp_Name :: string
  sp_Port :: "32 word"

record kservice =
  sv_meta :: object_meta
  sv_Selector :: strmap
  sv_Ports :: "service_port list"
  sv_ClusterIP :: string

text \<open>The conversion \<open>int32(grpcPort(rs))\<close> keeps the 32 bits.\<close>

definition newService :: "replicaset \<Rightarrow> kservice" where
  "newService rs =
     \<lparr>sv_meta = plain_meta (rs_Namespace rs) (rs_Name rs),
      sv_Selector = rs_TemplateLabels rs,
      sv_Ports = [\<lparr>sp_Name = ''grpc'', sp_Port = grpcPort rs\<rparr>],
      sv_ClusterIP = []\<rparr>"

datatype path_type = PathTypePrefix | OtherPathType string

record ingress_path =
  ip_Path :: string
  ip_PathType :: path_type
  ip_ServiceName :: string
  ip_ServicePort :: "32 word"

record ingress_rule =
  ir_Host :: string
  ir_Paths :: "ingress_path list"

record kingress =
  in_meta :: object_meta
  in_Rules :: "ingress_rule list"

definition newIngress :: "replicaset \<Rightarrow> kingress" where
  "newIngress rs =
     \<lparr>in_meta = (plain_meta (rs_Namespace rs) (rs_Name rs))
        \<lparr>om_Annotations := [''kubernetes.io/ingress.class'' \<mapsto> ''istio'']\<rparr>,
      in_Rules =
        [\<lparr>ir_Host = rs_Name rs @ ''.local'',
          ir_Paths =
            [\<lparr>ip_Path = ''/'', ip_PathType = PathTypePrefix, ip_ServiceName = rs_Name rs,
              ip_ServicePort = grpcPort rs\<rparr>]\<rparr>]\<rparr>"

text \<open>\<open>types.Value\<close> of the protobuf library.\<close>

datatype pbvalue =
    StringValue string
  | BoolValue bool
  | ListValue "pbvalue list"
  | StructValue "string \<rightharpoonup> pbvalue"

definition stringVal :: "string \<Rightarrow> pbvalue" where "stringVal s = StringValue s"
definition boolVal :: "bool \<Rightarrow> pbvalue" where "boolVal b = BoolValue b"
definition listVal :: "string list \<Rightarrow> pbvalue" where "listVal ss = ListValue (map stringVal ss)"
definition structVal :: "(string \<rightharpoonup> pbvalue) \<Rightarrow> pbvalue" where "structVal fs = StructValue fs"

datatype patch_context = SIDECAR_INBOUND | OtherContext string
datatype patch_operation = INSERT_BEFORE | OtherOperation string
datatype apply_to = HTTP_FILTER | OtherTarget string

record config_match =
  cm_Context :: patch_context
  cm_PortNumber :: "32 word"
  cm_Filter :: string
  cm_SubFilter :: string

record config_patch =
  cp_ApplyTo :: apply_to
  cp_Match :: config_match
  cp_Operation :: patch_operation
  cp_Value :: "string \<rightharpoonup> pbvalue"

record envoyfilter =
  ef_meta :: object_meta
  ef_WorkloadSelector :: strmap
  ef_ConfigPatches :: "config_patch list"

definition envoyFilterName :: "replicaset \<Rightarrow> string" where
  "envoyFilterName rs =
     (case getDeployment rs of None \<Rightarrow> rs_Name rs | Some d \<Rightarrow> or_Name d) @ ''-transflect''"

definition envoyFilterOwner :: "replicaset \<Rightarrow> owner_ref list" where
  "envoyFilterOwner rs =
     (case getDeployment rs of
        Some d \<Rightarrow> [d]
      | None \<Rightarrow> [\<lparr>or_APIVersion = rs_APIVersion rs, or_Kind = ''Replicaset'', or_Name = rs_Name rs,
                  or_UID = rs_UID rs, or_rest = []\<rparr>])"

definition envoyFilterSelector :: "replicaset \<Rightarrow> strmap" where
  "envoyFilterSelector rs = (\<lambda>k. if k \<noteq> ''pod-template-hash'' then rs_TemplateLabels rs k else None)"

definition transcoder_options :: pbvalue where
  "transcoder_options = structVal
     [''add_whitespace'' \<mapsto> boolVal False, ''always_print_primitive_fields'' \<mapsto> boolVal True,
      ''always_print_enums_as_ints'' \<mapsto> boolVal False, ''preserve_proto_field_names'' \<mapsto> boolVal True]"

definition transcoder_patch :: "string \<Rightarrow> string list \<Rightarrow> (string \<rightharpoonup> pbvalue)" where
  "transcoder_patch protosetBase64 services =
     [''name'' \<mapsto> stringVal ''envoy.filters.http.grpc_json_transcoder'',
      ''typed_config'' \<mapsto> structVal
        [''@type'' \<mapsto> stringVal
           ''type.googleapis.com/envoy.extensions.filters.http.grpc_json_transcoder.v3.GrpcJsonTranscoder'',
         ''proto_descriptor_bin'' \<mapsto> stringVal protosetBase64,
         ''services'' \<mapsto> listVal services,
         ''print_options'' \<mapsto> transcoder_options]]"

definition newEnvoyFilter :: "replicaset \<Rightarrow> string \<Rightarrow> string list \<Rightarrow> string \<Rightarrow> envoyfilter" where
  "newEnvoyFilter rs protosetBase64 services version =
     \<lparr>ef_meta =
        \<lparr>om_Namespace = rs_Namespace rs, om_Name = envoyFilterName rs, om_ResourceVersion = [],
         om_Labels = [''app'' \<mapsto> ''transflect''],
         om_Annotations =
           [versionAnnotation \<mapsto> version,
            replicasetAnnotation \<mapsto> rs_Name rs,
            deploymentAnnotation \<mapsto> deployKey rs,
            portAnnotation \<mapsto> go_lookup (rs_Annotations rs) portAnnotation,
            revisionAnnotation \<mapsto> go_lookup (rs_Annotations rs) revisionAnnotation],
         om_OwnerReferences = envoyFilterOwner rs\<rparr>,
      ef_WorkloadSelector = envoyFilterSelector rs,
      ef_ConfigPatches =
        [\<lparr>cp_ApplyTo = HTTP_FILTER,
          cp_Match = \<lparr>cm_Context = SIDECAR_INBOUND, cm_PortNumber = grpcPort rs,
            cm_Filter = ''envoy.filters.network.http_connection_manager'',
            cm_SubFilter = ''envoy.filters.http.router''\<rparr>,
          cp_Operation = INSERT_BEFORE,
          cp_Value = transcoder_patch protosetBase64 services\<rparr>]\<rparr>"

section \<open>Reading an EnvoyFilter back\<close>

definition getActiveEntry :: "envoyfilter \<Rightarrow> goerr + (string \<times> active_entry)" where
  "getActiveEntry filt =
     (let a = om_Annotations (ef_meta filt); key = go_lookup a deploymentAnnotation in
      if key = [] then Inl (ErrorString ''cannot retrieve deployment key from existing EnvoyFilter'')
      else let port = grpcPortStr (go_lookup a portAnnotation) in
      if port = 0 then Inl (ErrorString ''cannot retrieve grpc port from existing EnvoyFilter'')
      else let revision = deployRevisionStr (go_lookup a revisionAnnotation) in
      if revision = 0
      then Inl (ErrorString ''cannot retrieve deployment revision from existing EnvoyFilter'')
      else Inr (key, \<lparr>ae_revision = revision, ae_grpcPort = port, ae_excludeServices = [],
                      ae_includeServices = [], ae_httpPathPrefix = []\<rparr>))"

section \<open>Selecting the services\<close>

text \<open>
  \<open>mapFromString\<close>: the map holds the value true under each of its keys, so it is the set of its
  keys; \<open>m[k]\<close> is membership and \<open>len(m)\<close> is the number of keys, zero for the nil map.
\<close>

definition mapFromString :: "string \<Rightarrow> string set" where
  "mapFromString s = (if s = [] then {} else set (map TrimSpace (split_on (CHR '','') s)))"

text \<open>\<open>make([]string, 0, n)\<close> panics when \<open>n\<close> is negative.\<close>

definition filterGRPCServices :: "string list \<Rightarrow> replicaset \<Rightarrow> string list outcome" where
  "filterGRPCServices services rs =
     (let exclude = mapFromString (go_lookup (rs_Annotations rs) excludeAnnotation) in
      if card exclude > 0 then
        (if int (length services) - int (card exclude) < 0
         then Panic ''makeslice: cap out of range''
         else Ok (filter (\<lambda>s. s \<notin> exclude) services))
      else let incl = mapFromString (go_lookup (rs_Annotations rs) includeAnnotation) in
      if card incl > 0 then Ok (filter (\<lambda>s. s \<in> incl) services)
      else Ok services)"

section \<open>Ports and revisions\<close>

lemma unat_word32_int: "0 \<le> i \<Longrightarrow> i \<le> 65535 \<Longrightarrow> unat (word_of_int i :: 32 word) = nat i"
  by (simp add: unat_eq_nat_uint uint_word_of_int take_bit_int_eq_self)

lemma grpcPortStr_cases:
  obtains (zero) "grpcPortStr s = 0"
  | (port) p where "0 < p" "p \<le> 65535" "Atoi s = Some (int p)" "unat (grpcPortStr s) = p"
proof (cases "Atoi s")
  case None
  then show thesis using zero by (simp add: grpcPortStr_def)
next
  case (Some i)
  consider "i < 0 \<or> i > 65535" | "i = 0" | "0 < i" "i \<le> 65535" by linarith
  then show thesis
  proof cases
    case 1
    then show thesis using zero Some by (auto simp: grpcPortStr_def)
  next
    case 2
    then show thesis using zero Some by (simp add: grpcPortStr_def)
  next
    case 3
    then show thesis
      using port [of "nat i"] Some unat_word32_int [of i] by (simp add: grpcPortStr_def)
  qed
qed

lemma grpcPortStr_show_nat: "p \<le> 65535 \<Longrightarrow> unat (grpcPortStr (show_nat p)) = p"
  using unat_word32_int [of "int p"] by (simp add: grpcPortStr_def Atoi_show_nat)

lemma grpcPortStr_le: "unat (grpcPortStr s) \<le> 65535"
  by (cases s rule: grpcPortStr_cases) simp_all

lemma deployRevisionStr_range: "0 \<le> deployRevisionStr s" "deployRevisionStr s < 2 ^ 63"
  using Atoi_range [of s] by (auto simp: deployRevisionStr_def in_int64_def split: option.split)

lemma deployRevision_nonneg [simp]: "0 \<le> deployRevision rs"
  by (simp add: deployRevision_def deployRevisionStr_range)

lemma deployRevisionStr_show_nat: "n < 2 ^ 63 \<Longrightarrow> deployRevisionStr (show_nat n) = int n"
  by (simp add: deployRevisionStr_def Atoi_show_nat)

lemma newActiveEntry_sel [simp]:
  "ae_revision (newActiveEntry rs) = deployRevision rs"
  "ae_grpcPort (newActiveEntry rs) = grpcPort rs"
  by (simp_all add: newActiveEntry_def)

text \<open>
  C29. Ports: \<open>grpcPortStr\<close> gives a port other than zero exactly for the numerals of the ports
  1 to 65535, and then it is that port; it never leaves the range of ports, and it reads back
  every port printed in decimal.
\<close>

theorem port_reading:
  "(grpcPortStr s \<noteq> 0 \<longleftrightarrow> (\<exists>p. 0 < p \<and> p \<le> 65535 \<and> Atoi s = Some (int p) \<and> unat (grpcPortStr s) = p))
   \<and> unat (grpcPortStr s) \<le> 65535
   \<and> unat (grpcPortStr (show_nat (p mod 65536))) = p mod 65536"
proof (intro conjI)
  show "grpcPortStr s \<noteq> 0 \<longleftrightarrow>
      (\<exists>p. 0 < p \<and> p \<le> 65535 \<and> Atoi s = Some (int p) \<and> unat (grpcPortStr s) = p)"
    by (cases s rule: grpcPortStr_cases) auto
  show "unat (grpcPortStr s) \<le> 65535" by (rule grpcPortStr_le)
  have "p mod 65536 < 65536" by simp
  then show "unat (grpcPortStr (show_nat (p mod 65536))) = p mod 65536"
    by (intro grpcPortStr_show_nat) linarith
qed

section \<open>The EnvoyFilter as a record of the active state\<close>

lemma newEnvoyFilter_annotations:
  "go_lookup (om_Annotations (ef_meta (newEnvoyFilter rs b ss v))) deploymentAnnotation = deployKey rs"
  "go_lookup (om_Annotations (ef_meta (newEnvoyFilter rs b ss v))) portAnnotation =
     go_lookup (rs_Annotations rs) portAnnotation"
  "go_lookup (om_Annotations (ef_meta (newEnvoyFilter rs b ss v))) revisionAnnotation =
     go_lookup (rs_Annotations rs) revisionAnnotation"
  by (simp_all add: newEnvoyFilter_def annotation_defs)

text \<open>
  C24. Reading back the active state: from the EnvoyFilter that is made for a ReplicaSet,
  \<open>getActiveEntry\<close> recovers the deployment key, the port and the revision, whatever descriptor
  set and services went into it. The services to include and exclude and the path prefix are
  lost: the entry equals the one stored for the ReplicaSet exactly when those three annotations
  are empty. A ReplicaSet without deployment, port or positive revision gives no entry.
\<close>

theorem active_entry_roundtrip:
  "(case getActiveEntry (newEnvoyFilter rs b ss v) of
      Inl err \<Rightarrow> deployKey rs = [] \<or> grpcPort rs = 0 \<or> deployRevision rs = 0
    | Inr (key, entry) \<Rightarrow> key = deployKey rs \<and> key \<noteq> [] \<and>
        ae_grpcPort entry = grpcPort rs \<and> grpcPort rs \<noteq> 0 \<and>
        ae_revision entry = deployRevision rs \<and> deployRevision rs > 0 \<and>
        (entry = newActiveEntry rs \<longleftrightarrow>
           go_lookup (rs_Annotations rs) excludeAnnotation = [] \<and>
           go_lookup (rs_Annotations rs) includeAnnotation = [] \<and>
           go_lookup (rs_Annotations rs) httpPrefixAnnotation = []))"
proof -
  have "deployRevision rs > 0" if "deployRevision rs \<noteq> 0"
    using that deployRevision_nonneg [of rs] by linarith
  then show ?thesis
    unfolding getActiveEntry_def newEnvoyFilter_annotations Let_def
    by (auto simp: newActiveEntry_def grpcPort_def deployRevision_def)
qed

section \<open>One filter per deployment\<close>

text \<open>
  One filter per deployment: the EnvoyFilters made for two ReplicaSets of the same deployment
  have the same namespace, name and owner, so the later one overwrites the earlier one and both
  are collected with the deployment. They select the same workload when the labels of the pods
  differ only in the pod template hash, which no selector mentions.
\<close>

theorem one_filter_per_deployment:
  assumes "getDeployment rs = Some d" and "getDeployment rs' = Some d"
    and "rs_Namespace rs = rs_Namespace rs'"
    and "\<forall>l. l \<noteq> ''pod-template-hash'' \<longrightarrow> rs_TemplateLabels rs l = rs_TemplateLabels rs' l"
  shows "let f = newEnvoyFilter rs b ss v; f' = newEnvoyFilter rs' b' ss' v' in
    om_Namespace (ef_meta f) = om_Namespace (ef_meta f') \<and> om_Name (ef_meta f) = om_Name (ef_meta f') \<and>
    om_OwnerReferences (ef_meta f) = [d] \<and> om_OwnerReferences (ef_meta f') = [d] \<and>
    ef_WorkloadSelector f = ef_WorkloadSelector f' \<and> ef_WorkloadSelector f ''pod-template-hash'' = None"
proof -
  have "envoyFilterSelector rs = envoyFilterSelector rs'"
    unfolding envoyFilterSelector_def using assms(4) by auto
  moreover have "envoyFilterSelector rs ''pod-template-hash'' = None" by (simp add: envoyFilterSelector_def)
  ultimately show ?thesis using assms(1-3)
    by (simp add: Let_def newEnvoyFilter_def envoyFilterName_def envoyFilterOwner_def)
qed

section \<open>The services of a filter\<close>

text \<open>The names that a list of comma-separated pieces stands for.\<close>

definition named_services :: "string list \<Rightarrow> string set" where
  "named_services ps = (if ps = [] \<or> ps = [[]] then {} else TrimSpace ` set ps)"

lemma join_with_Nil_iff: "join_with c ps = [] \<longleftrightarrow> ps = [] \<or> ps = [[]]"
  by (cases "(c, ps)" rule: join_with.cases) auto

lemma mapFromString_join:
  "\<forall>p \<in> set ps. CHR '','' \<notin> set p \<Longrightarrow> mapFromString (join_with (CHR '','') ps) = named_services ps"
  by (simp add: mapFromString_def named_services_def join_with_Nil_iff split_join)

lemma named_services_card: "0 < card (named_services ps) \<longleftrightarrow> ps \<noteq> [] \<and> ps \<noteq> [[]]"
  by (simp add: named_services_def card_gt_0_iff)

text \<open>
  C27. Selection of services: with the exclusions \<open>ps\<close> and inclusions \<open>qs\<close> written as comma
  separated lists, an annotation that excludes something decides alone: the services it does not
  name stay, in their order. Otherwise the services that the inclusions name stay, and without
  either all of them. More exclusions than services are a run-time panic.
\<close>

theorem filter_services_spec:
  assumes "go_lookup (rs_Annotations rs) excludeAnnotation = join_with (CHR '','') ps"
    and "go_lookup (rs_Annotations rs) includeAnnotation = join_with (CHR '','') qs"
    and "\<forall>p \<in> set ps \<union> set qs. CHR '','' \<notin> set p"
  shows "filterGRPCServices services rs =
    (if ps \<noteq> [] \<and> ps \<noteq> [[]] then
       (if length services < card (TrimSpace ` set ps) then Panic ''makeslice: cap out of range''
        else Ok [s \<leftarrow> services. \<forall>p \<in> set ps. s \<noteq> TrimSpace p])
     else if qs \<noteq> [] \<and> qs \<noteq> [[]] then Ok [s \<leftarrow> services. \<exists>q \<in> set qs. s = TrimSpace q]
     else Ok services)"
proof -
  have e: "mapFromString (go_lookup (rs_Annotations rs) excludeAnnotation) = named_services ps"
    unfolding assms(1) using assms(3) by (intro mapFromString_join) blast
  have i: "mapFromString (go_lookup (rs_Annotations rs) includeAnnotation) = named_services qs"
    unfolding assms(2) using assms(3) by (intro mapFromString_join) blast
  have mem: "s \<notin> named_services ps \<longleftrightarrow> (\<forall>p \<in> set ps. s \<noteq> TrimSpace p)" if "ps \<noteq> []" "ps \<noteq> [[]]" for s
    using that by (auto simp: named_services_def)
  have mem': "s \<in> named_services qs \<longleftrightarrow> (\<exists>q \<in> set qs. s = TrimSpace q)" if "qs \<noteq> []" "qs \<noteq> [[]]" for s
    using that by (auto simp: named_services_def)
  have card: "card (named_services ps) = card (TrimSpace ` set ps)" if "ps \<noteq> []" "ps \<noteq> [[]]"
    using that by (simp add: named_services_def)
  show ?thesis
    unfolding filterGRPCServices_def e i Let_def named_services_card
    by (simp add: mem mem' card)
qed

definition sample_rs :: replicaset where
  "sample_rs =
     \<lparr>rs_APIVersion = ''apps/v1'', rs_Namespace = ''ns'', rs_Name = ''d-1'', rs_UID = ''u'',
      rs_Annotations = [portAnnotation \<mapsto> ''8080'', revisionAnnotation \<mapsto> ''1'',
        excludeAnnotation \<mapsto> ''p.A, p.B''],
      rs_OwnerReferences = [\<lparr>or_APIVersion = ''apps/v1'', or_Kind = ''Deployment'', or_Name = ''d'',
        or_UID = ''v'', or_rest = []\<rparr>],
      rs_ReadyReplicas = 1, rs_TemplateLabels = [''app'' \<mapsto> ''d'', ''pod-template-hash'' \<mapsto> ''h'']\<rparr>"

lemma TrimSpace_pieces: "TrimSpace ''p.A'' = ''p.A''" "TrimSpace '' p.B'' = ''p.B''"
proof -
  have l: "trim_prefixes ws_runes ''p.A'' = ''p.A''" "trim_prefixes ws_runes ''p.B'' = ''p.B''"
    "trim_prefixes (map rev ws_runes) ''A.p'' = ''A.p''"
    "trim_prefixes (map rev ws_runes) ''B.p'' = ''B.p''"
    by (rule trim_prefixes_id, simp add: ws_runes_def)+
  moreover have "trim_prefixes ws_runes '' p.B'' = trim_prefixes ws_runes ''p.B''"
    by (subst trim_prefixes.simps) (simp add: ws_runes_def)
  ultimately show "TrimSpace ''p.A'' = ''p.A''" "TrimSpace '' p.B'' = ''p.B''"
    by (simp_all add: TrimSpace_def)
qed

theorem one_filter_per_deployment_witness:
  "let f = newEnvoyFilter sample_rs [] [] [];
       f' = newEnvoyFilter (sample_rs\<lparr>rs_Name := ''d-2'', rs_TemplateLabels := [''app'' \<mapsto> ''d'']\<rparr>) [] [] [] in
    om_Name (ef_meta f) = om_Name (ef_meta f') \<and> ef_WorkloadSelector f = ef_WorkloadSelector f'"
proof -
  let ?rs' = "sample_rs\<lparr>rs_Name := ''d-2'', rs_TemplateLabels := [''app'' \<mapsto> ''d'']\<rparr>"
  obtain d where d: "getDeployment sample_rs = Some d" by (simp add: getDeployment_def sample_rs_def)
  then have "getDeployment ?rs' = Some d" by (simp add: getDeployment_def)
  moreover have "\<forall>l. l \<noteq> ''pod-template-hash'' \<longrightarrow> rs_TemplateLabels sample_rs l = rs_TemplateLabels ?rs' l"
    by (simp add: sample_rs_def)
  ultimately show ?thesis
    using one_filter_per_deployment [OF d, of ?rs' "[]" "[]" "[]" "[]" "[]" "[]"] by (simp add: Let_def)
qed

theorem filter_services_spec_witness:
  "filterGRPCServices [''p.A'', ''p.C'', ''p.B''] sample_rs = Ok [''p.C'']
   \<and> filterGRPCServices [''p.A''] sample_rs = Panic ''makeslice: cap out of range''"
proof -
  have ann: "go_lookup (rs_Annotations sample_rs) excludeAnnotation = join_with (CHR '','') [''p.A'', '' p.B'']"
    "go_lookup (rs_Annotations sample_rs) includeAnnotation = join_with (CHR '','') []"
    by (simp_all add: sample_rs_def annotation_defs)
  show ?thesis
    using filter_services_spec [OF ann] by (simp add: TrimSpace_pieces)
qed

end
