(* ===== verification/MutexMap.thy ===== *)
theory MutexMap
  imports Prelude
begin

text \<open>
  \<open>MutexMap\<close> (pkg/transflect/mutexmap.go): locks that are found by name in a \<open>sync.Map\<close>. A
  mutex is a heap object, so the model keeps the heap: \<open>sm\<close> maps a name to the address of its
  mutex, \<open>locked\<close> is the set of addresses whose mutex is held, and addresses from \<open>fresh\<close> on
  are not allocated. What a name's entry and the heap say can differ: \<open>Remove\<close> drops the entry
  and leaves the mutex as it is.

  The atomic actions of the methods are separate definitions, so that the theory Workers can
  interleave them; \<open>Lock\<close>, \<open>Unlock\<close> and \<open>Remove\<close> compose them as the code does.
\<close>

record mutex_map =
  sm :: "string \<rightharpoonup> nat"
  locked :: "nat set"
  fresh :: nat

definition mm_empty :: mutex_map where
  "mm_empty = \<lparr>sm = Map.empty, locked = {}, fresh = 0\<rparr>"

section \<open>The methods\<close>

text \<open>\<open>m := &sync.Mutex{}; m.Lock()\<close>\<close>

definition new_locked_mutex :: "mutex_map \<Rightarrow> nat \<times> mutex_map" where
  "new_locked_mutex s = (fresh s, s\<lparr>locked := insert (fresh s) (locked s), fresh := Suc (fresh s)\<rparr>)"

definition LoadOrStore :: "string \<Rightarrow> nat \<Rightarrow> mutex_map \<Rightarrow> nat \<times> bool \<times> mutex_map" where
  "LoadOrStore name m s =
     (case sm s name of
        Some v \<Rightarrow> (v, True, s)
      | None \<Rightarrow> (m, False, s\<lparr>sm := (sm s)(name \<mapsto> m)\<rparr>))"

text \<open>
  The first part of \<open>Lock\<close>: \<open>None\<close> when the new mutex was stored, so the caller holds the lock;
  \<open>Some v\<close> when the call \<open>v.Lock()\<close> on the mutex already there is still to come.
\<close>

definition Lock_enter :: "string \<Rightarrow> mutex_map \<Rightarrow> nat option \<times> mutex_map" where
  "Lock_enter name s =
     (case new_locked_mutex s of (m, s1) \<Rightarrow>
      case LoadOrStore name m s1 of (v, loaded, s2) \<Rightarrow> (if loaded then Some v else None, s2))"

text \<open>\<open>v.Lock()\<close> is enabled when the mutex is free; \<open>None\<close> is a caller that stays blocked.\<close>

definition mutex_Lock :: "nat \<Rightarrow> mutex_map \<Rightarrow> mutex_map option" where
  "mutex_Lock v s = (if v \<in> locked s then None else Some (s\<lparr>locked := insert v (locked s)\<rparr>))"

text \<open>\<open>v.Unlock()\<close>: a run-time error on a mutex that is not locked.\<close>

definition mutex_Unlock :: "nat \<Rightarrow> (mutex_map, unit) io" where
  "mutex_Unlock v s =
     (if v \<in> locked s then Some (Ok (), s\<lparr>locked := locked s - {v}\<rparr>)
      else Some (Panic ''sync: unlock of unlocked mutex'', s))"

definition Lock :: "string \<Rightarrow> mutex_map \<Rightarrow> mutex_map option" where
  "Lock name s =
     (case Lock_enter name s of
        (None, s') \<Rightarrow> Some s'
      | (Some v, s') \<Rightarrow> mutex_Lock v s')"

definition Unlock :: "string \<Rightarrow> (mutex_map, unit) io" where
  "Unlock name s = (case sm s name of None \<Rightarrow> Some (Ok (), s) | Some v \<Rightarrow> mutex_Unlock v s)"

definition Remove :: "string \<Rightarrow> mutex_map \<Rightarrow> mutex_map" where
  "Remove name s = s\<lparr>sm := (sm s)(name := None)\<rparr>"

section \<open>Well-formed states\<close>

text \<open>Entries and held mutexes are allocated, and no two names share a mutex.\<close>

definition mm_wf :: "mutex_map \<Rightarrow> bool" where
  "mm_wf s \<longleftrightarrow> (\<forall>k v. sm s k = Some v \<longrightarrow> v < fresh s) \<and> (\<forall>v \<in> locked s. v < fresh s)
     \<and> (\<forall>j k v. sm s j = Some v \<and> sm s k = Some v \<longrightarrow> j = k)"

text \<open>The lock of a name is held when its entry leads to a held mutex.\<close>

definition holds :: "string \<Rightarrow> mutex_map \<Rightarrow> bool" where
  "holds name s \<longleftrightarrow> (case sm s name of None \<Rightarrow> False | Some v \<Rightarrow> v \<in> locked s)"

lemma mm_wf_empty [simp]: "mm_wf mm_empty"
  by (simp add: mm_wf_def mm_empty_def)

lemma holds_empty [simp]: "\<not> holds k mm_empty"
  by (simp add: holds_def mm_empty_def)

lemmas mm_defs = new_locked_mutex_def LoadOrStore_def Lock_enter_def mutex_Lock_def
  mutex_Unlock_def Lock_def Unlock_def Remove_def

text \<open>What the methods do in the two cases of the lookup.\<close>

lemma Lock_enter_eqs:
  "sm s k = None \<Longrightarrow> Lock_enter k s =
     (None, s\<lparr>sm := (sm s)(k \<mapsto> fresh s), locked := insert (fresh s) (locked s),
               fresh := Suc (fresh s)\<rparr>)"
  "sm s k = Some v \<Longrightarrow> Lock_enter k s =
     (Some v, s\<lparr>locked := insert (fresh s) (locked s), fresh := Suc (fresh s)\<rparr>)"
  by (simp_all add: mm_defs)

lemma Lock_cases:
  assumes "Lock k s = Some t"
  obtains (stored) "sm s k = None"
      "t = s\<lparr>sm := (sm s)(k \<mapsto> fresh s), locked := insert (fresh s) (locked s),
             fresh := Suc (fresh s)\<rparr>"
  | (loaded) v where "sm s k = Some v" "v \<noteq> fresh s" "v \<notin> locked s"
      "t = s\<lparr>locked := insert v (insert (fresh s) (locked s)), fresh := Suc (fresh s)\<rparr>"
  using assms
  by (cases "sm s k") (auto simp: Lock_def Lock_enter_eqs mutex_Lock_def split: if_split_asm)

lemma Unlock_cases:
  assumes "Unlock k s = Some (r, t)"
  obtains (missing) "sm s k = None" "r = Ok ()" "t = s"
  | (freed) v where "sm s k = Some v" "v \<in> locked s" "r = Ok ()" "t = s\<lparr>locked := locked s - {v}\<rparr>"
  | (crash) v where "sm s k = Some v" "v \<notin> locked s"
      "r = Panic ''sync: unlock of unlocked mutex''" "t = s"
  using assms
  by (cases "sm s k") (auto simp: Unlock_def mutex_Unlock_def split: if_split_asm)

lemma mm_wfD:
  assumes "mm_wf s"
  shows "sm s k = Some v \<Longrightarrow> v < fresh s" "v \<in> locked s \<Longrightarrow> v < fresh s"
    "sm s j = Some v \<Longrightarrow> sm s k = Some v \<Longrightarrow> j = k"
  using assms by (simp_all add: mm_wf_def)

lemma Lock_enter_wf: "mm_wf s \<Longrightarrow> mm_wf (snd (Lock_enter k s))"
  by (cases "sm s k") (auto simp: mm_wf_def Lock_enter_eqs less_Suc_eq)

lemma Lock_wf:
  assumes "mm_wf s" "Lock k s = Some t"
  shows "mm_wf t"
  using assms(2,1) by (cases rule: Lock_cases) (auto simp: mm_wf_def less_Suc_eq)

lemma Unlock_wf:
  assumes "mm_wf s" "Unlock k s = Some (r, t)"
  shows "mm_wf t"
  using assms(2,1) by (cases rule: Unlock_cases) (auto simp: mm_wf_def)

lemma Remove_wf: "mm_wf s \<Longrightarrow> mm_wf (Remove k s)"
  by (simp add: mm_wf_def Remove_def)

text \<open>
  A call of \<open>Lock\<close> in a state where nobody runs concurrently returns exactly when the lock is free.
\<close>

lemma Lock_free: "mm_wf s \<Longrightarrow> \<not> holds k s \<Longrightarrow> \<exists>t. Lock k s = Some t"
  by (cases "sm s k")
    (auto simp: Lock_def Lock_enter_eqs mutex_Lock_def holds_def dest: mm_wfD(1))

lemma Lock_blocks: "holds k s \<Longrightarrow> Lock k s = None"
  by (cases "sm s k") (simp_all add: Lock_def Lock_enter_eqs mutex_Lock_def holds_def)

lemma Lock_holds: "Lock k s = Some t \<Longrightarrow> holds k t"
  by (erule Lock_cases) (simp_all add: holds_def)

lemma Lock_others:
  assumes "mm_wf s" "Lock k s = Some t" "j \<noteq> k"
  shows "holds j t = holds j s"
proof -
  have nf: "v \<noteq> fresh s" if "sm s j = Some v" for v
    using mm_wfD(1) [OF assms(1) that] by simp
  have inj: "v \<noteq> u" if "sm s j = Some v" "sm s k = Some u" for u v
    using mm_wfD(3) [OF assms(1)] that assms(3) by blast
  show ?thesis using assms(2)
    by (cases rule: Lock_cases; cases "sm s j") (use assms(3) nf inj in \<open>auto simp: holds_def\<close>)
qed

lemma Unlock_releases:
  "holds k s \<Longrightarrow> \<exists>t. Unlock k s = Some (Ok (), t) \<and> \<not> holds k t"
  by (cases "sm s k") (simp_all add: holds_def Unlock_def mutex_Unlock_def)

lemma Unlock_others:
  assumes "mm_wf s" "Unlock k s = Some (r, t)" "j \<noteq> k"
  shows "holds j t = holds j s"
proof -
  have inj: "v \<noteq> u" if "sm s j = Some v" "sm s k = Some u" for u v
    using mm_wfD(3) [OF assms(1)] that assms(3) by blast
  show ?thesis using assms(2)
    by (cases rule: Unlock_cases; cases "sm s j") (use inj in \<open>auto simp: holds_def\<close>)
qed

lemma Unlock_held:
  assumes "mm_wf m" "holds k m" "Unlock k m = Some (r, m')"
  shows "r = Ok ()" "sm m' = sm m" "holds j m' \<longleftrightarrow> j \<noteq> k \<and> holds j m"
proof -
  obtain t where "Unlock k m = Some (Ok (), t)" "\<not> holds k t"
    using Unlock_releases assms(2) by blast
  with assms(3) have r: "r = Ok ()" "\<not> holds k m'" by simp_all
  then show "r = Ok ()" by simp
  show "sm m' = sm m" using assms(3) by (cases rule: Unlock_cases) simp_all
  show "holds j m' \<longleftrightarrow> j \<noteq> k \<and> holds j m"
    using r(2) Unlock_others [OF assms(1,3), of j] by (cases "j = k") auto
qed

lemma holds_Remove [simp]: "holds j (Remove k s) \<longleftrightarrow> j \<noteq> k \<and> holds j s"
  by (simp add: holds_def Remove_def split: option.split)

lemma Unlock_removed [simp]: "Unlock k (Remove k s) = Some (Ok (), Remove k s)"
  by (simp add: Unlock_def Remove_def)

section \<open>The contract of a lock per name\<close>

text \<open>
  What a client of a named lock may rely on, over a state type of its own: a free lock can be
  taken, a held one blocks, releasing a held lock frees it, and each operation leaves the locks
  of the other names alone.
\<close>

locale named_lock =
  fixes lock :: "'k \<Rightarrow> 's \<Rightarrow> 's option"
    and unlock :: "'k \<Rightarrow> ('s, unit) io"
    and held :: "'k \<Rightarrow> 's \<Rightarrow> bool"
    and inv :: "'s \<Rightarrow> bool"
  assumes lock_free: "inv s \<Longrightarrow> \<not> held k s \<Longrightarrow> \<exists>t. lock k s = Some t"
    and lock_blocks: "inv s \<Longrightarrow> held k s \<Longrightarrow> lock k s = None"
    and lock_held: "inv s \<Longrightarrow> lock k s = Some t \<Longrightarrow> held k t"
    and lock_inv: "inv s \<Longrightarrow> lock k s = Some t \<Longrightarrow> inv t"
    and lock_frame: "inv s \<Longrightarrow> lock k s = Some t \<Longrightarrow> j \<noteq> k \<Longrightarrow> held j t = held j s"
    and unlock_held: "inv s \<Longrightarrow> held k s \<Longrightarrow> \<exists>t. unlock k s = Some (Ok (), t) \<and> \<not> held k t"
    and unlock_inv: "inv s \<Longrightarrow> unlock k s = Some (r, t) \<Longrightarrow> inv t"
    and unlock_frame: "inv s \<Longrightarrow> unlock k s = Some (r, t) \<Longrightarrow> j \<noteq> k \<Longrightarrow> held j t = held j s"
begin

text \<open>\<open>l.Lock(k); body(); l.Unlock(k)\<close>, where the body works on the same state.\<close>

definition critical :: "'k \<Rightarrow> ('s \<Rightarrow> 's) \<Rightarrow> ('s, unit) io" where
  "critical k body s = (case lock k s of None \<Rightarrow> None | Some t \<Rightarrow> unlock k (body t))"

text \<open>
  A section whose body keeps the locks as they are runs to its end when the lock is free, and
  leaves every lock as it found it; taken again it runs again.
\<close>

lemma critical_returns:
  assumes "inv s" "\<not> held k s"
    and keep: "\<And>t. inv t \<Longrightarrow> inv (body t)" "\<And>t j. inv t \<Longrightarrow> held j (body t) = held j t"
  obtains t where "critical k body s = Some (Ok (), t)" "inv t" "\<And>j. held j t = held j s"
proof -
  obtain t where t: "lock k s = Some t" using lock_free assms(1,2) by blast
  have t': "inv t" "held k t" using assms(1) t by (blast intro: lock_inv lock_held)+
  have fr: "held j t = held j s" if "j \<noteq> k" for j
    using assms(1) t that by (rule lock_frame)
  from t' have b: "inv (body t)" "held k (body t)" by (simp_all add: keep)
  then obtain u where u: "unlock k (body t) = Some (Ok (), u)" "\<not> held k u"
    using unlock_held by blast
  have "inv u" using b(1) u(1) by (rule unlock_inv)
  moreover have "held j u = held j s" for j
    using u(2) assms(2) unlock_frame [OF b(1) u(1), of j] t'(1) fr [of j] keep(2)
    by (cases "j = k") simp_all
  moreover have "critical k body s = Some (Ok (), u)"
    by (simp add: critical_def t u(1))
  ultimately show thesis using that by blast
qed

end

interpretation mm: named_lock Lock Unlock holds mm_wf
  by (unfold_locales; (erule (1) Lock_free | erule Lock_blocks | erule Lock_holds
      | erule (1) Lock_wf | erule (2) Lock_others | erule Unlock_releases
      | erule (1) Unlock_wf | erule (2) Unlock_others))

end
