(* ===== verification/Base64.thy ===== *)
theory Base64
  imports GoStd
begin

text \<open>
  \<open>base64.StdEncoding.EncodeToString\<close>, the encoding of the serialised file descriptor set
  that \<open>Base64Proto\<close> (pkg/transflect/transflect.go) puts into an EnvoyFilter, with the decoder
  Envoy applies to it as the specification: decoding an encoded byte sequence gives it back.
  Bytes are 8-bit words; the three-byte groups are read as numbers below \<open>2^24\<close>.
\<close>

type_synonym byte = "8 word"

section \<open>The alphabet\<close>

definition b64_char :: "nat \<Rightarrow> char" where
  "b64_char n =
     (if n < 26 then char_of (65 + n)
      else if n < 52 then char_of (97 + (n - 26))
      else if n < 62 then char_of (48 + (n - 52))
      else if n = 62 then CHR ''+'' else CHR ''/'')"

definition b64_val :: "char \<Rightarrow> nat option" where
  "b64_val c =
     (let n = of_char c :: nat in
        if 65 \<le> n \<and> n \<le> 90 then Some (n - 65)
        else if 97 \<le> n \<and> n \<le> 122 then Some (n - 97 + 26)
        else if 48 \<le> n \<and> n \<le> 57 then Some (n - 48 + 52)
        else if n = 43 then Some 62
        else if n = 47 then Some 63 else None)"

lemma b64_val_char [simp]: "n < 64 \<Longrightarrow> b64_val (b64_char n) = Some n"
  by (auto simp: b64_val_def b64_char_def of_char_of Let_def)

lemma b64_char_not_pad [simp]: "n < 64 \<Longrightarrow> b64_char n \<noteq> CHR ''=''"
proof
  assume "n < 64" "b64_char n = CHR ''=''"
  then have "b64_val (CHR ''='') = Some n" by (metis b64_val_char)
  then show False by (simp add: b64_val_def)
qed

section \<open>Encoding and decoding\<close>

text \<open>
  The four sextets of the group \<open>a b c\<close> are \<open>a div 4\<close>, \<open>sextet2 a b\<close>, \<open>sextet3 b c\<close> and
  \<open>c mod 64\<close>; the three octets are recovered from neighbouring sextets.
\<close>

definition sextet2 :: "nat \<Rightarrow> nat \<Rightarrow> nat" where
  "sextet2 a b = a mod 4 * 16 + b div 16"

definition sextet3 :: "nat \<Rightarrow> nat \<Rightarrow> nat" where
  "sextet3 b c = b mod 16 * 4 + c div 64"

definition octet1 :: "nat \<Rightarrow> nat \<Rightarrow> nat" where
  "octet1 v w = v * 4 + w div 16"

definition octet2 :: "nat \<Rightarrow> nat \<Rightarrow> nat" where
  "octet2 w x = w mod 16 * 16 + x div 4"

definition octet3 :: "nat \<Rightarrow> nat \<Rightarrow> nat" where
  "octet3 x y = x mod 4 * 64 + y"

fun b64_encode_nat :: "nat list \<Rightarrow> string" where
  "b64_encode_nat [] = []"
| "b64_encode_nat [a] = [b64_char (a div 4), b64_char (sextet2 a 0), CHR ''='', CHR ''='']"
| "b64_encode_nat [a, b] =
     [b64_char (a div 4), b64_char (sextet2 a b), b64_char (sextet3 b 0), CHR ''='']"
| "b64_encode_nat (a # b # c # r) =
     [b64_char (a div 4), b64_char (sextet2 a b), b64_char (sextet3 b c), b64_char (c mod 64)]
     @ b64_encode_nat r"

definition b64_encode :: "byte list \<Rightarrow> string" where
  "b64_encode bs = b64_encode_nat (map unat bs)"

text \<open>RFC 4648 decoding, strict about padding.\<close>

fun b64_decode_nat :: "string \<Rightarrow> nat list option" where
  "b64_decode_nat [] = Some []"
| "b64_decode_nat (p # q # r # s # cs) =
     (case (b64_val p, b64_val q) of
        (Some v, Some w) \<Rightarrow>
          (if r = CHR ''='' \<and> s = CHR ''='' \<and> cs = []
           then Some [octet1 v w]
           else (case b64_val r of
                   None \<Rightarrow> None
                 | Some x \<Rightarrow>
                     (if s = CHR ''='' \<and> cs = []
                      then Some [octet1 v w, octet2 w x]
                      else (case (b64_val s, b64_decode_nat cs) of
                              (Some y, Some r') \<Rightarrow> Some ([octet1 v w, octet2 w x, octet3 x y] @ r')
                            | _ \<Rightarrow> None))))
      | _ \<Rightarrow> None)"
| "b64_decode_nat _ = None"

definition b64_decode :: "string \<Rightarrow> byte list option" where
  "b64_decode s = map_option (map word_of_nat) (b64_decode_nat s)"

lemma sextet_bounds [simp]:
  "a < 256 \<Longrightarrow> a div 4 < 64"
  "b < 256 \<Longrightarrow> sextet2 a b < 64"
  "c < 256 \<Longrightarrow> sextet3 b c < 64"
  "c mod 64 < 64"
  unfolding sextet2_def sextet3_def by simp_all

lemma octets_of_sextets [simp]:
  "b < 256 \<Longrightarrow> octet1 (a div 4) (sextet2 a b) = a"
  "b < 256 \<Longrightarrow> c < 256 \<Longrightarrow> octet2 (sextet2 a b) (sextet3 b c) = b"
  "c < 256 \<Longrightarrow> octet3 (sextet3 b c) (c mod 64) = c"
  unfolding octet1_def octet2_def octet3_def sextet2_def sextet3_def
proof -
  have low: "(x * k + y) div k = x" "(x * k + y) mod k = y" if "y < k" for x y k :: nat
    using that by simp_all
  show "a div 4 * 4 + (a mod 4 * 16 + b div 16) div 16 = a" if "b < 256"
    using that by (simp only: low) simp
  show "(a mod 4 * 16 + b div 16) mod 16 * 16 + (b mod 16 * 4 + c div 64) div 4 = b"
    if "b < 256" "c < 256"
  proof -
    from that have "b div 16 < 16" "c div 64 < 4" by simp_all
    then show ?thesis by (simp only: low) simp
  qed
  show "(b mod 16 * 4 + c div 64) mod 4 * 64 + c mod 64 = c" if "c < 256"
  proof -
    from that have "c div 64 < 4" by simp
    then show ?thesis by (simp only: low) simp
  qed
qed

lemma b64_decode_encode_nat:
  "\<forall>x \<in> set xs. x < 256 \<Longrightarrow> b64_decode_nat (b64_encode_nat xs) = Some xs"
proof (induction xs rule: b64_encode_nat.induct)
  case (2 a)
  then show ?case using octets_of_sextets(1) [of 0 a] by simp
next
  case (3 a b)
  then show ?case using octets_of_sextets(2) [of b 0 a] by simp
qed simp_all

lemma b64_decode_encode: "b64_decode (b64_encode bs) = Some bs"
proof -
  have "unat x < 256" for x :: byte
    using unsigned_less [of x, where 'a = nat] by simp
  then have "b64_decode_nat (b64_encode_nat (map unat bs)) = Some (map unat bs)"
    by (intro b64_decode_encode_nat) auto
  then show ?thesis
    by (simp add: b64_decode_def b64_encode_def comp_def)
qed

lemma length_b64_encode_nat: "length (b64_encode_nat xs) = 4 * ((length xs + 2) div 3)"
proof (induction xs rule: b64_encode_nat.induct)
  case (4 a b c r)
  have "(length (a # b # c # r) + 2) div 3 = Suc ((length r + 2) div 3)" by simp
  with 4 show ?case by (simp del: length_Cons)
qed simp_all

lemma length_b64_encode: "length (b64_encode bs) = 4 * ((length bs + 2) div 3)"
  by (simp add: b64_encode_def length_b64_encode_nat)

end
