(* ===== verification/Descriptors.thy ===== *)
theory Descriptors
  imports GoStd
begin

text \<open>
  The parts of protobuf file descriptors the code reads or writes, and \<open>AnnotateHTTPRule\<close>
  (pkg/transflect/transflect.go), which gives a default HTTP mapping to every method that has
  none. Optional proto2 strings are options; their getters return the empty string when unset.
  Everything else in a descriptor is carried along unread in \<open>fd_rest\<close> and \<open>mo_rest\<close>.
\<close>

section \<open>Descriptors\<close>

text \<open>
  The \<open>google.api.http\<close> option. The code only ever builds a \<open>post\<close> rule with a body; a rule
  written in a \<open>.proto\<close> file may be any other one, kept as it is in \<open>OtherRule\<close>.
\<close>

datatype http_rule = PostRule (rule_body: string) (rule_path: string) | OtherRule string

record method_options =
  mo_http :: "http_rule option"
  mo_rest :: string

record method_desc =
  md_name :: "string option"
  md_options :: "method_options option"

record service_desc =
  sd_name :: "string option"
  sd_methods :: "method_desc list"

record file_desc =
  fd_name :: "string option"
  fd_package :: "string option"
  fd_dependency :: "string list"
  fd_services :: "service_desc list"
  fd_rest :: string

definition get_str :: "string option \<Rightarrow> string" where
  "get_str s = (case s of None \<Rightarrow> [] | Some x \<Rightarrow> x)"

abbreviation GetName :: "file_desc \<Rightarrow> string" where
  "GetName f \<equiv> get_str (fd_name f)"

section \<open>AnnotateHTTPRule\<close>

text \<open>\<open>proto.HasExtension(method.GetOptions(), annotations.E_Http)\<close>\<close>

definition has_http :: "method_desc \<Rightarrow> bool" where
  "has_http m = (case md_options m of None \<Rightarrow> False | Some opt \<Rightarrow> mo_http opt \<noteq> None)"

definition http_rule_of :: "method_desc \<Rightarrow> http_rule option" where
  "http_rule_of m = (case md_options m of None \<Rightarrow> None | Some opt \<Rightarrow> mo_http opt)"

text \<open>\<open>fmt.Sprintf("%s/%s.%s/%s", httpPathPrefix, package, service, method)\<close>\<close>

definition default_path :: "string \<Rightarrow> string \<Rightarrow> string \<Rightarrow> string \<Rightarrow> string" where
  "default_path pre pkg svc mth = pre @ ''/'' @ pkg @ ''.'' @ svc @ ''/'' @ mth"

definition annotate_method :: "string \<Rightarrow> string \<Rightarrow> string \<Rightarrow> method_desc \<Rightarrow> method_desc" where
  "annotate_method pre pkg svc m =
     (if has_http m then m
      else let opt = (case md_options m of
                        None \<Rightarrow> \<lparr>mo_http = None, mo_rest = []\<rparr>
                      | Some opt \<Rightarrow> opt);
               path = default_path pre pkg svc (get_str (md_name m))
           in m\<lparr>md_options := Some (opt\<lparr>mo_http := Some (PostRule ''*'' path)\<rparr>)\<rparr>)"

definition annotate_service :: "string \<Rightarrow> string \<Rightarrow> service_desc \<Rightarrow> service_desc" where
  "annotate_service pre pkg s =
     s\<lparr>sd_methods := map (annotate_method pre pkg (get_str (sd_name s))) (sd_methods s)\<rparr>"

definition AnnotateHTTPRule :: "file_desc \<Rightarrow> string \<Rightarrow> file_desc" where
  "AnnotateHTTPRule fd pre =
     fd\<lparr>fd_services := map (annotate_service pre (get_str (fd_package fd))) (fd_services fd)\<rparr>"

text \<open>The methods of a file with the names of their services, in order.\<close>

definition methods_of :: "file_desc \<Rightarrow> (string \<times> method_desc) list" where
  "methods_of fd =
     concat (map (\<lambda>s. map (\<lambda>m. (get_str (sd_name s), m)) (sd_methods s)) (fd_services fd))"

lemma get_str_simps [simp]: "get_str None = []" "get_str (Some s) = s"
  by (simp_all add: get_str_def)

lemma annotate_fields [simp]:
  "fd_name (AnnotateHTTPRule fd p) = fd_name fd"
  "fd_package (AnnotateHTTPRule fd p) = fd_package fd"
  "fd_dependency (AnnotateHTTPRule fd p) = fd_dependency fd"
  "fd_rest (AnnotateHTTPRule fd p) = fd_rest fd"
  "sd_name (annotate_service p pkg s) = sd_name s"
  "md_name (annotate_method p pkg svc m) = md_name m"
  by (simp_all add: AnnotateHTTPRule_def annotate_service_def annotate_method_def Let_def)

lemma has_http_iff: "has_http m \<longleftrightarrow> http_rule_of m \<noteq> None"
  by (simp add: has_http_def http_rule_of_def split: option.split)

lemma http_rule_of_annotate:
  "http_rule_of (annotate_method p pkg svc m) =
     (case http_rule_of m of
        None \<Rightarrow> Some (PostRule ''*'' (default_path p pkg svc (get_str (md_name m))))
      | Some r \<Rightarrow> Some r)"
  by (auto simp: annotate_method_def has_http_def http_rule_of_def Let_def split: option.split)

lemma annotate_method_id: "has_http m \<Longrightarrow> annotate_method p pkg svc m = m"
  by (simp add: annotate_method_def)

lemma has_http_annotate [simp]: "has_http (annotate_method p pkg svc m)"
  by (simp add: has_http_iff http_rule_of_annotate split: option.split)

lemma methods_of_annotate:
  "methods_of (AnnotateHTTPRule fd p) =
     map (\<lambda>(svc, m). (svc, annotate_method p (get_str (fd_package fd)) svc m)) (methods_of fd)"
  by (simp add: methods_of_def AnnotateHTTPRule_def annotate_service_def map_concat comp_def)

lemma AnnotateHTTPRule_again: "AnnotateHTTPRule (AnnotateHTTPRule fd p) q = AnnotateHTTPRule fd p"
  by (simp add: AnnotateHTTPRule_def annotate_service_def comp_def annotate_method_id)

text \<open>
  A method with the HTTP rule \<open>r\<close>; it keeps its name and its other options.
\<close>

definition with_rule :: "http_rule \<Rightarrow> method_desc \<Rightarrow> method_desc" where
  "with_rule r m = m\<lparr>md_options := Some \<lparr>mo_http = Some r,
     mo_rest = (case md_options m of None \<Rightarrow> [] | Some opt \<Rightarrow> mo_rest opt)\<rparr>\<rparr>"

lemma with_rule_fields [simp]:
  "md_name (with_rule r m) = md_name m" "http_rule_of (with_rule r m) = Some r"
  by (simp_all add: with_rule_def http_rule_of_def)

lemma annotate_method_rule:
  "annotate_method p pkg svc m =
     (case http_rule_of m of
        Some r \<Rightarrow> m
      | None \<Rightarrow> with_rule (PostRule ''*'' (default_path p pkg svc (get_str (md_name m)))) m)"
  by (auto simp: annotate_method_def has_http_iff http_rule_of_def with_rule_def Let_def split: option.split)

text \<open>
  C21. Annotation: \<open>AnnotateHTTPRule\<close> keeps name, package, imports and all that is not read of the
  file, the names and the number of its services, and in each service the names and the number
  of its methods. A method that has an HTTP rule is not touched at all. A method without one
  keeps its name and whatever other options it has, and gets the rule to POST the whole body to
  \<open>pre/package.service/method\<close>. Annotating the file again with any prefix changes nothing.
\<close>

theorem annotate_http_rule_spec:
  "(AnnotateHTTPRule fd pre)\<lparr>fd_services := fd_services fd\<rparr> = fd \<and>
   length (fd_services (AnnotateHTTPRule fd pre)) = length (fd_services fd) \<and>
   (\<forall>i < length (fd_services fd).
      let s = fd_services fd ! i; s' = fd_services (AnnotateHTTPRule fd pre) ! i in
      s'\<lparr>sd_methods := sd_methods s\<rparr> = s \<and> length (sd_methods s') = length (sd_methods s) \<and>
      (\<forall>j < length (sd_methods s).
         let m = sd_methods s ! j; m' = sd_methods s' ! j in
         (http_rule_of m \<noteq> None \<longrightarrow> m' = m) \<and>
         (http_rule_of m = None \<longrightarrow>
            m'\<lparr>md_options := md_options m\<rparr> = m \<and>
            http_rule_of m' = Some (PostRule ''*'' (default_path pre (get_str (fd_package fd))
              (get_str (sd_name s)) (get_str (md_name m)))) \<and>
            (\<forall>opt. md_options m = Some opt \<longrightarrow>
               (\<exists>opt'. md_options m' = Some opt' \<and> opt'\<lparr>mo_http := mo_http opt\<rparr> = opt))))) \<and>
   AnnotateHTTPRule (AnnotateHTTPRule fd pre) q = AnnotateHTTPRule fd pre"
proof (intro conjI allI impI)
  show "(AnnotateHTTPRule fd pre)\<lparr>fd_services := fd_services fd\<rparr> = fd"
    "length (fd_services (AnnotateHTTPRule fd pre)) = length (fd_services fd)"
    by (simp_all add: AnnotateHTTPRule_def)
  show "AnnotateHTTPRule (AnnotateHTTPRule fd pre) q = AnnotateHTTPRule fd pre"
    by (rule AnnotateHTTPRule_again)
next
  fix i
  assume i: "i < length (fd_services fd)"
  let ?s = "fd_services fd ! i"
  have s': "fd_services (AnnotateHTTPRule fd pre) ! i = annotate_service pre (get_str (fd_package fd)) ?s"
    using i by (simp add: AnnotateHTTPRule_def)
  have m': "sd_methods (annotate_service pre (get_str (fd_package fd)) ?s) ! j =
      annotate_method pre (get_str (fd_package fd)) (get_str (sd_name ?s)) (sd_methods ?s ! j)"
    if "j < length (sd_methods ?s)" for j using that by (simp add: annotate_service_def)
  show "let s = ?s; s' = fd_services (AnnotateHTTPRule fd pre) ! i in
      s'\<lparr>sd_methods := sd_methods s\<rparr> = s \<and> length (sd_methods s') = length (sd_methods s) \<and>
      (\<forall>j < length (sd_methods s).
         let m = sd_methods s ! j; m' = sd_methods s' ! j in
         (http_rule_of m \<noteq> None \<longrightarrow> m' = m) \<and>
         (http_rule_of m = None \<longrightarrow>
            m'\<lparr>md_options := md_options m\<rparr> = m \<and>
            http_rule_of m' = Some (PostRule ''*'' (default_path pre (get_str (fd_package fd))
              (get_str (sd_name s)) (get_str (md_name m)))) \<and>
            (\<forall>opt. md_options m = Some opt \<longrightarrow>
               (\<exists>opt'. md_options m' = Some opt' \<and> opt'\<lparr>mo_http := mo_http opt\<rparr> = opt))))"
    unfolding Let_def s'
  proof (intro conjI allI impI)
    fix j
    assume j: "j < length (sd_methods ?s)"
    note m' [OF j, simp]
    note annotate_method_rule [simp]
    show "sd_methods (annotate_service pre (get_str (fd_package fd)) ?s) ! j = sd_methods ?s ! j"
      if "http_rule_of (sd_methods ?s ! j) \<noteq> None" using that by auto
    assume none: "http_rule_of (sd_methods ?s ! j) = None"
    then show "(sd_methods (annotate_service pre (get_str (fd_package fd)) ?s) ! j)\<lparr>md_options := md_options (sd_methods ?s ! j)\<rparr> =
        sd_methods ?s ! j" by (simp add: with_rule_def)
    show "http_rule_of (sd_methods (annotate_service pre (get_str (fd_package fd)) ?s) ! j) =
        Some (PostRule ''*'' (default_path pre (get_str (fd_package fd)) (get_str (sd_name ?s)) (get_str (md_name (sd_methods ?s ! j)))))"
      using none by simp
    fix opt
    assume "md_options (sd_methods ?s ! j) = Some opt"
    then show "\<exists>opt'. md_options (sd_methods (annotate_service pre (get_str (fd_package fd)) ?s) ! j) = Some opt' \<and>
        opt'\<lparr>mo_http := mo_http opt\<rparr> = opt" using none by (simp add: with_rule_def)
  qed (simp_all add: annotate_service_def)
qed

text \<open>A file with a service of three methods: without options, with other options, with a rule.\<close>

definition sample_fd :: file_desc where
  "sample_fd = \<lparr>fd_name = Some ''a.proto'', fd_package = Some ''p'', fd_dependency = [], fd_services =
     [\<lparr>sd_name = Some ''S'', sd_methods =
        [\<lparr>md_name = Some ''M'', md_options = None\<rparr>,
         \<lparr>md_name = Some ''N'', md_options = Some \<lparr>mo_http = None, mo_rest = ''deprecated''\<rparr>\<rparr>,
         \<lparr>md_name = Some ''O'', md_options = Some \<lparr>mo_http = Some (OtherRule ''get''), mo_rest = ''r''\<rparr>\<rparr>]\<rparr>],
     fd_rest = ''rest''\<rparr>"

theorem annotate_http_rule_spec_witness:
  "let ms = sd_methods (fd_services (AnnotateHTTPRule sample_fd ''/api'') ! 0) in
   http_rule_of (ms ! 0) = Some (PostRule ''*'' ''/api/p.S/M'') \<and>
   (\<exists>opt. md_options (ms ! 1) = Some opt \<and> opt\<lparr>mo_http := None\<rparr> = \<lparr>mo_http = None, mo_rest = ''deprecated''\<rparr>) \<and>
   ms ! 2 = sd_methods (fd_services sample_fd ! 0) ! 2"
proof -
  note all = annotate_http_rule_spec [of sample_fd "''/api''" "''''", THEN conjunct2, THEN conjunct2, THEN conjunct1,
      rule_format, of 0, unfolded Let_def, THEN conjunct2, THEN conjunct2, rule_format]
  have len: "0 < length (fd_services sample_fd)" "0 < length (sd_methods (fd_services sample_fd ! 0))"
    "1 < length (sd_methods (fd_services sample_fd ! 0))" "2 < length (sd_methods (fd_services sample_fd ! 0))"
    by (simp_all add: sample_fd_def)
  show ?thesis
    using all [OF len(1,2)] all [OF len(1,3)] all [OF len(1,4)]
    by (auto simp: sample_fd_def http_rule_of_def default_path_def Let_def)
qed

end
