(* ===== verification/TopoSort.thy ===== *)
theory TopoSort
  imports Descriptors
begin

text \<open>
  \<open>topoSort\<close> (pkg/transflect/transflect.go) moves the descriptors reachable from a list of file
  names out of the map \<open>files\<close> into a list in which imported files come first. The map is
  mutated by the recursive calls, so the model returns it too. Go recursion is not structural
  and an entry is deleted only after its imports were handled, so the definition carries fuel,
  the depth of nested calls: \<open>None\<close> is a run that needs more. On an import graph without cycles,
  fuel of two more than the number of files is enough; on a cycle no fuel is.
\<close>

type_synonym files = "string \<rightharpoonup> file_desc"

fun topoSort :: "nat \<Rightarrow> string list \<Rightarrow> files \<Rightarrow> (file_desc list \<times> files) option" where
  "topoSort 0 names files = None"
| "topoSort (Suc n) [] files = Some ([], files)"
| "topoSort (Suc n) (name # names) files =
     (case files name of
        None \<Rightarrow> topoSort (Suc n) names files
      | Some file \<Rightarrow>
          (case topoSort n (fd_dependency file) files of
             None \<Rightarrow> None
           | Some (res1, files1) \<Rightarrow>
               (case topoSort (Suc n) names (files1(name := None)) of
                  None \<Rightarrow> None
                | Some (res2, files2) \<Rightarrow> Some (res1 @ file # res2, files2))))"

section \<open>Import graphs\<close>

text \<open>\<open>(d, n)\<close>: file \<open>n\<close> imports \<open>d\<close>, and both are in the map.\<close>

definition imports_rel :: "files \<Rightarrow> (string \<times> string) set" where
  "imports_rel files = {(d, n). \<exists>f. files n = Some f \<and> d \<in> set (fd_dependency f) \<and> files d \<noteq> None}"

text \<open>Entries are stored under the name of the file.\<close>

definition keyed :: "files \<Rightarrow> bool" where
  "keyed files \<longleftrightarrow> (\<forall>n f. files n = Some f \<longrightarrow> GetName f = n)"

text \<open>A rank that goes down along imports, the working form of acyclicity.\<close>

definition ranked :: "(string \<Rightarrow> nat) \<Rightarrow> files \<Rightarrow> bool" where
  "ranked r files \<longleftrightarrow> (\<forall>(d, n) \<in> imports_rel files. r d < r n)"

text \<open>Every file of the list comes after those of its imports that are among \<open>S\<close>.\<close>

definition imports_first :: "string set \<Rightarrow> file_desc list \<Rightarrow> bool" where
  "imports_first S fs \<longleftrightarrow>
     (\<forall>xs f ys. fs = xs @ f # ys \<longrightarrow> set (fd_dependency f) \<inter> S \<subseteq> GetName ` set xs)"

lemma rankedD:
  "ranked r files \<Longrightarrow> files n = Some f \<Longrightarrow> d \<in> set (fd_dependency f) \<Longrightarrow> files d \<noteq> None \<Longrightarrow> r d < r n"
  by (auto simp: ranked_def imports_rel_def)

lemma ranked_mono:
  assumes "ranked r files" "files' \<subseteq>\<^sub>m files"
  shows "ranked r files'"
proof -
  have "imports_rel files' \<subseteq> imports_rel files"
    using assms(2) by (fastforce simp: imports_rel_def map_le_def dom_def)
  with assms(1) show ?thesis by (auto simp: ranked_def)
qed

lemma keyed_mono: "keyed files \<Longrightarrow> files' \<subseteq>\<^sub>m files \<Longrightarrow> keyed files'"
  by (force simp: keyed_def map_le_def dom_def)

lemma finite_imports_rel:
  assumes "finite (dom files)"
  shows "finite (imports_rel files)"
proof (rule finite_subset)
  show "imports_rel files \<subseteq> dom files \<times> dom files" by (auto simp: imports_rel_def)
qed (use assms in simp)

text \<open>An acyclic finite import graph is ranked, below the number of its files.\<close>

lemma acyclic_ranked:
  assumes "finite (dom files)" "acyclic (imports_rel files)"
  obtains r where "ranked r files" "\<And>n. n \<in> dom files \<Longrightarrow> r n < card (dom files)"
proof -
  let ?R = "imports_rel files"
  define r where "r n = card {d. (d, n) \<in> ?R\<^sup>+}" for n
  have sub: "{d. (d, n) \<in> ?R\<^sup>+} \<subseteq> dom files" for n
    by (auto simp: imports_rel_def elim: converse_tranclE)
  then have fin: "finite {d. (d, n) \<in> ?R\<^sup>+}" for n
    using assms(1) finite_subset by blast
  have irr: "(n, n) \<notin> ?R\<^sup>+" for n using assms(2) by (simp add: acyclic_def)
  have "r d < r n" if "(d, n) \<in> ?R" for d n
  proof -
    have "{x. (x, d) \<in> ?R\<^sup>+} \<subset> {x. (x, n) \<in> ?R\<^sup>+}"
      using that irr [of d] by (auto intro: trancl_into_trancl)
    then show ?thesis unfolding r_def using fin by (rule psubset_card_mono [rotated])
  qed
  then have "ranked r files" by (auto simp: ranked_def)
  moreover have "r n < card (dom files)" if "n \<in> dom files" for n
  proof -
    have "{d. (d, n) \<in> ?R\<^sup>+} \<subset> dom files" using sub [of n] irr [of n] that by blast
    then show ?thesis unfolding r_def using assms(1) by (rule psubset_card_mono [rotated])
  qed
  ultimately show thesis using that by blast
qed

section \<open>Enough fuel\<close>

text \<open>
  Induction over a run that returned: the empty list, a name that is not in the map (any more),
  and a name whose file is emitted after the files it imports.
\<close>

lemma topoSort_run_induct [consumes 1, case_names Nil Skip Emit]:
  assumes run: "topoSort n names files = Some (res, rest)"
    and Nil: "\<And>files. P [] files [] files"
    and Skip: "\<And>name names files res rest.
      files name = None \<Longrightarrow> P names files res rest \<Longrightarrow> P (name # names) files res rest"
    and Emit: "\<And>m name names files f res1 files1 res2 rest.
      files name = Some f \<Longrightarrow> topoSort m (fd_dependency f) files = Some (res1, files1) \<Longrightarrow>
      P (fd_dependency f) files res1 files1 \<Longrightarrow>
      P names (files1(name := None)) res2 rest \<Longrightarrow> P (name # names) files (res1 @ f # res2) rest"
  shows "P names files res rest"
  using run
proof (induction n names files arbitrary: res rest rule: topoSort.induct)
  case (2 n files)
  then show ?case by (simp add: Nil)
next
  case (3 n name names files)
  show ?case
  proof (cases "files name")
    case None
    with 3 show ?thesis by (simp add: Skip)
  next
    case (Some f)
    with "3.prems" obtain res1 files1 res2 where
      1: "topoSort n (fd_dependency f) files = Some (res1, files1)" and
      2: "topoSort (Suc n) names (files1(name := None)) = Some (res2, rest)" and
      res: "res = res1 @ f # res2"
      by (auto split: option.splits)
    have "P (fd_dependency f) files res1 files1" using "3.IH"(2) [OF Some 1] .
    moreover have "P names (files1(name := None)) res2 rest"
      using "3.IH"(3) [OF Some 1 refl 2] .
    ultimately show ?thesis unfolding res using Some 1 by (intro Emit)
  qed
qed simp

lemma delete_le: "files1 \<subseteq>\<^sub>m files \<Longrightarrow> files1(name := None) \<subseteq>\<^sub>m files"
  by (simp add: map_le_def)

lemma topoSort_rest_le: "topoSort n names files = Some (res, rest) \<Longrightarrow> rest \<subseteq>\<^sub>m files"
proof (induction rule: topoSort_run_induct)
  case (Emit m name names files f res1 files1 res2 rest)
  then show ?case by (meson delete_le map_le_trans)
qed simp_all

lemma topoSort_returns:
  "ranked r files \<Longrightarrow> \<forall>x \<in> set names. files x \<noteq> None \<longrightarrow> r x < n \<Longrightarrow> topoSort (Suc n) names files \<noteq> None"
proof (induction n arbitrary: names files)
  case 0
  then show ?case by (induction names) auto
next
  case (Suc n)
  note outer = Suc.IH
  from Suc.prems show ?case
  proof (induction names arbitrary: files)
    case Nil
    then show ?case by simp
  next
    case (Cons name names)
    show ?case
    proof (cases "files name")
      case None
      with Cons show ?thesis by simp
    next
      case (Some f)
      have "\<forall>x \<in> set (fd_dependency f). files x \<noteq> None \<longrightarrow> r x < n"
        using rankedD [OF Cons.prems(1) Some] Cons.prems(2) Some by fastforce
      then have "topoSort (Suc n) (fd_dependency f) files \<noteq> None"
        using outer Cons.prems(1) by blast
      then obtain res1 files1 where
        1: "topoSort (Suc n) (fd_dependency f) files = Some (res1, files1)" by auto
      have le: "files1(name := None) \<subseteq>\<^sub>m files"
        using topoSort_rest_le [OF 1] by (rule delete_le)
      have "\<forall>x \<in> set names. (files1(name := None)) x \<noteq> None \<longrightarrow> r x < Suc n"
        using Cons.prems(2) le by (fastforce simp: map_le_def dom_def)
      then have "topoSort (Suc (Suc n)) names (files1(name := None)) \<noteq> None"
        using Cons.IH ranked_mono [OF Cons.prems(1) le] by blast
      with Some 1 show ?thesis by auto
    qed
  qed
qed

section \<open>What a run returns\<close>

text \<open>The result of a run and what is left of the map, given the run's arguments.\<close>

definition sorted_out :: "string list \<Rightarrow> files \<Rightarrow> file_desc list \<Rightarrow> files \<Rightarrow> bool" where
  "sorted_out names files res rest \<longleftrightarrow>
     rest = files |` (- GetName ` set res)
     \<and> (\<forall>f \<in> set res. files (GetName f) = Some f)
     \<and> distinct (map GetName res)
     \<and> set names \<inter> dom rest = {}
     \<and> (\<forall>f \<in> set res. set (fd_dependency f) \<inter> dom rest = {})
     \<and> imports_first (dom files) res"

lemma imports_first_Nil [simp]: "imports_first S []"
  by (simp add: imports_first_def)

lemma imports_first_append:
  assumes "imports_first S xs" "imports_first T ys" "S \<subseteq> T \<union> GetName ` set xs"
  shows "imports_first S (xs @ ys)"
  unfolding imports_first_def
proof (intro allI impI)
  fix us f vs
  assume eq: "xs @ ys = us @ f # vs"
  show "set (fd_dependency f) \<inter> S \<subseteq> GetName ` set us"
  proof (cases "length us < length xs")
    case True
    then obtain zs where zs: "xs = us @ zs" "zs @ ys = f # vs" "zs \<noteq> []"
      using eq by (auto simp: append_eq_append_conv2)
    then obtain ws where "xs = us @ f # ws" by (cases zs) auto
    with assms(1) show ?thesis by (simp add: imports_first_def)
  next
    case False
    then obtain ws where ws: "us = xs @ ws" "ys = ws @ f # vs"
      using eq by (auto simp: append_eq_append_conv2 append_eq_Cons_conv)
    with assms(2) have "set (fd_dependency f) \<inter> T \<subseteq> GetName ` set ws"
      by (simp add: imports_first_def)
    with ws assms(3) show ?thesis by auto
  qed
qed

lemma imports_first_single:
  "set (fd_dependency f) \<inter> S = {} \<Longrightarrow> imports_first S [f]"
  by (auto simp: imports_first_def Cons_eq_append_conv)

text \<open>No file of the result has a rank above those of the names asked for.\<close>

lemma topoSort_below:
  assumes "topoSort n names files = Some (res, rest)" "ranked r files" "keyed files"
    "\<forall>x \<in> set names. files x \<noteq> None \<longrightarrow> r x < N"
  shows "rest \<subseteq>\<^sub>m files \<and> (\<forall>f \<in> set res. r (GetName f) < N)"
  using assms
proof (induction arbitrary: N rule: topoSort_run_induct)
  case (Emit m name names files f res1 files1 res2 rest)
  have nm: "GetName f = name" using Emit.prems(2) Emit.hyps(1) by (simp add: keyed_def)
  have rN: "r name < N" using Emit.prems(3) Emit.hyps(1) by simp
  have "\<forall>x \<in> set (fd_dependency f). files x \<noteq> None \<longrightarrow> r x < r name"
    using rankedD [OF Emit.prems(1) Emit.hyps(1)] by blast
  then have 1: "files1 \<subseteq>\<^sub>m files" "\<forall>g \<in> set res1. r (GetName g) < r name"
    using Emit.IH(1) Emit.prems(1,2) by blast+
  then have le: "files1(name := None) \<subseteq>\<^sub>m files" by (simp add: delete_le)
  then have "\<forall>x \<in> set names. (files1(name := None)) x \<noteq> None \<longrightarrow> r x < N"
    using Emit.prems(3) by (fastforce simp: map_le_def dom_def)
  then have 2: "rest \<subseteq>\<^sub>m files1(name := None)" "\<forall>g \<in> set res2. r (GetName g) < N"
    using Emit.IH(2) [of N] ranked_mono [OF Emit.prems(1) le] keyed_mono [OF Emit.prems(2) le]
    by blast+
  from 2(1) le have "rest \<subseteq>\<^sub>m files" by (rule map_le_trans)
  with 1(2) 2(2) rN nm show ?case by auto
qed simp_all

lemma dom_delete_restrict: "(m |` (- A))(x := None) = m |` (- insert x A)"
  by (rule ext) (auto simp: restrict_map_def)

lemma restrict_neg_neg: "(m |` (- A)) |` (- B) = m |` (- (A \<union> B))"
  by (simp add: Int_commute)

lemma sorted_out_dom: "sorted_out names files res rest \<Longrightarrow> dom rest = dom files - GetName ` set res"
  by (auto simp: sorted_out_def)

lemma sorted_outD:
  assumes "sorted_out names files res rest"
  shows "rest = files |` (- GetName ` set res)" "\<And>f. f \<in> set res \<Longrightarrow> files (GetName f) = Some f"
    "distinct (map GetName res)" "set names \<inter> dom rest = {}"
    "\<And>f. f \<in> set res \<Longrightarrow> set (fd_dependency f) \<inter> dom rest = {}" "imports_first (dom files) res"
  using assms unfolding sorted_out_def by blast+

text \<open>The main lemma: a run on a ranked map that is keyed by file names sorts its files out.\<close>

lemma topoSort_sorted_out:
  assumes "topoSort n names files = Some (res, rest)" "ranked r files" "keyed files"
  shows "sorted_out names files res rest"
  using assms
proof (induction rule: topoSort_run_induct)
  case (Nil files)
  then show ?case by (auto simp: sorted_out_def restrict_map_def)
next
  case (Skip name names files res rest)
  then have so: "sorted_out names files res rest" by blast
  moreover have "name \<notin> dom rest" using sorted_out_dom [OF so] Skip.hyps by auto
  ultimately show ?case unfolding sorted_out_def list.set by blast
next
  case (Emit m name names files f res1 files1 res2 rest)
  let ?N1 = "GetName ` set res1" and ?N2 = "GetName ` set res2"
  have nm: "GetName f = name" using Emit.prems(2) Emit.hyps(1) by (simp add: keyed_def)
  have "\<forall>x \<in> set (fd_dependency f). files x \<noteq> None \<longrightarrow> r x < r name"
    using rankedD [OF Emit.prems(1) Emit.hyps(1)] by blast
  then have b: "files1 \<subseteq>\<^sub>m files" "name \<notin> ?N1"
    using topoSort_below [OF Emit.hyps(2) Emit.prems, of "r name"] by auto
  from b(1) have le: "files1(name := None) \<subseteq>\<^sub>m files" by (rule delete_le)
  have s1: "sorted_out (fd_dependency f) files res1 files1"
    using Emit.IH(1) Emit.prems by blast
  have s2: "sorted_out names (files1(name := None)) res2 rest"
    using Emit.IH(2) ranked_mono [OF Emit.prems(1) le] keyed_mono [OF Emit.prems(2) le] by blast
  have f1: "files1 = files |` (- ?N1)" using s1 by (simp add: sorted_out_def)
  have f2: "files1(name := None) = files |` (- insert name ?N1)"
    unfolding f1 by (rule dom_delete_restrict)
  have rest: "rest = files |` (- (insert name ?N1 \<union> ?N2))"
    using s2 unfolding sorted_out_def f2 restrict_neg_neg by blast
  have in2: "g \<in> set res2 \<Longrightarrow> files (GetName g) = Some g \<and> GetName g \<notin> insert name ?N1" for g
    using s2 unfolding sorted_out_def f2 by (auto simp: restrict_map_def split: if_splits)
  have in1: "g \<in> set res1 \<Longrightarrow> files (GetName g) = Some g" for g
    using s1 by (simp add: sorted_out_def)
  have dom1: "dom files1 = dom files - ?N1" by (auto simp: f1)
  have sub: "dom rest \<subseteq> dom files1 - {name}" by (auto simp: rest dom1)
  have tail: "imports_first (dom files1) ([f] @ res2)"
  proof (rule imports_first_append)
    show "imports_first (dom files1) [f]"
      using s1 unfolding sorted_out_def by (intro imports_first_single) blast
    show "imports_first (dom (files1(name := None))) res2"
      using s2 by (simp only: sorted_out_def)
    show "dom files1 \<subseteq> dom (files1(name := None)) \<union> GetName ` set [f]"
      by (auto simp: nm)
  qed
  have "imports_first (dom files) res1" "dom files \<subseteq> dom files1 \<union> ?N1"
    using s1 dom1 unfolding sorted_out_def by blast+
  then have "imports_first (dom files) (res1 @ [f] @ res2)"
    using tail imports_first_append by blast
  moreover have "?N2 \<inter> insert name ?N1 = {}" using in2 by blast
  then have "distinct (map GetName (res1 @ f # res2))"
    using sorted_outD(3) [OF s1] sorted_outD(3) [OF s2] b(2) by (auto simp: nm)
  moreover have "set (fd_dependency g) \<inter> dom rest = {}" if "g \<in> set (res1 @ f # res2)" for g
    using that sub sorted_outD(4,5) [OF s1] sorted_outD(5) [OF s2] by (auto simp del: dom_restrict) blast+
  moreover have "set (name # names) \<inter> dom rest = {}"
    using sub sorted_outD(4) [OF s2] by auto
  moreover have "files (GetName g) = Some g" if "g \<in> set (res1 @ f # res2)" for g
    using that in1 in2 Emit.hyps(1) nm by auto
  moreover have "rest = files |` (- GetName ` set (res1 @ f # res2))"
    by (simp add: rest nm image_Un)
  ultimately show ?case by (simp add: sorted_out_def)
qed

text \<open>The files that the names lead to: those in the map that a name is or imports, directly or not.\<close>

definition import_closure :: "string list \<Rightarrow> files \<Rightarrow> string set" where
  "import_closure names files = {n. \<exists>x \<in> set names \<inter> dom files. (n, x) \<in> (imports_rel files)\<^sup>*}"

lemma imports_rel_mono: "files' \<subseteq>\<^sub>m files \<Longrightarrow> imports_rel files' \<subseteq> imports_rel files"
  by (fastforce simp: imports_rel_def map_le_def dom_def)

lemma import_closure_mono:
  assumes "files' \<subseteq>\<^sub>m files"
  shows "import_closure names files' \<subseteq> import_closure names files"
  unfolding import_closure_def
  using rtrancl_mono [OF imports_rel_mono [OF assms]] map_le_implies_dom_le [OF assms] by blast

lemma import_closure_Cons: "import_closure names files \<subseteq> import_closure (name # names) files"
  unfolding import_closure_def by auto

lemma import_closure_dependency:
  assumes "files name = Some f"
  shows "import_closure (fd_dependency f) files \<subseteq> import_closure (name # names) files"
proof
  fix n
  assume "n \<in> import_closure (fd_dependency f) files"
  then obtain d where d: "d \<in> set (fd_dependency f)" "files d \<noteq> None" "(n, d) \<in> (imports_rel files)\<^sup>*"
    by (auto simp: import_closure_def)
  with assms have "(d, name) \<in> imports_rel files" by (auto simp: imports_rel_def)
  with d(3) have "(n, name) \<in> (imports_rel files)\<^sup>*" by (rule rtrancl_into_rtrancl)
  with assms show "n \<in> import_closure (name # names) files" by (auto simp: import_closure_def)
qed

lemma topoSort_only_closure:
  assumes "topoSort n names files = Some (res, rest)" "keyed files"
  shows "GetName ` set res \<subseteq> import_closure names files"
  using assms
proof (induction rule: topoSort_run_induct)
  case (Skip name names files res rest)
  then show ?case using import_closure_Cons by blast
next
  case (Emit m name names files f res1 files1 res2 rest)
  have nm: "GetName f = name" using Emit.prems Emit.hyps(1) by (simp add: keyed_def)
  have le: "files1(name := None) \<subseteq>\<^sub>m files" using topoSort_rest_le [OF Emit.hyps(2)] by (rule delete_le)
  have "GetName ` set res1 \<subseteq> import_closure (name # names) files"
    using Emit.IH(1) Emit.prems import_closure_dependency [where files = files and name = name, OF Emit.hyps(1)] by blast
  moreover have "name \<in> import_closure (name # names) files"
    using Emit.hyps(1) by (auto simp: import_closure_def)
  moreover have "GetName ` set res2 \<subseteq> import_closure names files"
    using Emit.IH(2) keyed_mono [OF Emit.prems le] import_closure_mono [OF le] by blast
  then have "GetName ` set res2 \<subseteq> import_closure (name # names) files"
    using import_closure_Cons by blast
  ultimately show ?case by (auto simp: nm)
qed simp

lemma sorted_out_closure:
  assumes "sorted_out names files res rest" "keyed files"
  shows "import_closure names files \<subseteq> GetName ` set res"
proof
  fix n
  assume "n \<in> import_closure names files"
  then obtain x where x: "x \<in> set names" "x \<in> dom files" "(n, x) \<in> (imports_rel files)\<^sup>*"
    by (auto simp: import_closure_def)
  have gone: "y \<in> GetName ` set res" if "y \<in> dom files" "y \<notin> dom rest" for y
    using that sorted_out_dom [OF assms(1)] by blast
  from x(3) show "n \<in> GetName ` set res"
  proof (induction rule: converse_rtrancl_induct)
    case base
    have "x \<notin> dom rest" using x(1) assms(1) unfolding sorted_out_def by blast
    then show ?case using x(2) gone by blast
  next
    case (step d c)
    then obtain g where g: "g \<in> set res" "GetName g = c" by auto
    then have "files c = Some g" using assms(1) unfolding sorted_out_def by blast
    with step(1) have "d \<in> set (fd_dependency g)" "d \<in> dom files" unfolding imports_rel_def by auto
    moreover have "set (fd_dependency g) \<inter> dom rest = {}"
      using g(1) assms(1) unfolding sorted_out_def by blast
    ultimately show ?case using gone by blast
  qed
qed

lemma topoSort_more_fuel: "topoSort n names files = Some x \<Longrightarrow> n \<le> m \<Longrightarrow> topoSort m names files = Some x"
proof (induction n names files arbitrary: m x rule: topoSort.induct)
  case (2 n files)
  then show ?case by (cases m) simp_all
next
  case (3 n name names files)
  obtain m' where m: "m = Suc m'" "n \<le> m'" using "3.prems"(2) by (cases m) auto
  show ?case
  proof (cases "files name")
    case None
    then have "topoSort (Suc n) names files = Some x" using "3.prems"(1) by simp
    from "3.IH"(1) [OF None this "3.prems"(2)] None m(1) show ?thesis by simp
  next
    case (Some f)
    with "3.prems"(1) obtain res1 files1 y where
      1: "topoSort n (fd_dependency f) files = Some (res1, files1)" and
      2: "topoSort (Suc n) names (files1(name := None)) = Some y"
      by (auto split: option.splits)
    have "topoSort m' (fd_dependency f) files = Some (res1, files1)"
      using "3.IH"(2) [OF Some 1 m(2)] .
    moreover have "topoSort (Suc m') names (files1(name := None)) = Some y"
      using "3.IH"(3) [OF Some 1 refl 2, of "Suc m'"] m(2) by blast
    ultimately show ?thesis using Some "3.prems"(1) 1 2 m(1) by simp
  qed
qed simp

lemma topoSort_acyclic:
  assumes "finite (dom files)" and "acyclic (imports_rel files)" and "keyed files"
  shows "\<exists>res. (\<forall>fuel > card (dom files).
             topoSort fuel names files = Some (res, files |` (- import_closure names files)))
           \<and> set (map GetName res) = import_closure names files
           \<and> distinct (map GetName res)
           \<and> (\<forall>f \<in> set res. files (GetName f) = Some f)
           \<and> imports_first (dom files) res"
proof -
  obtain r where r: "ranked r files" "\<And>n. n \<in> dom files \<Longrightarrow> r n < card (dom files)"
    using acyclic_ranked [OF assms(1,2)] by blast
  then have "topoSort (Suc (card (dom files))) names files \<noteq> None"
    by (intro topoSort_returns) auto
  then obtain res rest where run: "topoSort (Suc (card (dom files))) names files = Some (res, rest)"
    by auto
  have so: "sorted_out names files res rest" using run r(1) assms(3) by (rule topoSort_sorted_out)
  have names: "GetName ` set res = import_closure names files"
    using topoSort_only_closure [OF run assms(3)] sorted_out_closure [OF so assms(3)] by blast
  have "topoSort fuel names files = Some (res, files |` (- import_closure names files))"
    if "card (dom files) < fuel" for fuel
    using topoSort_more_fuel [OF run, of fuel] that so names by (simp add: sorted_out_def)
  with so names show ?thesis by (intro exI [of _ res]) (simp add: sorted_out_def)
qed

lemma ranked_acyclic: "ranked r files \<Longrightarrow> acyclic (imports_rel files)"
  by (rule acyclic_subset [OF wf_acyclic [OF wf_measure [of r]]]) (auto simp: ranked_def)

section \<open>Properties\<close>

text \<open>
  C19. Topological sort: when the imports among the files of a finite map form no cycle, \<open>topoSort\<close>
  returns, with one call depth more than there are files. It emits every file the names lead to
  exactly once, nothing else, each after all of its imports that are in the map, and it removes
  exactly the emitted files from the map.
\<close>

theorem topoSort_correct:
  assumes "finite (dom files)" and "acyclic (imports_rel files)" and "keyed files"
  shows "\<exists>res. (\<forall>fuel > card (dom files).
             topoSort fuel names files = Some (res, files |` (- import_closure names files)))
           \<and> set (map GetName res) = import_closure names files
           \<and> distinct (map GetName res)
           \<and> (\<forall>f \<in> set res. files (GetName f) = Some f)
           \<and> imports_first (dom files) res"
  using assms by (rule topoSort_acyclic)

text \<open>Two files, of which \<open>b\<close> imports \<open>a\<close> and one that is not in the map.\<close>

definition sample_files :: files where
  "sample_files =
     [''a'' \<mapsto> \<lparr>fd_name = Some ''a'', fd_package = None, fd_dependency = [], fd_services = [], fd_rest = []\<rparr>,
      ''b'' \<mapsto> \<lparr>fd_name = Some ''b'', fd_package = None, fd_dependency = [''x'', ''a''], fd_services = [],
               fd_rest = []\<rparr>]"

lemma sample_imports: "imports_rel sample_files = {(''a'', ''b'')}"
  by (auto simp: imports_rel_def sample_files_def split: if_splits)

theorem topoSort_correct_witness:
  "\<exists>res. (\<forall>fuel > card (dom sample_files).
             topoSort fuel [''b''] sample_files =
               Some (res, sample_files |` (- import_closure [''b''] sample_files)))
           \<and> set (map GetName res) = import_closure [''b''] sample_files
           \<and> distinct (map GetName res)
           \<and> (\<forall>f \<in> set res. sample_files (GetName f) = Some f)
           \<and> imports_first (dom sample_files) res"
proof (rule topoSort_correct)
  show "finite (dom sample_files)" by (simp add: sample_files_def)
  show "acyclic (imports_rel sample_files)"
  proof -
    have "acyclic ({} :: (string \<times> string) set)" by (simp add: acyclic_def)
    then show ?thesis unfolding sample_imports by (simp add: acyclic_insert)
  qed
  show "keyed sample_files" by (simp add: keyed_def sample_files_def)
qed

lemma topoSort_avoids_cycle:
  assumes "topoSort n names files = Some (res, rest)"
    and "\<forall>c \<in> C. \<exists>f. files c = Some f \<and> set (fd_dependency f) \<inter> C \<noteq> {}"
  shows "set names \<inter> C = {} \<and> (\<forall>c \<in> C. rest c = files c)"
  using assms
proof (induction rule: topoSort_run_induct)
  case (Skip name names files res rest)
  then show ?case by auto
next
  case (Emit m name names files f res1 files1 res2 rest)
  have 1: "set (fd_dependency f) \<inter> C = {}" "\<forall>c \<in> C. files1 c = files c"
    using Emit.IH(1) Emit.prems by blast+
  then have "name \<notin> C" using Emit.prems Emit.hyps(1) by fastforce
  then have same: "\<forall>c \<in> C. (files1(name := None)) c = files c" using 1(2) by auto
  with Emit.IH(2) Emit.prems \<open>name \<notin> C\<close> show ?case by auto
qed simp

text \<open>
  C36. Import cycles: when one of the names leads into a set of files each of which imports a
  file of the set, \<open>topoSort\<close> does not return, at whatever depth of calls: a file is only
  deleted from the map after its imports were sorted.
\<close>

theorem topoSort_cycle_diverges:
  assumes "\<forall>c \<in> C. \<exists>f. files c = Some f \<and> set (fd_dependency f) \<inter> C \<noteq> {}"
    and "set names \<inter> C \<noteq> {}"
  shows "topoSort fuel names files = None"
proof (rule ccontr)
  assume "topoSort fuel names files \<noteq> None"
  then obtain res rest where "topoSort fuel names files = Some (res, rest)" by auto
  from topoSort_avoids_cycle [OF this assms(1)] assms(2) show False by blast
qed

theorem topoSort_cycle_diverges_witness:
  "topoSort 100 [''a'']
     [''a'' \<mapsto> \<lparr>fd_name = Some ''a'', fd_package = None, fd_dependency = [''a''], fd_services = [],
               fd_rest = []\<rparr>] = None"
  by (rule topoSort_cycle_diverges [where C = "{''a''}"]) simp_all

end
