(* ===== verification/Reflection.thy ===== *)
theory Reflection
  imports Base64 TopoSort
begin

text \<open>
  The client of the gRPC reflection service (pkg/transflect/transflect.go). The generated gRPC
  client, the protobuf codec and the network are parameters: a record of the calls the code
  makes on a stream, over an arbitrary state \<open>'w\<close> of the outside world. The context argument
  only carries values for logging and cancellation and is left out.

  The recursion of \<open>addDependencies\<close> ends when the server has no new file to offer, so it
  carries fuel, the depth of nested calls, like \<open>topoSort\<close>. Draining a stream is a loop that
  may not end: it is a partial function.
\<close>

section \<open>Requests, responses and the client\<close>

datatype refl_msg = FileByFilename string | FileContainingSymbol string | ListServices

record refl_req =
  rq_host :: string
  rq_msg :: refl_msg

datatype refl_resp =
    FileDescriptorResponse "byte list list"
  | ListServicesResponse "string list"
  | ErrorResponse nat string
  | OtherResponse

record ('w, 's) refl_client =
  ServerReflectionInfo :: "'w \<Rightarrow> (goerr + 's) \<times> 'w"
  Send :: "'s \<Rightarrow> refl_req \<Rightarrow> 'w \<Rightarrow> goerr option \<times> 'w"
  Recv :: "'s \<Rightarrow> 'w \<Rightarrow> (goerr + refl_resp) \<times> 'w"
  CloseSend :: "'s \<Rightarrow> 'w \<Rightarrow> 'w"
  Unmarshal :: "byte list \<Rightarrow> goerr + file_desc"

text \<open>\<open>Base64Proto\<close>, over the codec's \<open>proto.Marshal\<close>.\<close>

definition Base64Proto :: "('m \<Rightarrow> goerr + byte list) \<Rightarrow> 'm \<Rightarrow> goerr + string" where
  "Base64Proto Marshal m =
     (case Marshal m of
        Inl err \<Rightarrow> Inl (WrapError ''cannot proto marshal message'' err)
      | Inr b \<Rightarrow> Inr (b64_encode b))"

section \<open>One request\<close>

partial_function (option) drain :: "('w, 's) refl_client \<Rightarrow> 's \<Rightarrow> 'w \<Rightarrow> 'w option" where
  "drain cl stream w =
     (case Recv cl stream w of
        (Inl err, w') \<Rightarrow> Some w'
      | (Inr resp, w') \<Rightarrow> drain cl stream w')"

definition closeAndDrain :: "('w, 's) refl_client \<Rightarrow> 's \<Rightarrow> 'w \<Rightarrow> 'w option" where
  "closeAndDrain cl stream w = drain cl stream (CloseSend cl stream w)"

definition doRefl :: "('w, 's) refl_client \<Rightarrow> refl_req \<Rightarrow> ('w, refl_resp) io" where
  "doRefl cl req =
     io_bind (io_wrap ''cannot setup reflection stream'' (io_call (ServerReflectionInfo cl)))
       (\<lambda>stream. io_defer (closeAndDrain cl stream)
          (io_bind (io_wrap ''cannot send reflection request'' (io_check (Send cl stream req)))
             (\<lambda>_. io_wrap ''cannot receive reflection response'' (io_call (Recv cl stream)))))"

fun decode_files :: "('w, 's) refl_client \<Rightarrow> byte list list \<Rightarrow> ('w, file_desc list) io" where
  "decode_files cl [] = io_return []"
| "decode_files cl (b # bs) =
     (case Unmarshal cl b of
        Inl err \<Rightarrow> io_fail (WrapError ''cannot unmarshal FileDescriptorProto'' err)
      | Inr fd \<Rightarrow> io_bind (decode_files cl bs) (\<lambda>fds. io_return (fd # fds)))"

text \<open>
  \<open>resp.GetFileDescriptorResponse()\<close> is nil for a response of another kind, an error response
  for example, and reading its field is a run-time panic.
\<close>

definition decodeResponse :: "('w, 's) refl_client \<Rightarrow> refl_resp \<Rightarrow> ('w, file_desc list) io" where
  "decodeResponse cl resp =
     (case resp of
        FileDescriptorResponse bs \<Rightarrow> decode_files cl bs
      | _ \<Rightarrow> io_panic ''invalid memory address or nil pointer dereference'')"

definition getFileDescriptorByFilename ::
    "('w, 's) refl_client \<Rightarrow> string \<Rightarrow> string \<Rightarrow> ('w, file_desc list) io" where
  "getFileDescriptorByFilename cl addr filename =
     io_bind (doRefl cl \<lparr>rq_host = addr, rq_msg = FileByFilename filename\<rparr>) (decodeResponse cl)"

definition getFileDescriptorBySymbol ::
    "('w, 's) refl_client \<Rightarrow> string \<Rightarrow> string \<Rightarrow> ('w, file_desc list) io" where
  "getFileDescriptorBySymbol cl addr symbol =
     io_bind (doRefl cl \<lparr>rq_host = addr, rq_msg = FileContainingSymbol symbol\<rparr>) (decodeResponse cl)"

text \<open>The getters of \<open>getServices\<close> are nil-safe: another kind of response lists no service.\<close>

definition getServices :: "('w, 's) refl_client \<Rightarrow> string \<Rightarrow> ('w, string list) io" where
  "getServices cl addr =
     io_bind (doRefl cl \<lparr>rq_host = addr, rq_msg = ListServices\<rparr>)
       (\<lambda>resp. io_return (case resp of ListServicesResponse services \<Rightarrow> services | _ \<Rightarrow> []))"

section \<open>Collecting the files\<close>

text \<open>The imports of a file of the map, \<open>files[name].GetDependency()\<close>, nil-safe.\<close>

definition dependencies_of :: "files \<Rightarrow> string \<Rightarrow> string list" where
  "dependencies_of files name = (case files name of None \<Rightarrow> [] | Some f \<Rightarrow> fd_dependency f)"

text \<open>
  \<open>addDependencies\<close> with its two nested loops as functions of their own: over the imports of a
  file, and over the descriptors of one response.
\<close>

function (sequential) addDependencies ::
    "nat \<Rightarrow> ('w, 's) refl_client \<Rightarrow> string \<Rightarrow> string \<Rightarrow> files \<Rightarrow> ('w, files) io"
  and dependency_loop ::
    "nat \<Rightarrow> ('w, 's) refl_client \<Rightarrow> string \<Rightarrow> string list \<Rightarrow> files \<Rightarrow> ('w, files) io"
  and response_loop ::
    "nat \<Rightarrow> ('w, 's) refl_client \<Rightarrow> string \<Rightarrow> file_desc list \<Rightarrow> files \<Rightarrow> ('w, files) io"
where
  "addDependencies 0 cl addr name files = io_diverge"
| "addDependencies (Suc n) cl addr name files =
     dependency_loop n cl addr (dependencies_of files name) files"
| "dependency_loop n cl addr [] files = io_return files"
| "dependency_loop n cl addr (dep # deps) files =
     (if files dep \<noteq> None then dependency_loop n cl addr deps files
      else io_bind (getFileDescriptorByFilename cl addr dep)
             (\<lambda>filesSlice. io_bind (response_loop n cl addr filesSlice files)
               (\<lambda>files'. dependency_loop n cl addr deps files')))"
| "response_loop n cl addr [] files = io_return files"
| "response_loop n cl addr (file # rest) files =
     (if files (GetName file) \<noteq> None then response_loop n cl addr rest files
      else io_bind (addDependencies n cl addr (GetName file) (files(GetName file \<mapsto> file)))
             (\<lambda>files'. response_loop n cl addr rest files'))"
  by pat_completeness auto
termination
  by (relation "measures
       [\<lambda>x. case x of Inl (n, _) \<Rightarrow> n | Inr (Inl (n, _)) \<Rightarrow> n | Inr (Inr (n, _)) \<Rightarrow> n,
        \<lambda>x. case x of Inl _ \<Rightarrow> 0 | Inr (Inl _) \<Rightarrow> 2 | Inr (Inr _) \<Rightarrow> 1,
        \<lambda>x. case x of Inl _ \<Rightarrow> 0 | Inr (Inl (_, _, _, l, _)) \<Rightarrow> length l
                    | Inr (Inr (_, _, _, l, _)) \<Rightarrow> length l]")
    simp_all

text \<open>
  The first part of \<open>getFileDescriptorSet\<close>: the files of one response about a service are
  annotated, stored and named unless they are there already; then those of the next service.
\<close>

fun add_service_files :: "string \<Rightarrow> file_desc list \<Rightarrow> files \<times> string list \<Rightarrow> files \<times> string list" where
  "add_service_files httpPathPrefix [] (files, names) = (files, names)"
| "add_service_files httpPathPrefix (file # rest) (files, names) =
     (let name = GetName file in
      if files name = None
      then add_service_files httpPathPrefix rest
             (files(name \<mapsto> AnnotateHTTPRule file httpPathPrefix), names @ [name])
      else add_service_files httpPathPrefix rest (files, names))"

fun collect_services ::
    "('w, 's) refl_client \<Rightarrow> string \<Rightarrow> string \<Rightarrow> string list \<Rightarrow> files \<times> string list \<Rightarrow>
     ('w, files \<times> string list) io" where
  "collect_services cl addr httpPathPrefix [] acc = io_return acc"
| "collect_services cl addr httpPathPrefix (service # services) acc =
     io_bind (getFileDescriptorBySymbol cl addr service)
       (\<lambda>filesSlice. collect_services cl addr httpPathPrefix services
          (add_service_files httpPathPrefix filesSlice acc))"

fun all_dependencies ::
    "nat \<Rightarrow> ('w, 's) refl_client \<Rightarrow> string \<Rightarrow> string list \<Rightarrow> files \<Rightarrow> ('w, files) io" where
  "all_dependencies fuel cl addr [] files = io_return files"
| "all_dependencies fuel cl addr (name # names) files =
     io_bind (addDependencies fuel cl addr name files)
       (\<lambda>files'. all_dependencies fuel cl addr names files')"

definition getFileDescriptorSet ::
    "nat \<Rightarrow> ('w, 's) refl_client \<Rightarrow> string \<Rightarrow> string \<Rightarrow> ('w, file_desc list \<times> string list) io" where
  "getFileDescriptorSet fuel cl addr httpPathPrefix =
     io_bind (getServices cl addr) (\<lambda>services.
     io_bind (collect_services cl addr httpPathPrefix services (Map.empty, [])) (\<lambda>(files, names).
     io_bind (all_dependencies fuel cl addr names files) (\<lambda>files'.
       case topoSort fuel names files' of
         None \<Rightarrow> io_diverge
       | Some (sortedFiles, _) \<Rightarrow> io_return (sortedFiles, services))))"

section \<open>A server that answers\<close>

text \<open>
  What the code relies on of the stream: a new stream has nothing pending, a request sent is
  pending until its response is received in turn, and once the stream is closed and nothing is
  pending the next \<open>Recv\<close> reports the end. \<open>srv\<close> is the server's response to a message.
\<close>

definition stream_serves ::
    "('w, 's) refl_client \<Rightarrow> (refl_msg \<Rightarrow> refl_resp) \<Rightarrow> ('s \<Rightarrow> 'w \<Rightarrow> refl_msg list \<times> bool) \<Rightarrow> bool" where
  "stream_serves cl srv pending \<longleftrightarrow>
     (\<forall>w. \<exists>s w'. ServerReflectionInfo cl w = (Inr s, w') \<and> pending s w' = ([], False)) \<and>
     (\<forall>s req w qs. pending s w = (qs, False) \<longrightarrow>
        (\<exists>w'. Send cl s req w = (None, w') \<and> pending s w' = (qs @ [rq_msg req], False))) \<and>
     (\<forall>s w q qs c. pending s w = (q # qs, c) \<longrightarrow>
        (\<exists>w'. Recv cl s w = (Inr (srv q), w') \<and> pending s w' = (qs, c))) \<and>
     (\<forall>s w qs c. pending s w = (qs, c) \<longrightarrow> pending s (CloseSend cl s w) = (qs, True)) \<and>
     (\<forall>s w. pending s w = ([], True) \<longrightarrow> (\<exists>e w'. Recv cl s w = (Inl e, w')))"

definition answers :: "('w, 's) refl_client \<Rightarrow> (refl_msg \<Rightarrow> refl_resp) \<Rightarrow> bool" where
  "answers cl srv \<longleftrightarrow> (\<forall>req w. \<exists>w'. doRefl cl req w = Some (Ok (srv (rq_msg req)), w'))"

lemma stream_serves_answers:
  assumes "stream_serves cl srv pending"
  shows "answers cl srv"
  unfolding answers_def
proof (intro allI)
  fix req w
  note laws = assms [unfolded stream_serves_def]
  note opened = laws [THEN conjunct1]
    and sent = laws [THEN conjunct2, THEN conjunct1, rule_format]
    and received = laws [THEN conjunct2, THEN conjunct2, THEN conjunct1, rule_format]
    and closed = laws [THEN conjunct2, THEN conjunct2, THEN conjunct2, THEN conjunct1, rule_format]
    and ended = laws [THEN conjunct2, THEN conjunct2, THEN conjunct2, THEN conjunct2, rule_format]
  obtain s w1 where 1: "ServerReflectionInfo cl w = (Inr s, w1)" "pending s w1 = ([], False)"
    using opened by blast
  from sent [OF 1(2), of req] obtain w2 where
    2: "Send cl s req w1 = (None, w2)" "pending s w2 = ([rq_msg req], False)" by auto
  from received [OF 2(2)] obtain w3 where
    3: "Recv cl s w2 = (Inr (srv (rq_msg req)), w3)" "pending s w3 = ([], False)" by blast
  from ended [OF closed [OF 3(2)]] obtain e w4 where
    4: "Recv cl s (CloseSend cl s w3) = (Inl e, w4)" by blast
  have "closeAndDrain cl s w3 = Some w4"
    by (simp add: closeAndDrain_def drain.simps 4)
  with 1(1) 2(1) 3(1) show "\<exists>w'. doRefl cl req w = Some (Ok (srv (rq_msg req)), w')"
    by (simp add: doRefl_def io_bind_def io_wrap_def io_defer_def io_call_def io_check_def)
qed

text \<open>The descriptors a response holds, where it holds some that decode.\<close>

definition decoded :: "('w, 's) refl_client \<Rightarrow> refl_resp \<Rightarrow> file_desc list \<Rightarrow> bool" where
  "decoded cl resp fds \<longleftrightarrow>
     (\<exists>bs. resp = FileDescriptorResponse bs \<and> map (Unmarshal cl) bs = map Inr fds)"

lemma decode_files_decoded:
  "map (Unmarshal cl) bs = map Inr fds \<Longrightarrow> decode_files cl bs w = Some (Ok fds, w)"
  by (induction bs arbitrary: fds) (auto simp: io_bind_def io_return_def)

lemma decodeResponse_decoded: "decoded cl resp fds \<Longrightarrow> decodeResponse cl resp w = Some (Ok fds, w)"
  by (auto simp: decoded_def decodeResponse_def decode_files_decoded)

lemma by_filename_decoded:
  "answers cl srv \<Longrightarrow> decoded cl (srv (FileByFilename d)) fds \<Longrightarrow>
     \<exists>w'. getFileDescriptorByFilename cl addr d w = Some (Ok fds, w')"
  unfolding answers_def getFileDescriptorByFilename_def
  by (metis decodeResponse_decoded io_bind_cases(2) refl_req.select_convs(2))

lemma by_symbol_decoded:
  "answers cl srv \<Longrightarrow> decoded cl (srv (FileContainingSymbol d)) fds \<Longrightarrow>
     \<exists>w'. getFileDescriptorBySymbol cl addr d w = Some (Ok fds, w')"
  unfolding answers_def getFileDescriptorBySymbol_def
  by (metis decodeResponse_decoded io_bind_cases(2) refl_req.select_convs(2))

lemma getServices_lists:
  assumes "answers cl srv" "srv ListServices = ListServicesResponse services"
  shows "\<exists>w'. getServices cl addr w = Some (Ok services, w')"
proof -
  obtain w' where "doRefl cl \<lparr>rq_host = addr, rq_msg = ListServices\<rparr> w =
      Some (Ok (ListServicesResponse services), w')"
    using assms unfolding answers_def by (metis refl_req.select_convs(2))
  then show ?thesis by (simp add: getServices_def io_bind_def io_return_def)
qed

text \<open>
  The files a server can send: their names and those of their imports come from a finite
  universe \<open>U\<close>, and imports go down a rank, as \<open>protoc\<close> guarantees. A request for a file of the
  universe is answered with that file, perhaps among others, and a request for a listed service
  with files of the universe.
\<close>

definition good_file :: "string set \<Rightarrow> (string \<Rightarrow> nat) \<Rightarrow> file_desc \<Rightarrow> bool" where
  "good_file U r f \<longleftrightarrow> GetName f \<in> U \<and> set (fd_dependency f) \<subseteq> U \<and>
     (\<forall>d \<in> set (fd_dependency f). r d < r (GetName f))"

definition serves_files ::
    "('w, 's) refl_client \<Rightarrow> (refl_msg \<Rightarrow> refl_resp) \<Rightarrow> string list \<Rightarrow> string set \<Rightarrow> (string \<Rightarrow> nat) \<Rightarrow> bool" where
  "serves_files cl srv services U r \<longleftrightarrow>
     finite U \<and> answers cl srv \<and> srv ListServices = ListServicesResponse services \<and>
     (\<forall>s \<in> set services. \<exists>fds. decoded cl (srv (FileContainingSymbol s)) fds \<and>
        (\<forall>f \<in> set fds. good_file U r f)) \<and>
     (\<forall>d \<in> U. \<exists>fds. decoded cl (srv (FileByFilename d)) fds \<and> d \<in> GetName ` set fds \<and>
        (\<forall>f \<in> set fds. good_file U r f))"

section \<open>What the collecting loops achieve\<close>

text \<open>The map holds good files under their names.\<close>

definition good_files :: "string set \<Rightarrow> (string \<Rightarrow> nat) \<Rightarrow> files \<Rightarrow> bool" where
  "good_files U r files \<longleftrightarrow> (\<forall>n f. files n = Some f \<longrightarrow> GetName f = n \<and> good_file U r f)"

text \<open>The map grew, and every new file has all of its imports in it.\<close>

definition completes :: "files \<Rightarrow> files \<Rightarrow> bool" where
  "completes files files' \<longleftrightarrow> files \<subseteq>\<^sub>m files' \<and>
     (\<forall>n f. files n = None \<and> files' n = Some f \<longrightarrow> set (fd_dependency f) \<subseteq> dom files')"

lemma completesI:
  "f \<subseteq>\<^sub>m g \<Longrightarrow> (\<And>n x. f n = None \<Longrightarrow> g n = Some x \<Longrightarrow> set (fd_dependency x) \<subseteq> dom g) \<Longrightarrow> completes f g"
  unfolding completes_def by blast

lemma completesD:
  assumes "completes f g"
  shows "f \<subseteq>\<^sub>m g" "f n = None \<Longrightarrow> g n = Some x \<Longrightarrow> set (fd_dependency x) \<subseteq> dom g"
  using assms unfolding completes_def by blast+

lemma map_leD: "f \<subseteq>\<^sub>m g \<Longrightarrow> f n = Some x \<Longrightarrow> g n = Some x"
  by (force simp: map_le_def)

lemma completes_refl [simp]: "completes files files"
  by (rule completesI) simp_all

lemma completes_mono: "completes files files' \<Longrightarrow> dom files \<subseteq> dom files'"
  by (rule map_le_implies_dom_le) (rule completesD(1))

lemma completes_trans:
  assumes "completes f g" "completes g h"
  shows "completes f h"
proof (rule completesI)
  show "f \<subseteq>\<^sub>m h" using completesD(1) [OF assms(1)] completesD(1) [OF assms(2)] by (rule map_le_trans)
next
  fix n x
  assume *: "f n = None" "h n = Some x"
  show "set (fd_dependency x) \<subseteq> dom h"
  proof (cases "g n")
    case None
    then show ?thesis using *(2) by (rule completesD(2) [OF assms(2)])
  next
    case (Some y)
    then have "x = y" using map_leD [OF completesD(1) [OF assms(2)]] *(2) by fastforce
    with completesD(2) [OF assms(1) *(1)] Some have "set (fd_dependency x) \<subseteq> dom g" by blast
    with completes_mono [OF assms(2)] show ?thesis by blast
  qed
qed

lemma completes_add:
  assumes "completes (f(n \<mapsto> x)) g" "set (fd_dependency x) \<subseteq> dom g" "f n = None"
  shows "completes f g" "n \<in> dom g"
proof -
  note le = completesD(1) [OF assms(1)]
  have n: "g n = Some x" by (rule map_leD [OF le]) simp
  then show "n \<in> dom g" by blast
  have "f \<subseteq>\<^sub>m f(n \<mapsto> x)" using assms(3) by (auto simp: map_le_def)
  then have "f \<subseteq>\<^sub>m g" using le by (rule map_le_trans)
  then show "completes f g"
  proof (rule completesI)
    fix m y
    assume *: "f m = None" "g m = Some y"
    show "set (fd_dependency y) \<subseteq> dom g"
    proof (cases "m = n")
      case True
      with *(2) n assms(2) show ?thesis by simp
    next
      case False
      with *(1) have "(f(n \<mapsto> x)) m = None" by simp
      then show ?thesis using *(2) by (rule completesD(2) [OF assms(1)])
    qed
  qed
qed

lemma good_files_dom: "good_files U r files \<Longrightarrow> dom files \<subseteq> U"
  by (force simp: good_files_def good_file_def)

lemma good_files_upd:
  "good_files U r files \<Longrightarrow> good_file U r f \<Longrightarrow> good_files U r (files(GetName f \<mapsto> f))"
  by (simp add: good_files_def)

lemma good_files_deps: "good_files U r files \<Longrightarrow> set (dependencies_of files n) \<subseteq> U"
  unfolding good_files_def good_file_def dependencies_of_def by (cases "files n") simp_all

lemma missing_less:
  assumes "finite U" "n \<in> U" "files n = None"
  shows "card (U - dom (files(n \<mapsto> f))) < card (U - dom files)"
proof (rule psubset_card_mono)
  show "U - dom (files(n \<mapsto> f)) \<subset> U - dom files" using assms(2,3) by auto
qed (use assms(1) in simp)

lemma missing_le: "finite U \<Longrightarrow> completes f g \<Longrightarrow> card (U - dom g) \<le> card (U - dom f)"
  by (rule card_mono) (use completes_mono in blast)+

text \<open>
  The recursion under such a server: with more fuel than there are files missing, a call of
  \<open>addDependencies\<close> returns, adds what the file imports, and leaves only complete new files.
\<close>

definition extends_to ::
    "string set \<Rightarrow> (string \<Rightarrow> nat) \<Rightarrow> files \<Rightarrow> string set \<Rightarrow> (files outcome \<times> 'w) option \<Rightarrow> bool" where
  "extends_to U r files S res \<longleftrightarrow>
     (\<exists>files' w'. res = Some (Ok files', w') \<and> good_files U r files' \<and> completes files files' \<and>
        S \<subseteq> dom files')"

lemma extends_toE:
  assumes "extends_to U r files S res"
  obtains files' w' where "res = Some (Ok files', w')" "good_files U r files'"
    "completes files files'" "S \<subseteq> dom files'"
  using assms unfolding extends_to_def by blast

lemma extends_to_trans:
  assumes "completes files files'" "S \<subseteq> dom files'" "extends_to U r files' T res"
  shows "extends_to U r files (S \<union> T) res"
  using assms(3)
proof (rule extends_toE)
  fix files'' w'
  assume *: "res = Some (Ok files'', w')" "good_files U r files''" "completes files' files''"
    "T \<subseteq> dom files''"
  then show ?thesis
    using completes_trans [OF assms(1)] completes_mono [OF *(3)] assms(2)
    unfolding extends_to_def by blast
qed

lemma extends_to_less: "S \<subseteq> T \<Longrightarrow> extends_to U r files T res \<Longrightarrow> extends_to U r files S res"
  by (erule extends_toE) (auto simp: extends_to_def)

lemma response_loop_extends:
  assumes fin: "finite U"
    and rec: "\<And>files name w. good_files U r files \<Longrightarrow> card (U - dom files) < n \<Longrightarrow>
      extends_to U r files (set (dependencies_of files name)) (addDependencies n cl addr name files w)"
  shows "good_files U r files \<Longrightarrow> card (U - dom files) \<le> n \<Longrightarrow> \<forall>f \<in> set fds. good_file U r f \<Longrightarrow>
    extends_to U r files (GetName ` set fds) (response_loop n cl addr fds files w)"
proof (induction fds arbitrary: files w)
  case Nil
  then show ?case by (simp add: extends_to_def io_return_def)
next
  case (Cons f fds)
  show ?case
  proof (cases "files (GetName f)")
    case (Some g)
    have "extends_to U r files ({GetName f} \<union> GetName ` set fds) (response_loop n cl addr fds files w)"
      using Some Cons by (intro extends_to_trans [OF completes_refl]) auto
    with Some show ?thesis by simp
  next
    case None
    let ?files = "files(GetName f \<mapsto> f)"
    have f: "good_file U r f" using Cons.prems(3) by simp
    have good: "good_files U r ?files" using Cons.prems(1) f by (rule good_files_upd)
    have "card (U - dom ?files) < card (U - dom files)"
      using f None by (intro missing_less [OF fin]) (simp_all add: good_file_def)
    then have "card (U - dom ?files) < n" using Cons.prems(2) by simp
    from rec [OF good this, of "GetName f" w] obtain files1 w1 where 1:
      "addDependencies n cl addr (GetName f) ?files w = Some (Ok files1, w1)"
      "good_files U r files1" "completes ?files files1"
      "set (dependencies_of ?files (GetName f)) \<subseteq> dom files1"
      by (rule extends_toE)
    then have "set (fd_dependency f) \<subseteq> dom files1" by (simp add: dependencies_of_def)
    note add = completes_add [OF 1(3) this None]
    have "card (U - dom files1) \<le> n"
      using missing_le [OF fin add(1)] Cons.prems(2) by simp
    then have "extends_to U r files1 (GetName ` set fds) (response_loop n cl addr fds files1 w1)"
      using Cons.IH 1(2) Cons.prems(3) by simp
    then have "extends_to U r files ({GetName f} \<union> GetName ` set fds)
        (response_loop n cl addr fds files1 w1)"
      using add by (intro extends_to_trans [OF add(1)]) auto
    with None 1(1) show ?thesis by (simp add: io_bind_def)
  qed
qed

lemma dependency_loop_extends:
  assumes fin: "finite U" and ans: "answers cl srv"
    and by_name: "\<forall>d \<in> U. \<exists>fds. decoded cl (srv (FileByFilename d)) fds \<and> d \<in> GetName ` set fds \<and>
        (\<forall>f \<in> set fds. good_file U r f)"
    and rec: "\<And>files name w. good_files U r files \<Longrightarrow> card (U - dom files) < n \<Longrightarrow>
      extends_to U r files (set (dependencies_of files name)) (addDependencies n cl addr name files w)"
  shows "good_files U r files \<Longrightarrow> card (U - dom files) \<le> n \<Longrightarrow> set deps \<subseteq> U \<Longrightarrow>
    extends_to U r files (set deps) (dependency_loop n cl addr deps files w)"
proof (induction deps arbitrary: files w)
  case Nil
  then show ?case by (simp add: extends_to_def io_return_def)
next
  case (Cons d deps)
  show ?case
  proof (cases "files d")
    case (Some g)
    have "extends_to U r files ({d} \<union> set deps) (dependency_loop n cl addr deps files w)"
      using Some Cons by (intro extends_to_trans [OF completes_refl]) auto
    with Some show ?thesis by simp
  next
    case None
    obtain fds where fds: "decoded cl (srv (FileByFilename d)) fds" "d \<in> GetName ` set fds"
        "\<forall>f \<in> set fds. good_file U r f"
      using by_name Cons.prems(3) by auto
    obtain w0 where w0: "getFileDescriptorByFilename cl addr d w = Some (Ok fds, w0)"
      using by_filename_decoded [OF ans fds(1)] by blast
    have "extends_to U r files (GetName ` set fds) (response_loop n cl addr fds files w0)"
      using fin rec Cons.prems(1,2) fds(3) by (rule response_loop_extends)
    then obtain files1 w1 where 1: "response_loop n cl addr fds files w0 = Some (Ok files1, w1)"
        "good_files U r files1" "completes files files1" "GetName ` set fds \<subseteq> dom files1"
      by (rule extends_toE)
    have "card (U - dom files1) \<le> n" using missing_le [OF fin 1(3)] Cons.prems(2) by simp
    then have "extends_to U r files1 (set deps) (dependency_loop n cl addr deps files1 w1)"
      using Cons.IH 1(2) Cons.prems(3) by simp
    then have "extends_to U r files ({d} \<union> set deps) (dependency_loop n cl addr deps files1 w1)"
      using 1(4) fds(2) by (intro extends_to_trans [OF 1(3)]) auto
    with None w0 1(1) show ?thesis by (simp add: io_bind_def)
  qed
qed

lemma addDependencies_extends:
  assumes fin: "finite U" and ans: "answers cl srv"
    and by_name: "\<forall>d \<in> U. \<exists>fds. decoded cl (srv (FileByFilename d)) fds \<and> d \<in> GetName ` set fds \<and>
        (\<forall>f \<in> set fds. good_file U r f)"
  shows "good_files U r files \<Longrightarrow> card (U - dom files) < n \<Longrightarrow>
    extends_to U r files (set (dependencies_of files name)) (addDependencies n cl addr name files w)"
proof (induction n arbitrary: files name w)
  case 0
  then show ?case by simp
next
  case (Suc n)
  have "extends_to U r files (set (dependencies_of files name))
      (dependency_loop n cl addr (dependencies_of files name) files w)"
    using Suc.prems by (intro dependency_loop_extends [OF fin ans by_name Suc.IH] good_files_deps) auto
  then show ?case by simp
qed

lemma all_dependencies_extends:
  assumes fin: "finite U" and ans: "answers cl srv"
    and by_name: "\<forall>d \<in> U. \<exists>fds. decoded cl (srv (FileByFilename d)) fds \<and> d \<in> GetName ` set fds \<and>
        (\<forall>f \<in> set fds. good_file U r f)"
  shows "good_files U r files \<Longrightarrow> card (U - dom files) < fuel \<Longrightarrow>
    extends_to U r files (\<Union>n \<in> set names. set (dependencies_of files n))
      (all_dependencies fuel cl addr names files w)"
proof (induction names arbitrary: files w)
  case Nil
  then show ?case by (simp add: extends_to_def io_return_def)
next
  case (Cons name names)
  from addDependencies_extends [OF assms Cons.prems] obtain files1 w1 where 1:
    "addDependencies fuel cl addr name files w = Some (Ok files1, w1)"
    "good_files U r files1" "completes files files1"
    "set (dependencies_of files name) \<subseteq> dom files1"
    by (rule extends_toE)
  have "card (U - dom files1) < fuel" using missing_le [OF fin 1(3)] Cons.prems(2) by simp
  then have rest: "extends_to U r files1 (\<Union>n \<in> set names. set (dependencies_of files1 n))
      (all_dependencies fuel cl addr names files1 w1)"
    by (rule Cons.IH [OF 1(2)])
  have "set (dependencies_of files n) \<subseteq> set (dependencies_of files1 n)" for n
    using map_leD [OF completesD(1) [OF 1(3)], of n]
    unfolding dependencies_of_def by (cases "files n") simp_all
  then have "(\<Union>n \<in> set names. set (dependencies_of files n))
      \<subseteq> (\<Union>n \<in> set names. set (dependencies_of files1 n))" by blast
  then have "extends_to U r files1 (\<Union>n \<in> set names. set (dependencies_of files n))
      (all_dependencies fuel cl addr names files1 w1)"
    using rest by (rule extends_to_less)
  from extends_to_trans [OF 1(3,4) this] 1(1) show ?case by (simp add: io_bind_def)
qed

text \<open>The files gathered about the services, before their imports are looked up.\<close>

definition gathered :: "string \<Rightarrow> string set \<Rightarrow> (string \<Rightarrow> nat) \<Rightarrow> files \<times> string list \<Rightarrow> bool" where
  "gathered pre U r acc \<longleftrightarrow> good_files U r (fst acc) \<and> dom (fst acc) = set (snd acc) \<and>
     (\<forall>f \<in> ran (fst acc). \<exists>g. f = AnnotateHTTPRule g pre)"

lemma good_file_annotate [simp]: "good_file U r (AnnotateHTTPRule f p) = good_file U r f"
  by (simp add: good_file_def)

lemma add_service_files_gathers:
  assumes "gathered pre U r acc" "\<forall>f \<in> set fds. good_file U r f"
  shows "gathered pre U r (add_service_files pre fds acc) \<and>
    fst acc \<subseteq>\<^sub>m fst (add_service_files pre fds acc) \<and>
    GetName ` set fds \<subseteq> dom (fst (add_service_files pre fds acc))"
  using assms
proof (induction pre fds acc rule: add_service_files.induct)
  case (2 pre f fds files names)
  show ?case
  proof (cases "files (GetName f)")
    case None
    let ?files = "files(GetName f \<mapsto> AnnotateHTTPRule f pre)"
    have "good_files U r ?files"
      using good_files_upd [of U r files "AnnotateHTTPRule f pre"] "2.prems"
      by (simp add: gathered_def)
    then have g: "gathered pre U r (?files, names @ [GetName f])"
      using "2.prems"(1) None by (auto simp: gathered_def ran_def)
    have le: "files \<subseteq>\<^sub>m ?files" using None by (auto simp: map_le_def)
    let ?acc' = "add_service_files pre fds (?files, names @ [GetName f])"
    have "\<forall>f \<in> set fds. good_file U r f" using "2.prems"(2) by simp
    from "2.IH"(1) [OF refl None g this]
    have IH: "gathered pre U r ?acc'" "?files \<subseteq>\<^sub>m fst ?acc'" "GetName ` set fds \<subseteq> dom (fst ?acc')"
      by (simp_all only: fst_conv)
    have "GetName f \<in> dom (fst ?acc')" using map_le_implies_dom_le [OF IH(2)] by auto
    moreover have "files \<subseteq>\<^sub>m fst ?acc'" using le IH(2) by (rule map_le_trans)
    ultimately show ?thesis using None IH(1,3) by (simp add: Let_def)
  next
    case (Some g)
    have "files (GetName f) \<noteq> None" "\<forall>f \<in> set fds. good_file U r f"
      using Some "2.prems"(2) by simp_all
    from "2.IH"(2) [OF refl this(1) "2.prems"(1) this(2)]
    have IH: "gathered pre U r (add_service_files pre fds (files, names))"
      "files \<subseteq>\<^sub>m fst (add_service_files pre fds (files, names))"
      "GetName ` set fds \<subseteq> dom (fst (add_service_files pre fds (files, names)))"
      by (simp_all only: fst_conv)
    have "GetName f \<in> dom (fst (add_service_files pre fds (files, names)))"
      using map_le_implies_dom_le [OF IH(2)] Some by auto
    with Some IH show ?thesis by (simp add: Let_def)
  qed
qed simp

lemma collect_services_gathers:
  assumes ans: "answers cl srv"
  shows "gathered pre U r acc \<Longrightarrow>
    \<forall>s \<in> set services. decoded cl (srv (FileContainingSymbol s)) (resp s) \<and> (\<forall>f \<in> set (resp s). good_file U r f) \<Longrightarrow>
    \<exists>acc' w'. collect_services cl addr pre services acc w = Some (Ok acc', w') \<and>
      gathered pre U r acc' \<and> fst acc \<subseteq>\<^sub>m fst acc' \<and>
      (\<forall>s \<in> set services. GetName ` set (resp s) \<subseteq> dom (fst acc'))"
proof (induction services arbitrary: acc w)
  case Nil
  then show ?case by (simp add: io_return_def)
next
  case (Cons s services)
  let ?acc1 = "add_service_files pre (resp s) acc"
  obtain w1 where w1: "getFileDescriptorBySymbol cl addr s w = Some (Ok (resp s), w1)"
    using by_symbol_decoded [OF ans] Cons.prems(2) by fastforce
  have 1: "gathered pre U r ?acc1" "fst acc \<subseteq>\<^sub>m fst ?acc1" "GetName ` set (resp s) \<subseteq> dom (fst ?acc1)"
    using add_service_files_gathers [OF Cons.prems(1)] Cons.prems(2) by auto
  have "\<forall>s \<in> set services. decoded cl (srv (FileContainingSymbol s)) (resp s) \<and>
      (\<forall>f \<in> set (resp s). good_file U r f)" using Cons.prems(2) by simp
  from Cons.IH [OF 1(1) this] obtain acc' w' where 2:
    "collect_services cl addr pre services ?acc1 w1 = Some (Ok acc', w')"
    "gathered pre U r acc'" "fst ?acc1 \<subseteq>\<^sub>m fst acc'"
    "\<forall>s \<in> set services. GetName ` set (resp s) \<subseteq> dom (fst acc')"
    by blast
  have "fst acc \<subseteq>\<^sub>m fst acc'" using 1(2) 2(3) by (rule map_le_trans)
  moreover have "GetName ` set (resp s) \<subseteq> dom (fst acc')"
    using 1(3) map_le_implies_dom_le [OF 2(3)] by blast
  ultimately show ?case using 2 w1 by (simp add: io_bind_def)
qed

text \<open>When the imports have been added too, every import of every file is in the map.\<close>

lemma completed_closed:
  assumes "completes files files'" "(\<Union>n \<in> set names. set (dependencies_of files n)) \<subseteq> dom files'"
    "dom files = set names" "files' n = Some f"
  shows "set (fd_dependency f) \<subseteq> dom files'"
proof (cases "files n")
  case None
  then show ?thesis using assms(4) by (rule completesD(2) [OF assms(1)])
next
  case (Some g)
  then have "files' n = Some g" by (rule map_leD [OF completesD(1) [OF assms(1)]])
  then have "g = f" using assms(4) by simp
  have "n \<in> set names" using Some assms(3) by auto
  then have "set (dependencies_of files n) \<subseteq> dom files'" using assms(2) by blast
  with Some \<open>g = f\<close> show ?thesis by (simp add: dependencies_of_def)
qed

lemma good_files_ranked: "good_files U r files \<Longrightarrow> ranked r files"
  by (auto simp: ranked_def imports_rel_def good_files_def good_file_def)

lemma good_files_keyed: "good_files U r files \<Longrightarrow> keyed files"
  by (simp add: good_files_def keyed_def)

text \<open>Sorting a map in which every file has its imports.\<close>

lemma topoSort_closed:
  assumes "finite U" "good_files U r files" "card U < fuel"
    "\<forall>n f. files n = Some f \<longrightarrow> set (fd_dependency f) \<subseteq> dom files"
  obtains res rest where "topoSort fuel names files = Some (res, rest)"
    "imports_first UNIV res" "distinct (map GetName res)"
    "\<And>n f. n \<in> set names \<Longrightarrow> files n = Some f \<Longrightarrow> f \<in> set res"
proof -
  have fin: "finite (dom files)"
    using good_files_dom [OF assms(2)] assms(1) by (rule finite_subset)
  have "card (dom files) \<le> card U"
    using assms(1) good_files_dom [OF assms(2)] by (rule card_mono)
  then have fuel: "card (dom files) < fuel" using assms(3) by simp
  obtain res where res: "topoSort fuel names files = Some (res, files |` (- import_closure names files))"
      "set (map GetName res) = import_closure names files" "distinct (map GetName res)"
      "\<forall>f \<in> set res. files (GetName f) = Some f" "imports_first (dom files) res"
    using topoSort_acyclic [OF fin ranked_acyclic [OF good_files_ranked [OF assms(2)]]
        good_files_keyed [OF assms(2)], of names] fuel by blast
  have "set (fd_dependency f) \<subseteq> dom files" if "f \<in> set res" for f
    using that res(4) assms(4) by blast
  then have "imports_first UNIV res"
    using res(5) unfolding imports_first_def by (auto simp: Int_absorb2)
  moreover have "f \<in> set res" if "n \<in> set names" "files n = Some f" for n f
  proof -
    from that have "n \<in> import_closure names files" by (auto simp: import_closure_def)
    then have "n \<in> set (map GetName res)" unfolding res(2) .
    then obtain g where "g \<in> set res" "GetName g = n" by auto
    with res(4) that(2) show ?thesis by auto
  qed
  ultimately show thesis using that res(1,3) by blast
qed

text \<open>
  Everything before the sorting: the listed services, their files with rules, and in the end a map in
  which every file has its imports.
\<close>

lemma files_collected:
  assumes server: "serves_files cl srv services U r" and fuel: "card U < fuel"
  obtains resp files names files' w1 w2 w3 where
    "\<forall>s \<in> set services. decoded cl (srv (FileContainingSymbol s)) (resp s)"
    "getServices cl addr w = Some (Ok services, w1)"
    "collect_services cl addr pre services (Map.empty, []) w1 = Some (Ok (files, names), w2)"
    "gathered pre U r (files, names)" "\<forall>s \<in> set services. GetName ` set (resp s) \<subseteq> dom files"
    "all_dependencies fuel cl addr names files w2 = Some (Ok files', w3)"
    "good_files U r files'" "completes files files'"
    "\<forall>n f. files' n = Some f \<longrightarrow> set (fd_dependency f) \<subseteq> dom files'"
proof -
  have fin: "finite U" and ans: "answers cl srv"
    and list: "srv ListServices = ListServicesResponse services"
    and by_sym: "\<forall>s \<in> set services. \<exists>fds. decoded cl (srv (FileContainingSymbol s)) fds \<and>
        (\<forall>f \<in> set fds. good_file U r f)"
    and by_name: "\<forall>d \<in> U. \<exists>fds. decoded cl (srv (FileByFilename d)) fds \<and> d \<in> GetName ` set fds \<and>
        (\<forall>f \<in> set fds. good_file U r f)"
    using server unfolding serves_files_def by blast+
  obtain resp where resp: "\<forall>s \<in> set services. decoded cl (srv (FileContainingSymbol s)) (resp s) \<and>
      (\<forall>f \<in> set (resp s). good_file U r f)"
    using bchoice [OF by_sym] by blast
  obtain w1 where 1: "getServices cl addr w = Some (Ok services, w1)"
    using getServices_lists [OF ans list] by blast
  have "gathered pre U r (Map.empty, [])" by (simp add: gathered_def good_files_def)
  from collect_services_gathers [OF ans this resp, of addr w1] obtain files names w2 where 2:
    "collect_services cl addr pre services (Map.empty, []) w1 = Some (Ok (files, names), w2)"
    "gathered pre U r (files, names)"
    "\<forall>s \<in> set services. GetName ` set (resp s) \<subseteq> dom files" by auto
  have good: "good_files U r files" and dom: "dom files = set names"
    using 2(2) by (simp_all add: gathered_def)
  have "card (U - dom files) < fuel" using fuel fin by (meson Diff_subset card_mono le_less_trans)
  from all_dependencies_extends [OF fin ans by_name good this] obtain files' w3 where 3:
    "all_dependencies fuel cl addr names files w2 = Some (Ok files', w3)"
    "good_files U r files'" "completes files files'"
    "(\<Union>n \<in> set names. set (dependencies_of files n)) \<subseteq> dom files'"
    by (rule extends_toE)
  show thesis
    by (rule that [OF _ 1 2 3(1-3)]) (use resp completed_closed [OF 3(3,4) dom] in blast)+
qed

text \<open>
  C3. The descriptor set: against a server that answers and whose files have a finite universe
  without import cycles, \<open>getFileDescriptorSet\<close> returns the listed services and a set of files in
  which every import of every file is present and comes first, no file occurs twice, and every
  file of every listed service is there with an HTTP rule on each of its methods. Fuel of one
  more than the size of the universe is enough.
\<close>

theorem getFileDescriptorSet_correct:
  assumes server: "serves_files cl srv services U r" and fuel: "card U < fuel"
  shows "\<exists>fds w'. getFileDescriptorSet fuel cl addr pre w = Some (Ok (fds, services), w') \<and>
    imports_first UNIV fds \<and> distinct (map GetName fds) \<and>
    (\<forall>s \<in> set services. \<forall>sfds. decoded cl (srv (FileContainingSymbol s)) sfds \<longrightarrow>
       (\<forall>f \<in> set sfds. \<exists>g \<in> set fds. GetName g = GetName f \<and>
          (\<forall>(svc, m) \<in> set (methods_of g). has_http m)))"
proof -
  obtain resp files names files' w1 w2 w3 where c:
    "\<forall>s \<in> set services. decoded cl (srv (FileContainingSymbol s)) (resp s)"
    "getServices cl addr w = Some (Ok services, w1)"
    "collect_services cl addr pre services (Map.empty, []) w1 = Some (Ok (files, names), w2)"
    "gathered pre U r (files, names)" "\<forall>s \<in> set services. GetName ` set (resp s) \<subseteq> dom files"
    "all_dependencies fuel cl addr names files w2 = Some (Ok files', w3)"
    "good_files U r files'" "completes files files'"
    "\<forall>n f. files' n = Some f \<longrightarrow> set (fd_dependency f) \<subseteq> dom files'"
    using server fuel by (rule files_collected [where addr = addr and w = w and pre = pre])
  have fin: "finite U" using server by (simp add: serves_files_def)
  from topoSort_closed [where names = names, OF fin c(7) fuel c(9)]
  obtain fds rest where t: "topoSort fuel names files' = Some (fds, rest)"
    "imports_first UNIV fds" "distinct (map GetName fds)"
    "\<And>n f. n \<in> set names \<Longrightarrow> files' n = Some f \<Longrightarrow> f \<in> set fds"
    by blast
  have "\<exists>g \<in> set fds. GetName g = GetName f \<and> (\<forall>(svc, m) \<in> set (methods_of g). has_http m)"
    if s: "s \<in> set services" and sfds: "decoded cl (srv (FileContainingSymbol s)) sfds"
      and f: "f \<in> set sfds" for s sfds f
  proof -
    have "sfds = resp s" using sfds c(1) s unfolding decoded_def by (auto simp: inj_map_eq_map)
    with f s c(5) obtain g where g: "files (GetName f) = Some g" by blast
    then have "files' (GetName f) = Some g" by (rule map_leD [OF completesD(1) [OF c(8)]])
    moreover have "GetName f \<in> set names" using g c(4) by (auto simp: gathered_def)
    ultimately have "g \<in> set fds" by (rule t(4) [rotated])
    moreover have "GetName g = GetName f" using c(4) g by (simp add: gathered_def good_files_def)
    moreover obtain h where "g = AnnotateHTTPRule h pre" using c(4) g by (auto simp: gathered_def ran_def)
    then have "\<forall>(svc, m) \<in> set (methods_of g). has_http m" by (auto simp: methods_of_annotate)
    ultimately show ?thesis by blast
  qed
  moreover have "getFileDescriptorSet fuel cl addr pre w = Some (Ok (fds, services), w3)"
    by (simp add: getFileDescriptorSet_def io_bind_def io_return_def c(2,3,6) t(1))
  ultimately show ?thesis using t(2,3) by blast
qed

text \<open>
  The instance: a server over a queue of pending messages with one service, whose file \<open>b\<close>
  imports file \<open>a\<close>.
\<close>

definition file_a :: file_desc where
  "file_a = \<lparr>fd_name = Some ''a'', fd_package = None, fd_dependency = [], fd_services = [], fd_rest = []\<rparr>"

definition file_b :: file_desc where
  "file_b =
     \<lparr>fd_name = Some ''b'', fd_package = Some ''p'', fd_dependency = [''a''],
      fd_services = [\<lparr>sd_name = Some ''S'', sd_methods = [\<lparr>md_name = Some ''M'', md_options = None\<rparr>]\<rparr>],
      fd_rest = []\<rparr>"

fun sample_srv :: "refl_msg \<Rightarrow> refl_resp" where
  "sample_srv ListServices = ListServicesResponse [''p.S'']"
| "sample_srv (FileContainingSymbol s) = FileDescriptorResponse [[1]]"
| "sample_srv (FileByFilename d) = FileDescriptorResponse [if d = ''a'' then [0] else [1]]"

definition sample_client :: "(refl_msg list \<times> bool, unit) refl_client" where
  "sample_client =
     \<lparr>ServerReflectionInfo = (\<lambda>w. (Inr (), ([], False))),
      Send = (\<lambda>_ req (qs, c). (None, (qs @ [rq_msg req], c))),
      Recv = (\<lambda>_ (qs, c). case qs of [] \<Rightarrow> (Inl (ExtError ''EOF''), (qs, c))
                                    | q # qs' \<Rightarrow> (Inr (sample_srv q), (qs', c))),
      CloseSend = (\<lambda>_ (qs, c). (qs, True)),
      Unmarshal = (\<lambda>b. Inr (if b = [0] then file_a else file_b))\<rparr>"

lemma sample_client_serves: "stream_serves sample_client sample_srv (\<lambda>_ w. w)"
  by (auto simp: stream_serves_def sample_client_def)

lemma sample_serves_files:
  "serves_files sample_client sample_srv [''p.S''] {''a'', ''b''} (\<lambda>n. if n = ''b'' then 1 else 0)"
proof -
  have by_sym: "\<exists>fds. decoded sample_client (sample_srv (FileContainingSymbol s)) fds \<and>
      (\<forall>f \<in> set fds. good_file {''a'', ''b''} (\<lambda>n. if n = ''b'' then 1 else 0) f)" for s
    by (intro exI [of _ "[file_b]"]) (simp add: decoded_def sample_client_def file_b_def good_file_def)
  have by_name: "\<exists>fds. decoded sample_client (sample_srv (FileByFilename d)) fds \<and> d \<in> GetName ` set fds \<and>
      (\<forall>f \<in> set fds. good_file {''a'', ''b''} (\<lambda>n. if n = ''b'' then 1 else 0) f)"
    if "d = ''a'' \<or> d = ''b''" for d
    using that
    by (intro exI [of _ "[if d = ''a'' then file_a else file_b]"])
      (auto simp: decoded_def sample_client_def file_a_def file_b_def good_file_def)
  show ?thesis
    unfolding serves_files_def using stream_serves_answers [OF sample_client_serves] by_sym by_name
    by simp
qed

theorem getFileDescriptorSet_correct_witness:
  "\<exists>fds w'. getFileDescriptorSet 3 sample_client ''localhost'' ''/api'' ([], False) =
      Some (Ok (fds, [''p.S'']), w') \<and>
    imports_first UNIV fds \<and> distinct (map GetName fds) \<and>
    (\<forall>s \<in> set [''p.S'']. \<forall>sfds. decoded sample_client (sample_srv (FileContainingSymbol s)) sfds \<longrightarrow>
       (\<forall>f \<in> set sfds. \<exists>g \<in> set fds. GetName g = GetName f \<and>
          (\<forall>(svc, m) \<in> set (methods_of g). has_http m)))"
  by (rule getFileDescriptorSet_correct [OF sample_serves_files]) simp

section \<open>What a query leaves alone\<close>

text \<open>An observation of the world that none of the stream's calls changes.\<close>

definition client_keeps :: "('w \<Rightarrow> 'x) \<Rightarrow> ('w, 's) refl_client \<Rightarrow> bool" where
  "client_keeps f cl \<longleftrightarrow>
     (\<forall>w. f (snd (ServerReflectionInfo cl w)) = f w) \<and> (\<forall>s req w. f (snd (Send cl s req w)) = f w) \<and>
     (\<forall>s w. f (snd (Recv cl s w)) = f w) \<and> (\<forall>s w. f (CloseSend cl s w) = f w)"

lemma client_keepsD:
  assumes "client_keeps f cl"
  shows "f (snd (ServerReflectionInfo cl w)) = f w" "f (snd (Send cl s req w)) = f w"
    "f (snd (Recv cl s w)) = f w" "f (CloseSend cl s w) = f w"
  using assms by (simp_all add: client_keeps_def)

lemma drain_keeps:
  assumes "client_keeps f cl" "drain cl s w = Some w'"
  shows "f w' = f w"
proof -
  have "client_keeps f cl \<longrightarrow> f w' = f w"
  proof (rule drain.raw_induct [OF _ assms(2), where P = "\<lambda>cl s w w'. client_keeps f cl \<longrightarrow> f w' = f w"], goal_cases)
    case (1 drain' cl s w w')
    show ?case
    proof
      assume k: "client_keeps f cl"
      obtain r v where r: "Recv cl s w = (r, v)" by (cases "Recv cl s w")
      then have v: "f v = f w" using client_keepsD(3) [OF k, of s w] by simp
      show "f w' = f w"
        using 1 r k v by (cases r) auto
    qed
  qed
  then show ?thesis using assms(1) by blast
qed

lemma closeAndDrain_keeps:
  assumes "client_keeps f cl" "closeAndDrain cl s w = Some w'"
  shows "f w' = f w"
  using drain_keeps [OF assms(1) assms(2) [unfolded closeAndDrain_def]] client_keepsD(4) [OF assms(1)]
  by (rule trans)

lemma doRefl_keeps [io_frames]: "client_keeps f cl \<Longrightarrow> io_keeps f (doRefl cl req)"
  unfolding doRefl_def by (intro io_frames) (simp_all add: client_keepsD(1-3), erule closeAndDrain_keeps)

lemma decode_files_keeps [io_frames]: "io_keeps f (decode_files cl bs)"
  by (induction bs) (auto intro!: io_frames split: sum.split)

lemma decodeResponse_keeps [io_frames]: "io_keeps f (decodeResponse cl resp)"
  by (auto simp: decodeResponse_def intro: io_frames split: refl_resp.split)

lemma requests_keep [io_frames]:
  assumes "client_keeps f cl"
  shows "io_keeps f (getFileDescriptorByFilename cl addr n)" "io_keeps f (getFileDescriptorBySymbol cl addr n)"
    "io_keeps f (getServices cl addr)"
  unfolding getFileDescriptorByFilename_def getFileDescriptorBySymbol_def getServices_def
  by (intro io_frames assms)+

lemma io_keeps_diverge [io_frames]: "io_keeps f io_diverge"
  by (simp add: io_keeps_def io_diverge_def)

lemma addDependencies_keeps:
  shows "client_keeps f cl \<Longrightarrow> io_keeps f (addDependencies n cl addr name files)"
    and "client_keeps f cl \<Longrightarrow> io_keeps f (dependency_loop n cl addr deps files)"
    and "client_keeps f cl \<Longrightarrow> io_keeps f (response_loop n cl addr fds files)"
  by (induction rule: addDependencies_dependency_loop_response_loop.induct) (auto intro!: io_frames)

lemma collect_services_keeps:
  "client_keeps f cl \<Longrightarrow> io_keeps f (collect_services cl addr pre services acc)"
proof (induction services arbitrary: acc)
  case Nil
  then show ?case by (simp add: io_frames)
next
  case (Cons service services)
  show ?case unfolding collect_services.simps by (intro io_frames Cons)
qed

lemma all_dependencies_keeps:
  "client_keeps f cl \<Longrightarrow> io_keeps f (all_dependencies fuel cl addr names files)"
  by (induction names arbitrary: files) (auto intro!: io_frames addDependencies_keeps(1))

lemma getFileDescriptorSet_keeps:
  assumes "client_keeps f cl"
  shows "io_keeps f (getFileDescriptorSet fuel cl addr pre)"
  unfolding getFileDescriptorSet_def
  by (auto intro!: io_frames collect_services_keeps all_dependencies_keeps assms split: option.split)

section \<open>Encoding the set\<close>

text \<open>
  Encoding: \<open>Base64Proto\<close> fails exactly when the message cannot be marshalled, with that cause.
  Otherwise its result is standard base64 that decodes to the marshalled bytes, four characters
  for every three bytes begun.
\<close>

theorem base64_proto_roundtrip:
  "(case Base64Proto Marshal msg of
      Inl err \<Rightarrow> \<exists>cause. Marshal msg = Inl cause \<and> err = WrapError ''cannot proto marshal message'' cause
    | Inr text \<Rightarrow> \<exists>bytes. Marshal msg = Inr bytes \<and> b64_decode text = Some bytes \<and>
        length text = 4 * ((length bytes + 2) div 3))"
  by (cases "Marshal msg") (simp_all add: Base64Proto_def b64_decode_encode length_b64_encode)

end
