(* ===== verification/ReflectionRetry.thy ===== *)
theory ReflectionRetry
  imports Reflection
begin

text \<open>
  \<open>GetFileDescriptorSet\<close> and its retry loop (pkg/transflect/transflect.go). The back-off
  counter of github.com/jpillora/backoff is a parameter: a record of its methods over a state
  \<open>'b\<close>. \<open>Attempt\<close> is the counter, a whole \<open>float64\<close> that the code converts to \<open>int\<close>. So are the
  clock, the \<open>LogAttempt\<close> hook and the dialer of the gRPC library.
\<close>

section \<open>The retry loop\<close>

record 'b backoff =
  newBackoff :: "int \<Rightarrow> int \<Rightarrow> 'b"
  Attempt :: "'b \<Rightarrow> int"
  Duration :: "'b \<Rightarrow> int \<times> 'b"
  Reset :: "'b \<Rightarrow> 'b"

record 'w hooks =
  LogAttempt :: "int \<Rightarrow> goerr \<Rightarrow> 'w \<Rightarrow> 'w"
  Sleep :: "int \<Rightarrow> 'w \<Rightarrow> 'w"

abbreviation seconds :: "int \<Rightarrow> int" where
  "seconds n \<equiv> n * 1000000000"

text \<open>\<open>codes.Unavailable\<close> of the gRPC library.\<close>

definition Unavailable :: nat where
  "Unavailable = 14"

text \<open>\<open>errors.As\<close> walks the chain of wrapped errors to the first one with a gRPC status.\<close>

fun getGRPCStatus :: "goerr \<Rightarrow> nat option" where
  "getGRPCStatus (StatusError code msg) = Some code"
| "getGRPCStatus (WrapError msg err) = getGRPCStatus err"
| "getGRPCStatus _ = None"

text \<open>The status code of an error that is not retried, \<open>ok && code != codes.Unavailable\<close>.\<close>

definition not_retryable :: "goerr \<Rightarrow> nat option" where
  "not_retryable err =
     (case getGRPCStatus err of
        None \<Rightarrow> None
      | Some code \<Rightarrow> if code \<noteq> Unavailable then Some code else None)"

definition not_retryable_error :: "nat \<Rightarrow> goerr \<Rightarrow> goerr" where
  "not_retryable_error code err =
     WrapError (''gRPC error '' @ show_nat code @ '' code not retryable'') err"

partial_function (option) retry_loop ::
    "'b backoff \<Rightarrow> 'w hooks \<Rightarrow> ('w, 'r) io \<Rightarrow> 'b \<Rightarrow> 'w \<Rightarrow> ('r outcome \<times> 'w) option" where
  "retry_loop bo h query b w =
     (case query w of
        None \<Rightarrow> None
      | Some (Ok r, w1) \<Rightarrow> Some (Ok r, w1)
      | Some (Panic p, w1) \<Rightarrow> Some (Panic p, w1)
      | Some (Fail err, w1) \<Rightarrow>
          (case not_retryable err of
             Some code \<Rightarrow> Some (Fail (not_retryable_error code err), w1)
           | None \<Rightarrow>
               let attempt = Attempt bo b; w2 = LogAttempt h attempt err w1 in
               if attempt > 15 then Some (Fail (WrapError ''too many retries'' err), w2)
               else let d = Duration bo b in retry_loop bo h query (snd d) (Sleep h (fst d) w2)))"

definition getFileDescriptorSetWithRetry ::
    "nat \<Rightarrow> 'b backoff \<Rightarrow> 'w hooks \<Rightarrow> ('w, 's) refl_client \<Rightarrow> string \<Rightarrow> string \<Rightarrow>
     ('w, file_desc list \<times> string list) io" where
  "getFileDescriptorSetWithRetry fuel bo h cl addr httpPathPrefix =
     retry_loop bo h (getFileDescriptorSet fuel cl addr httpPathPrefix)
       (newBackoff bo (seconds 2) (seconds 30))"

section \<open>Dialing\<close>

datatype dial_opt = WithInsecure | WithAuthority string

record ('w, 'c, 's) dialer =
  DialContext :: "string \<Rightarrow> dial_opt list \<Rightarrow> 'w \<Rightarrow> (goerr + 'c) \<times> 'w"
  CloseConn :: "'c \<Rightarrow> 'w \<Rightarrow> 'w"
  NewServerReflectionClient :: "'c \<Rightarrow> ('w, 's) refl_client"

definition GetFileDescriptorSet ::
    "nat \<Rightarrow> 'b backoff \<Rightarrow> 'w hooks \<Rightarrow> ('w, 'c, 's) dialer \<Rightarrow> string \<Rightarrow> string \<Rightarrow> dial_opt list \<Rightarrow>
     ('w, file_desc list \<times> string list) io" where
  "GetFileDescriptorSet fuel bo h net addr httpPathPrefix opts =
     io_bind (io_wrap ''cannot grpc dial'' (io_call (DialContext net addr opts)))
       (\<lambda>conn. io_defer (\<lambda>w. Some (CloseConn net conn w))
          (getFileDescriptorSetWithRetry fuel bo h (NewServerReflectionClient net conn) addr
             httpPathPrefix))"

section \<open>The loop has seventeen rounds\<close>

text \<open>
  What the code relies on of the counter: it starts at zero, \<open>Duration\<close> counts one up, and
  \<open>Reset\<close> sets it back to zero.
\<close>

definition backoff_ok :: "'b backoff \<Rightarrow> bool" where
  "backoff_ok bo \<longleftrightarrow> (\<forall>mn mx. Attempt bo (newBackoff bo mn mx) = 0) \<and>
     (\<forall>b. Attempt bo (snd (Duration bo b)) = Attempt bo b + 1) \<and>
     (\<forall>b. Attempt bo (Reset bo b) = 0)"

lemma backoff_okD:
  assumes "backoff_ok bo"
  shows "Attempt bo (newBackoff bo mn mx) = 0" "Attempt bo (snd (Duration bo b)) = Attempt bo b + 1"
    "Attempt bo (Reset bo b) = 0"
  using assms by (simp_all add: backoff_ok_def)

text \<open>The reference: rounds counted down, the last one without a wait.\<close>

fun bounded_retry :: "nat \<Rightarrow> 'b backoff \<Rightarrow> 'w hooks \<Rightarrow> ('w, 'r) io \<Rightarrow> 'b \<Rightarrow> ('w, 'r) io" where
  "bounded_retry m bo h query b w =
     (case query w of
        Some (Fail err, w1) \<Rightarrow>
          (case not_retryable err of
             Some code \<Rightarrow> Some (Fail (not_retryable_error code err), w1)
           | None \<Rightarrow> let w2 = LogAttempt h (16 - int m) err w1 in
             (case m of
                0 \<Rightarrow> Some (Fail (WrapError ''too many retries'' err), w2)
              | Suc m' \<Rightarrow> let d = Duration bo b in
                  bounded_retry m' bo h query (snd d) (Sleep h (fst d) w2)))
      | res \<Rightarrow> res)"

declare bounded_retry.simps [simp del]

lemma retry_loop_bounded:
  assumes "backoff_ok bo"
  shows "Attempt bo b = 16 - int m \<Longrightarrow> retry_loop bo h query b w = bounded_retry m bo h query b w"
proof (induction m arbitrary: b w)
  case 0
  then show ?case
    by (simp add: retry_loop.simps bounded_retry.simps Let_def split: option.split prod.split outcome.split)
next
  case (Suc m)
  have nx: "Attempt bo (snd (Duration bo b)) = 16 - int m"
    using backoff_okD(2) [OF assms] Suc.prems by simp
  have go: "\<not> Attempt bo b > 15" using Suc.prems by simp
  have step: "retry_loop bo h query (snd (Duration bo b)) w' =
      bounded_retry m bo h query (snd (Duration bo b)) w'" for w'
    using nx by (rule Suc.IH)
  show ?case
    using go step unfolding retry_loop.simps [of bo h query b w] bounded_retry.simps [of "Suc m" bo h query b w]
    by (simp add: Let_def Suc.prems split: option.split prod.split outcome.split)
qed

lemma bounded_retry_returns:
  assumes "\<And>w. query w \<noteq> None"
  shows "bounded_retry m bo h query b w \<noteq> None"
proof (induction m arbitrary: b w)
  case 0
  show ?case using assms [of w]
    by (simp add: bounded_retry.simps [of 0] Let_def split: option.split prod.split outcome.split)
next
  case (Suc m)
  show ?case using assms [of w] Suc
    by (simp add: bounded_retry.simps [of "Suc m"] Let_def split: option.split prod.split outcome.split)
qed

lemma getFileDescriptorSetWithRetry_bounded:
  assumes "backoff_ok bo"
  shows "getFileDescriptorSetWithRetry fuel bo h cl addr pre w =
      bounded_retry 16 bo h (getFileDescriptorSet fuel cl addr pre)
        (newBackoff bo (seconds 2) (seconds 30)) w"
proof -
  have "Attempt bo (newBackoff bo (seconds 2) (seconds 30)) = 16 - int 16"
    using backoff_okD(1) [OF assms] by simp
  then show ?thesis
    unfolding getFileDescriptorSetWithRetry_def by (rule retry_loop_bounded [OF assms])
qed

text \<open>
  C25. Retry: with a counter that counts, \<open>getFileDescriptorSetWithRetry\<close> is the bounded loop of
  one first query and sixteen repetitions, which stops at the first result, at a panic, or at an
  error with a gRPC status other than \<open>Unavailable\<close>; so it returns whenever every query returns.
\<close>

theorem retry_bounded:
  assumes "backoff_ok bo"
  shows "getFileDescriptorSetWithRetry fuel bo h cl addr pre w =
      bounded_retry 16 bo h (getFileDescriptorSet fuel cl addr pre)
        (newBackoff bo (seconds 2) (seconds 30)) w
    \<and> ((\<exists>w'. getFileDescriptorSet fuel cl addr pre w' = None) \<or>
        (\<exists>res. getFileDescriptorSetWithRetry fuel bo h cl addr pre w = Some res))"
  using getFileDescriptorSetWithRetry_bounded [OF assms] bounded_retry_returns by (metis option.exhaust)

text \<open>A counter as the library documents it, that waits a second longer each time.\<close>

definition counting_backoff :: "nat backoff" where
  "counting_backoff =
     \<lparr>newBackoff = (\<lambda>mn mx. 0), Attempt = int, Duration = (\<lambda>n. (seconds (int n), Suc n)),
      Reset = (\<lambda>_. 0)\<rparr>"

definition silent_hooks :: "'w hooks" where
  "silent_hooks = \<lparr>LogAttempt = (\<lambda>_ _ w. w), Sleep = (\<lambda>_ w. w)\<rparr>"

lemma counting_backoff_ok: "backoff_ok counting_backoff"
  by (simp add: backoff_ok_def counting_backoff_def)

lemma bounded_retry_count:
  assumes query: "\<And>w r w'. query w = Some (r, w') \<Longrightarrow> count w' = Suc (count w)"
    and hooks: "\<And>n e w. count (LogAttempt h n e w) = count w" "\<And>d w. count (Sleep h d w) = count w"
  shows "bounded_retry m bo h query b w = Some (r, w') \<Longrightarrow>
    count w < count w' \<and> count w' \<le> count w + Suc m \<and>
    (\<forall>err. r = Fail (WrapError ''too many retries'' err) \<longrightarrow> count w' = count w + Suc m)"
proof (induction m arbitrary: b w)
  case 0
  then show ?case
    by (subst (asm) bounded_retry.simps)
      (auto simp: Let_def hooks not_retryable_error_def dest!: query
        split: option.splits prod.splits outcome.splits if_splits)
next
  case (Suc m)
  show ?case
  proof (cases "query w")
    case None
    with Suc.prems show ?thesis by (subst (asm) bounded_retry.simps) simp
  next
    case (Some rw)
    then obtain r1 w1 where q: "query w = Some (r1, w1)" by (cases rw) auto
    note c = query [OF q]
    show ?thesis
    proof (cases "\<exists>err. r1 = Fail err \<and> not_retryable err = None")
      case False
      with Suc.prems q c show ?thesis
        by (subst (asm) bounded_retry.simps) (auto simp: not_retryable_error_def split: outcome.splits option.splits)
    next
      case True
      then obtain err where err: "r1 = Fail err" "not_retryable err = None" by blast
      define w2 where "w2 = Sleep h (fst (Duration bo b)) (LogAttempt h (16 - int (Suc m)) err w1)"
      have "bounded_retry m bo h query (snd (Duration bo b)) w2 = Some (r, w')"
        using Suc.prems q err by (subst (asm) bounded_retry.simps) (simp add: Let_def w2_def)
      from Suc.IH [OF this] have "count w2 < count w'" "count w' \<le> count w2 + Suc m"
        "\<forall>err. r = Fail (WrapError ''too many retries'' err) \<longrightarrow> count w' = count w2 + Suc m" by auto
      moreover have "count w2 = Suc (count w)" by (simp add: w2_def hooks c)
      ultimately show ?thesis by auto
    qed
  qed
qed

text \<open>
  Number of queries: over a state that counts them, the retry loop makes at least one query
  and at most seventeen, and it has made all seventeen when it gives up.
\<close>

theorem retry_query_count:
  assumes "backoff_ok bo"
    and "\<And>w r w'. getFileDescriptorSet fuel cl addr pre w = Some (r, w') \<Longrightarrow> count w' = Suc (count w)"
    and "\<And>n e w. count (LogAttempt h n e w) = count w" and "\<And>d w. count (Sleep h d w) = count w"
    and "getFileDescriptorSetWithRetry fuel bo h cl addr pre w = Some (r, w')"
  shows "count w < count w' \<and> count w' \<le> count w + 17 \<and>
    (\<forall>err. r = Fail (WrapError ''too many retries'' err) \<longrightarrow> count w' = count w + 17)"
proof -
  have "bounded_retry 16 bo h (getFileDescriptorSet fuel cl addr pre)
      (newBackoff bo (seconds 2) (seconds 30)) w = Some (r, w')"
    using getFileDescriptorSetWithRetry_bounded [OF assms(1), symmetric] assms(5) by (rule trans)
  from bounded_retry_count [OF assms(2,3,4) this] show ?thesis by simp
qed

text \<open>A server that nobody reaches; the state counts the calls.\<close>

definition unreachable_client :: "(nat, unit) refl_client" where
  "unreachable_client =
     \<lparr>ServerReflectionInfo = (\<lambda>n. (Inl (StatusError Unavailable ''connection refused''), Suc n)),
      Send = (\<lambda>_ _ n. (None, n)), Recv = (\<lambda>_ n. (Inl (ExtError ''EOF''), n)), CloseSend = (\<lambda>_ n. n),
      Unmarshal = (\<lambda>_. Inl (ExtError ''no file''))\<rparr>"

lemma unreachable_query:
  "getFileDescriptorSet fuel unreachable_client addr pre n =
     Some (Fail (WrapError ''cannot setup reflection stream'' (StatusError Unavailable ''connection refused'')),
       Suc n)"
  by (simp add: getFileDescriptorSet_def getServices_def doRefl_def unreachable_client_def
      io_bind_def io_wrap_def io_call_def)

lemma unreachable_returns:
  "getFileDescriptorSetWithRetry fuel counting_backoff silent_hooks unreachable_client [] [] n \<noteq> None"
  unfolding getFileDescriptorSetWithRetry_bounded [OF counting_backoff_ok]
  by (rule bounded_retry_returns) (simp add: unreachable_query)

theorem retry_bounded_witness:
  "getFileDescriptorSetWithRetry 3 counting_backoff silent_hooks unreachable_client [] [] 0 =
      bounded_retry 16 counting_backoff silent_hooks (getFileDescriptorSet 3 unreachable_client [] [])
        (newBackoff counting_backoff (seconds 2) (seconds 30)) 0
    \<and> (\<exists>res. getFileDescriptorSetWithRetry 3 counting_backoff silent_hooks unreachable_client [] [] 0 =
        Some res)"
proof -
  have "getFileDescriptorSet 3 unreachable_client [] [] w' \<noteq> None" for w'
    by (simp add: unreachable_query)
  then show ?thesis
    using retry_bounded [OF counting_backoff_ok, of 3 silent_hooks unreachable_client "[]" "[]" 0]
    by blast
qed

theorem retry_query_count_witness:
  "\<exists>r n. getFileDescriptorSetWithRetry 3 counting_backoff silent_hooks unreachable_client [] [] 0 =
     Some (r, n) \<and> 0 < n \<and> n \<le> 17"
proof -
  obtain r n where res: "getFileDescriptorSetWithRetry 3 counting_backoff silent_hooks
      unreachable_client [] [] 0 = Some (r, n)"
    using unreachable_returns [of 3 0] by fastforce
  have "id 0 < id n \<and> id n \<le> id 0 + 17 \<and>
      (\<forall>err. r = Fail (WrapError ''too many retries'' err) \<longrightarrow> id n = id 0 + 17)"
    by (rule retry_query_count [OF counting_backoff_ok _ _ _ res])
      (simp_all add: unreachable_query silent_hooks_def)
  then show ?thesis using res by simp
qed

section \<open>A response of another kind\<close>

lemma retry_panics:
  "query w = Some (Panic p, w') \<Longrightarrow> retry_loop bo h query b w = Some (Panic p, w')"
  by (simp add: retry_loop.simps)

lemma by_symbol_panics:
  assumes "answers cl srv" and "\<And>bs. srv (FileContainingSymbol s) \<noteq> FileDescriptorResponse bs"
  shows "\<exists>w'. getFileDescriptorBySymbol cl addr s w =
    Some (Panic ''invalid memory address or nil pointer dereference'', w')"
proof -
  obtain w' where "doRefl cl \<lparr>rq_host = addr, rq_msg = FileContainingSymbol s\<rparr> w =
      Some (Ok (srv (FileContainingSymbol s)), w')"
    using assms(1) unfolding answers_def by (metis refl_req.select_convs(2))
  moreover have "decodeResponse cl (srv (FileContainingSymbol s)) w' =
      Some (Panic ''invalid memory address or nil pointer dereference'', w')"
    using assms(2)
    by (cases "srv (FileContainingSymbol s)") (auto simp: decodeResponse_def io_panic_def)
  ultimately show ?thesis by (simp add: getFileDescriptorBySymbol_def io_bind_def)
qed

text \<open>
  C32. An error response is a crash: when the server answers the lookup of the first listed
  service with anything but a file descriptor response, as the reflection protocol lets it do
  for a symbol it does not find, \<open>getFileDescriptorSetWithRetry\<close> ends in a nil dereference: it
  returns no error and does not retry.
\<close>

theorem error_response_panics:
  assumes "answers cl srv" and "srv ListServices = ListServicesResponse (s # services)"
    and "\<And>bs. srv (FileContainingSymbol s) \<noteq> FileDescriptorResponse bs"
  shows "\<exists>w'. getFileDescriptorSetWithRetry fuel bo h cl addr pre w =
    Some (Panic ''invalid memory address or nil pointer dereference'', w')"
proof -
  obtain w1 where "getServices cl addr w = Some (Ok (s # services), w1)"
    using getServices_lists [OF assms(1,2)] by blast
  moreover obtain w2 where "getFileDescriptorBySymbol cl addr s w1 =
      Some (Panic ''invalid memory address or nil pointer dereference'', w2)"
    using by_symbol_panics [OF assms(1,3)] by blast
  ultimately have "getFileDescriptorSet fuel cl addr pre w =
      Some (Panic ''invalid memory address or nil pointer dereference'', w2)"
    by (simp add: getFileDescriptorSet_def io_bind_def)
  then show ?thesis unfolding getFileDescriptorSetWithRetry_def by (blast intro: retry_panics)
qed

text \<open>A server that lists a service it has no descriptor of.\<close>

definition forgetful_srv :: "refl_msg \<Rightarrow> refl_resp" where
  "forgetful_srv q =
     (case q of ListServices \<Rightarrow> ListServicesResponse [''p.S''] | _ \<Rightarrow> ErrorResponse 5 ''not found'')"

definition forgetful_client :: "(refl_msg list \<times> bool, unit) refl_client" where
  "forgetful_client = sample_client\<lparr>Recv := (\<lambda>_ (qs, c).
     case qs of [] \<Rightarrow> (Inl (ExtError ''EOF''), (qs, c))
              | q # qs' \<Rightarrow> (Inr (forgetful_srv q), (qs', c)))\<rparr>"

lemma forgetful_client_answers: "answers forgetful_client forgetful_srv"
  by (rule stream_serves_answers [where pending = "\<lambda>_ w. w"])
    (auto simp: stream_serves_def forgetful_client_def sample_client_def)

theorem error_response_panics_witness:
  "\<exists>w'. getFileDescriptorSetWithRetry 3 counting_backoff silent_hooks forgetful_client ''localhost'' []
      ([], False) = Some (Panic ''invalid memory address or nil pointer dereference'', w')"
  by (rule error_response_panics [OF forgetful_client_answers, of "''p.S''" "[]"])
    (simp_all add: forgetful_srv_def)

section \<open>The connection\<close>

definition hooks_keep :: "('w \<Rightarrow> 'x) \<Rightarrow> 'w hooks \<Rightarrow> bool" where
  "hooks_keep f h \<longleftrightarrow> (\<forall>n e w. f (LogAttempt h n e w) = f w) \<and> (\<forall>d w. f (Sleep h d w) = f w)"

lemma retry_loop_keeps:
  assumes "io_keeps f query" "hooks_keep f h"
  shows "io_keeps f (retry_loop bo h query b)"
  unfolding io_keeps_def
proof (intro allI impI)
  fix w r w'
  assume run: "retry_loop bo h query b w = Some (r, w')"
  have "io_keeps f query \<and> hooks_keep f h \<longrightarrow> f (snd (r, w')) = f w"
  proof (rule retry_loop.raw_induct [OF _ run, where
        P = "\<lambda>bo h query b w y. io_keeps f query \<and> hooks_keep f h \<longrightarrow> f (snd y) = f w"], goal_cases)
    case (1 loop bo h query b w y)
    show ?case
    proof
      assume k: "io_keeps f query \<and> hooks_keep f h"
      note q = io_keepsD [OF k [THEN conjunct1]]
      have "f (LogAttempt h n e v) = f v" "f (Sleep h d v) = f v" for n e d v
        using k by (simp_all add: hooks_keep_def)
      then show "f (snd y) = f w"
        using 1 q k by (auto simp: Let_def split: option.splits prod.splits outcome.splits if_splits)
    qed
  qed
  then show "f w' = f w" using assms by simp
qed

text \<open>
  C26. No connection is leaked: where dialing adds the new connection to those that are open, closing
  removes it, and the calls on the connection's stream and the hooks leave the set alone,
  \<open>GetFileDescriptorSet\<close> ends with the connections it started with, whether it returns a result,
  an error of the dial or of the query, or panics.
\<close>

theorem no_connection_leak:
  assumes "\<And>conn. client_keeps conns (NewServerReflectionClient net conn)" and "hooks_keep conns h"
    and "\<And>w err w'. DialContext net addr opts w = (Inl err, w') \<Longrightarrow> conns w' = conns w"
    and "\<And>w conn w'. DialContext net addr opts w = (Inr conn, w') \<Longrightarrow>
      conn \<notin> conns w \<and> conns w' = insert conn (conns w)"
    and "\<And>conn w. conns (CloseConn net conn w) = conns w - {conn}"
    and "GetFileDescriptorSet fuel bo h net addr pre opts w = Some (r, w')"
  shows "conns w' = conns w"
proof (cases "DialContext net addr opts w")
  case dial: (Pair d w1)
  show ?thesis
  proof (cases d)
    case (Inl err)
    then have "w' = w1"
      using assms(6) dial by (simp add: GetFileDescriptorSet_def io_bind_def io_wrap_def io_call_def)
    then show ?thesis using assms(3) dial Inl by simp
  next
    case (Inr conn)
    let ?query = "getFileDescriptorSetWithRetry fuel bo h (NewServerReflectionClient net conn) addr pre"
    obtain q w2 where 2: "?query w1 = Some (q, w2)" "w' = CloseConn net conn w2"
      using assms(6) dial Inr
      by (auto simp: GetFileDescriptorSet_def io_bind_def io_wrap_def io_call_def io_defer_def split: option.splits)
    have "io_keeps conns ?query"
      unfolding getFileDescriptorSetWithRetry_def
      by (intro retry_loop_keeps getFileDescriptorSet_keeps assms(1,2))
    then have "conns w2 = conns w1" using 2(1) by (rule io_keepsD)
    then show ?thesis using assms(4,5) dial Inr 2(2) by simp
  qed
qed

text \<open>A dialer that numbers its connections, over a server that refuses every stream.\<close>

definition numbering_dialer :: "(nat \<times> nat set, nat, unit) dialer" where
  "numbering_dialer =
     \<lparr>DialContext = (\<lambda>_ _ (n, cs). (Inr n, (Suc n, insert n {c \<in> cs. c < n}))),
      CloseConn = (\<lambda>c (n, cs). (n, cs - {c})),
      NewServerReflectionClient = (\<lambda>_.
        \<lparr>ServerReflectionInfo = (\<lambda>w. (Inl (StatusError 12 ''unimplemented''), w)),
         Send = (\<lambda>_ _ w. (None, w)), Recv = (\<lambda>_ w. (Inl (ExtError ''EOF''), w)), CloseSend = (\<lambda>_ w. w),
         Unmarshal = (\<lambda>_. Inl (ExtError ''no file''))\<rparr>)\<rparr>"

definition numbered_conns :: "nat \<times> nat set \<Rightarrow> nat set" where
  "numbered_conns = (\<lambda>(n, cs). {c \<in> cs. c < n})"

theorem no_connection_leak_witness:
  "\<exists>r w'. GetFileDescriptorSet 3 counting_backoff silent_hooks numbering_dialer ''localhost'' [] [] (5, {1, 2}) =
      Some (r, w') \<and> numbered_conns w' = {1, 2}"
proof -
  have query: "getFileDescriptorSet 3 (NewServerReflectionClient numbering_dialer c) ''localhost'' [] w \<noteq> None"
    for c w
    by (simp add: getFileDescriptorSet_def getServices_def doRefl_def numbering_dialer_def
        io_bind_def io_wrap_def io_call_def)
  have retry: "getFileDescriptorSetWithRetry 3 counting_backoff silent_hooks
      (NewServerReflectionClient numbering_dialer c) ''localhost'' [] w \<noteq> None" for c w
    unfolding getFileDescriptorSetWithRetry_bounded [OF counting_backoff_ok]
    by (rule bounded_retry_returns) (rule query)
  obtain c w1 where dial: "DialContext numbering_dialer ''localhost'' [] (5, {1, 2}) = (Inr c, w1)"
    by (simp add: numbering_dialer_def)
  obtain r w2 where "getFileDescriptorSetWithRetry 3 counting_backoff silent_hooks
      (NewServerReflectionClient numbering_dialer c) ''localhost'' [] w1 = Some (r, w2)"
    using retry [of c w1] by auto
  then have run: "GetFileDescriptorSet 3 counting_backoff silent_hooks numbering_dialer ''localhost'' [] []
      (5, {1, 2}) = Some (r, CloseConn numbering_dialer c w2)"
    using dial by (simp add: GetFileDescriptorSet_def io_bind_def io_wrap_def io_call_def io_defer_def)
  have closed: "numbered_conns (CloseConn numbering_dialer c w2) = numbered_conns (5, {1, 2})"
    by (rule no_connection_leak [OF _ _ _ _ _ run])
      (auto simp: numbering_dialer_def numbered_conns_def client_keeps_def hooks_keep_def silent_hooks_def)
  have "numbered_conns (5, {1, 2}) = {1, 2}" by (auto simp: numbered_conns_def)
  with closed show ?thesis by (intro exI conjI) (rule run, rule trans)
qed

end
