(* ===== verification/Upsert.thy ===== *)
theory Upsert
  imports Kube MutexMap ReflectionRetry
begin

text \<open>
  Creating, updating and deleting the objects of a ReplicaSet (cmd/transflect-operator/envoyfilter.go):
  the temporary Service and Ingress, the reflection query through them, and the EnvoyFilter. The
  clients of the Kubernetes and Istio API servers are parameters, one record of four calls per
  kind of object over the state \<open>'w\<close> of the outside world; so are the error predicates
  \<open>IsNotFound\<close> and \<open>IsAlreadyExists\<close>, the protobuf codec, and the parameters of the reflection
  client. The operator's own state is a record that holds the world as one field. Of contexts only the
  values are modelled, of logging only the hook that the retry loop calls, which gets the context.
\<close>

section \<open>The state of the operator and its environment\<close>

record ('w, 'o) api =
  api_Create :: "string \<Rightarrow> 'o \<Rightarrow> 'w \<Rightarrow> (goerr + 'o) \<times> 'w"
  api_Get :: "string \<Rightarrow> string \<Rightarrow> 'w \<Rightarrow> (goerr + 'o) \<times> 'w"
  api_Update :: "string \<Rightarrow> 'o \<Rightarrow> 'w \<Rightarrow> (goerr + 'o) \<times> 'w"
  api_Delete :: "string \<Rightarrow> string \<Rightarrow> 'w \<Rightarrow> goerr option \<times> 'w"

record ('w, 'b, 'c, 's) cluster =
  Services :: "('w, kservice) api"
  Ingresses :: "('w, kingress) api"
  EnvoyFilters :: "('w, envoyfilter) api"
  IsNotFound :: "goerr \<Rightarrow> bool"
  IsAlreadyExists :: "goerr \<Rightarrow> bool"
  Marshal :: "file_desc list \<Rightarrow> goerr + byte list"
  Backoff :: "'b backoff"
  Hooks :: "context_values \<Rightarrow> 'w hooks"
  Net :: "('w, 'c, 's) dialer"

text \<open>The metrics the operator sets itself; \<open>processedCounter\<close> has the labels status and type.\<close>

record metrics =
  filtersGauge :: int
  leaderGauge :: int
  processedCounter :: "string \<Rightarrow> string \<Rightarrow> nat"
  preprocessErrCounter :: nat
  ignoredCounter :: nat

record 'w op_state =
  world :: 'w
  activeState :: "string \<rightharpoonup> active_entry"
  deploymentLocker :: mutex_map
  counters :: metrics
  wg :: int

record op_config =
  useIngress :: bool
  plaintext :: bool
  op_address :: string
  op_version :: string
  op_httpPathPrefix :: string

abbreviation on_world :: "('w, 'a) io \<Rightarrow> ('w op_state, 'a) io" where
  "on_world m \<equiv> io_on world (\<lambda>w s. s\<lparr>world := w\<rparr>) m"

definition filtersGauge_Add :: "int \<Rightarrow> ('w op_state, unit) io" where
  "filtersGauge_Add n =
     io_modify (\<lambda>s. s\<lparr>counters := (counters s)\<lparr>filtersGauge := filtersGauge (counters s) + n\<rparr>\<rparr>)"

section \<open>Temporary Service and Ingress\<close>

definition with_version :: "string \<Rightarrow> object_meta \<Rightarrow> object_meta" where
  "with_version v mt = mt\<lparr>om_ResourceVersion := v\<rparr>"

definition createService ::
    "('w, 'b, 'c, 's) cluster \<Rightarrow> replicaset \<Rightarrow> ('w op_state, kservice) io" where
  "createService cl rs =
     (let service = newService rs; name = om_Name (sv_meta service); ns = rs_Namespace rs in
      io_bind (io_try (on_world (io_call (api_Create (Services cl) ns service)))) (\<lambda>r.
        case r of
          Inr result \<Rightarrow> io_return result
        | Inl err \<Rightarrow>
            if \<not> IsAlreadyExists cl err then io_fail (WrapError ''cannot create service'' err)
            else
              io_bind (io_wrap ''cannot get service to update''
                  (on_world (io_call (api_Get (Services cl) ns name)))) (\<lambda>s.
                let v = om_ResourceVersion (sv_meta s);
                    service' = service\<lparr>sv_meta := with_version v (sv_meta service),
                                       sv_ClusterIP := sv_ClusterIP s\<rparr>
                in io_wrap ''cannot update service''
                     (on_world (io_call (api_Update (Services cl) ns service'))))))"

text \<open>A failed deletion is logged and otherwise ignored.\<close>

definition deleteService ::
    "('w, 'b, 'c, 's) cluster \<Rightarrow> kservice \<Rightarrow> 'w op_state \<Rightarrow> 'w op_state option" where
  "deleteService cl service s =
     Some (s\<lparr>world := snd (api_Delete (Services cl) (om_Namespace (sv_meta service))
                             (om_Name (sv_meta service)) (world s))\<rparr>)"

definition createIngress ::
    "('w, 'b, 'c, 's) cluster \<Rightarrow> replicaset \<Rightarrow> ('w op_state, kingress) io" where
  "createIngress cl rs =
     (let ingress = newIngress rs; name = om_Name (in_meta ingress); ns = rs_Namespace rs in
      io_bind (io_try (on_world (io_call (api_Create (Ingresses cl) ns ingress)))) (\<lambda>r.
        case r of
          Inr result \<Rightarrow> io_return result
        | Inl err \<Rightarrow>
            if \<not> IsAlreadyExists cl err then io_fail (WrapError ''cannot create ingress'' err)
            else
              io_bind (io_wrap ''Cannot get ingress to update''
                  (on_world (io_call (api_Get (Ingresses cl) ns name)))) (\<lambda>i.
                let v = om_ResourceVersion (in_meta i);
                    ingress' = ingress\<lparr>in_meta := with_version v (in_meta ingress)\<rparr>
                in io_wrap ''Cannot update ingress to update''
                     (on_world (io_call (api_Update (Ingresses cl) ns ingress'))))))"

definition deleteIngress ::
    "('w, 'b, 'c, 's) cluster \<Rightarrow> kingress \<Rightarrow> 'w op_state \<Rightarrow> 'w op_state option" where
  "deleteIngress cl ingress s =
     Some (s\<lparr>world := snd (api_Delete (Ingresses cl) (om_Namespace (in_meta ingress))
                             (om_Name (in_meta ingress)) (world s))\<rparr>)"

section \<open>The EnvoyFilter\<close>

text \<open>\<open>upsertEnvoyFilter\<close>, in two parts: once the descriptor set is encoded, and as a whole.\<close>

definition upsert_encoded ::
    "('w, 'b, 'c, 's) cluster \<Rightarrow> op_config \<Rightarrow> replicaset \<Rightarrow> string \<Rightarrow> string list \<Rightarrow>
     ('w op_state, unit) io" where
  "upsert_encoded cl cfg rs protosetBase64 services =
     (let envoyFilter = newEnvoyFilter rs protosetBase64 services (op_version cfg);
          name = om_Name (ef_meta envoyFilter); ns = rs_Namespace rs in
      io_bind (io_try (on_world (io_call (api_Create (EnvoyFilters cl) ns envoyFilter)))) (\<lambda>r.
        case r of
          Inr _ \<Rightarrow> filtersGauge_Add 1
        | Inl err \<Rightarrow>
            if \<not> IsAlreadyExists cl err then io_fail (WrapError ''cannot upsert EnvoyFilter'' err)
            else
              io_bind (io_wrap ''cannot get EnvoyFilter to update''
                  (on_world (io_call (api_Get (EnvoyFilters cl) ns name)))) (\<lambda>e.
                let v = om_ResourceVersion (ef_meta e);
                    envoyFilter' = envoyFilter\<lparr>ef_meta := with_version v (ef_meta envoyFilter)\<rparr>
                in io_bind (io_wrap ''cannot Update envoyFilter''
                     (on_world (io_call (api_Update (EnvoyFilters cl) ns envoyFilter'))))
                     (\<lambda>_. io_return ()))))"

definition upsertEnvoyFilter ::
    "('w, 'b, 'c, 's) cluster \<Rightarrow> op_config \<Rightarrow> replicaset \<Rightarrow> file_desc list \<Rightarrow> string list \<Rightarrow>
     ('w op_state, unit) io" where
  "upsertEnvoyFilter cl cfg rs fds services =
     (case Base64Proto (Marshal cl) fds of
        Inl err \<Rightarrow> io_fail (WrapError ''cannot encode proto FileDescriptorSet'' err)
      | Inr protosetBase64 \<Rightarrow> upsert_encoded cl cfg rs protosetBase64 services)"

definition deleteFilter ::
    "('w, 'b, 'c, 's) cluster \<Rightarrow> replicaset \<Rightarrow> ('w op_state, unit) io" where
  "deleteFilter cl rs =
     (let name = envoyFilterName rs in
      io_bind (io_try (on_world (io_check (api_Delete (EnvoyFilters cl) (rs_Namespace rs) name))))
        (\<lambda>r. case r of
               Inl err \<Rightarrow>
                 if \<not> IsNotFound cl err then io_fail (WrapError (''cannot delete EnvoyFilter '' @ name) err)
                 else filtersGauge_Add (- 1)
             | Inr _ \<Rightarrow> filtersGauge_Add (- 1)))"

text \<open>\<open>fmt.Sprintf("%s.%s.svc.cluster.local:%d", rs.Name, rs.Namespace, port)\<close>\<close>

definition getAddrOpts :: "op_config \<Rightarrow> replicaset \<Rightarrow> string \<times> dial_opt list" where
  "getAddrOpts cfg rs =
     (let addr = rs_Name rs @ ''.'' @ rs_Namespace rs @ ''.svc.cluster.local:'' @
                   show_nat (unat (grpcPort rs));
          authority = rs_Namespace rs @ ''.local'';
          (addr', opts) = (if useIngress cfg then (op_address cfg, [WithAuthority authority])
                           else (addr, []))
      in (addr', opts @ (if plaintext cfg then [WithInsecure] else [])))"

text \<open>
  The context of the reflection query names the ReplicaSet, for the log. The context that reaches
  \<open>upsertFilter\<close> carries no value: it descends from \<open>context.Background()\<close> by cancellations only.
\<close>

definition ctxReplicaKey :: string where
  "ctxReplicaKey = ''replica''"

definition replica_context :: "replicaset \<Rightarrow> context_values" where
  "replica_context rs = WithValue Background ctxReplicaKey (IVal (rs_Name rs))"

definition pathPrefix :: "op_config \<Rightarrow> replicaset \<Rightarrow> string" where
  "pathPrefix cfg rs =
     (let p = go_lookup (rs_Annotations rs) httpPrefixAnnotation in
      if p = [] then op_httpPathPrefix cfg else p)"

text \<open>The result of a pure function that may panic.\<close>

definition io_outcome :: "'a outcome \<Rightarrow> ('w, 'a) io" where
  "io_outcome r w = Some (r, w)"

text \<open>The last part of \<open>upsertFilter\<close>, once the temporary objects are there.\<close>

definition query_and_upsert ::
    "nat \<Rightarrow> ('w, 'b, 'c, 's) cluster \<Rightarrow> op_config \<Rightarrow> replicaset \<Rightarrow> ('w op_state, unit) io" where
  "query_and_upsert fuel cl cfg rs =
     (case getAddrOpts cfg rs of (addr, opts) \<Rightarrow>
      io_bind (io_wrap (''cannot query Reflection API or create FileDescriptor for address '' @ op_address cfg)
          (on_world (GetFileDescriptorSet fuel (Backoff cl) (Hooks cl (replica_context rs)) (Net cl) addr
            (pathPrefix cfg rs) opts)))
        (\<lambda>(fds, services).
      io_bind (io_outcome (filterGRPCServices services rs)) (\<lambda>services'.
        io_wrap ''cannot upsert EnvoyFilter resource'' (upsertEnvoyFilter cl cfg rs fds services'))))"

definition upsertFilter ::
    "nat \<Rightarrow> ('w, 'b, 'c, 's) cluster \<Rightarrow> op_config \<Rightarrow> replicaset \<Rightarrow> ('w op_state, unit) io" where
  "upsertFilter fuel cl cfg rs =
     io_bind (io_wrap ''cannot create Service'' (createService cl rs)) (\<lambda>service.
       io_defer (deleteService cl service)
         (if useIngress cfg then
            io_bind (io_wrap ''cannot create Ingress'' (createIngress cl rs)) (\<lambda>ingress.
              io_defer (deleteIngress cl ingress) (query_and_upsert fuel cl cfg rs))
          else query_and_upsert fuel cl cfg rs))"

section \<open>The contract of an API server\<close>

text \<open>
  What a healthy server promises for one kind of objects: \<open>objs\<close> are those it stores, by
  namespace and name, \<open>other\<close> is what its calls leave alone, and \<open>strip\<close> removes from an object
  the fields the server fills in. Creating works for a name that is free, and is otherwise
  refused with an error that \<open>exists\<close> recognises; an update must carry the version that is
  stored; deleting a missing object is an error that \<open>missing\<close> recognises.
\<close>

definition serves_objects ::
    "('w, 'o) api \<Rightarrow> (goerr \<Rightarrow> bool) \<Rightarrow> (goerr \<Rightarrow> bool) \<Rightarrow> ('o \<Rightarrow> object_meta) \<Rightarrow> ('o \<Rightarrow> 'o) \<Rightarrow>
     ('w \<Rightarrow> string \<times> string \<rightharpoonup> 'o) \<Rightarrow> ('w \<Rightarrow> 'x) \<Rightarrow> bool" where
  "serves_objects api exists missing mt strip objs other \<longleftrightarrow>
     (\<forall>ns x w. objs w (ns, om_Name (mt x)) = None \<longrightarrow>
        (\<exists>x' w'. api_Create api ns x w = (Inr x', w') \<and> strip x' = strip x \<and>
           objs w' = (objs w)((ns, om_Name (mt x)) \<mapsto> x') \<and> other w' = other w)) \<and>
     (\<forall>ns x w. objs w (ns, om_Name (mt x)) \<noteq> None \<longrightarrow>
        (\<exists>e w'. api_Create api ns x w = (Inl e, w') \<and> exists e \<and>
           objs w' = objs w \<and> other w' = other w)) \<and>
     (\<forall>ns nm w x. objs w (ns, nm) = Some x \<longrightarrow>
        (\<exists>w'. api_Get api ns nm w = (Inr x, w') \<and> objs w' = objs w \<and> other w' = other w)) \<and>
     (\<forall>ns x w old. objs w (ns, om_Name (mt x)) = Some old \<and>
          om_ResourceVersion (mt x) = om_ResourceVersion (mt old) \<longrightarrow>
        (\<exists>x' w'. api_Update api ns x w = (Inr x', w') \<and> strip x' = strip x \<and>
           objs w' = (objs w)((ns, om_Name (mt x)) \<mapsto> x') \<and> other w' = other w)) \<and>
     (\<forall>ns nm w. objs w (ns, nm) \<noteq> None \<longrightarrow>
        (\<exists>w'. api_Delete api ns nm w = (None, w') \<and>
           objs w' = (objs w)((ns, nm) := None) \<and> other w' = other w)) \<and>
     (\<forall>ns nm w. objs w (ns, nm) = None \<longrightarrow>
        (\<exists>e w'. api_Delete api ns nm w = (Some e, w') \<and> missing e \<and>
           objs w' = objs w \<and> other w' = other w))"

lemma serves_objectsE:
  assumes "serves_objects api exists missing mt strip objs other"
  shows "objs w (ns, om_Name (mt x)) = None \<Longrightarrow>
      \<exists>x' w'. api_Create api ns x w = (Inr x', w') \<and> strip x' = strip x \<and>
        objs w' = (objs w)((ns, om_Name (mt x)) \<mapsto> x') \<and> other w' = other w"
    and "objs w (ns, om_Name (mt x)) \<noteq> None \<Longrightarrow>
      \<exists>e w'. api_Create api ns x w = (Inl e, w') \<and> exists e \<and> objs w' = objs w \<and> other w' = other w"
    and "objs w (ns, nm) = Some y \<Longrightarrow>
      \<exists>w'. api_Get api ns nm w = (Inr y, w') \<and> objs w' = objs w \<and> other w' = other w"
    and "objs w (ns, om_Name (mt x)) = Some old \<Longrightarrow>
      om_ResourceVersion (mt x) = om_ResourceVersion (mt old) \<Longrightarrow>
      \<exists>x' w'. api_Update api ns x w = (Inr x', w') \<and> strip x' = strip x \<and>
        objs w' = (objs w)((ns, om_Name (mt x)) \<mapsto> x') \<and> other w' = other w"
    and "objs w (ns, nm) \<noteq> None \<Longrightarrow>
      \<exists>w'. api_Delete api ns nm w = (None, w') \<and> objs w' = (objs w)((ns, nm) := None) \<and>
        other w' = other w"
    and "objs w (ns, nm) = None \<Longrightarrow>
      \<exists>e w'. api_Delete api ns nm w = (Some e, w') \<and> missing e \<and> objs w' = objs w \<and> other w' = other w"
proof -
  note laws = assms [unfolded serves_objects_def]
  note l1 = laws [THEN conjunct1] and r1 = laws [THEN conjunct2]
  note l2 = r1 [THEN conjunct1] and r2 = r1 [THEN conjunct2]
  note l3 = r2 [THEN conjunct1] and r3 = r2 [THEN conjunct2]
  note l4 = r3 [THEN conjunct1] and r4 = r3 [THEN conjunct2]
  note l5 = r4 [THEN conjunct1] and l6 = r4 [THEN conjunct2]
  show "objs w (ns, om_Name (mt x)) = None \<Longrightarrow>
      \<exists>x' w'. api_Create api ns x w = (Inr x', w') \<and> strip x' = strip x \<and>
        objs w' = (objs w)((ns, om_Name (mt x)) \<mapsto> x') \<and> other w' = other w"
    using l1 by (elim allE impE)
  show "objs w (ns, om_Name (mt x)) \<noteq> None \<Longrightarrow>
      \<exists>e w'. api_Create api ns x w = (Inl e, w') \<and> exists e \<and> objs w' = objs w \<and> other w' = other w"
    using l2 by (elim allE impE)
  show "objs w (ns, nm) = Some y \<Longrightarrow>
      \<exists>w'. api_Get api ns nm w = (Inr y, w') \<and> objs w' = objs w \<and> other w' = other w"
    using l3 by (elim allE impE)
  show "objs w (ns, om_Name (mt x)) = Some old \<Longrightarrow>
      om_ResourceVersion (mt x) = om_ResourceVersion (mt old) \<Longrightarrow>
      \<exists>x' w'. api_Update api ns x w = (Inr x', w') \<and> strip x' = strip x \<and>
        objs w' = (objs w)((ns, om_Name (mt x)) \<mapsto> x') \<and> other w' = other w"
    using l4 [THEN spec, THEN spec, THEN spec, THEN spec, THEN mp, OF conjI] .
  show "objs w (ns, nm) \<noteq> None \<Longrightarrow>
      \<exists>w'. api_Delete api ns nm w = (None, w') \<and> objs w' = (objs w)((ns, nm) := None) \<and>
        other w' = other w"
    using l5 by (elim allE impE)
  show "objs w (ns, nm) = None \<Longrightarrow>
      \<exists>e w'. api_Delete api ns nm w = (Some e, w') \<and> missing e \<and> objs w' = objs w \<and> other w' = other w"
    using l6 by (elim allE impE)
qed

lemma serves_objects_delete:
  assumes "serves_objects api exists missing mt strip objs other"
  shows "objs (snd (api_Delete api ns nm w)) = (objs w)((ns, nm) := None)"
    "other (snd (api_Delete api ns nm w)) = other w"
proof -
  have "objs (snd (api_Delete api ns nm w)) = (objs w)((ns, nm) := None) \<and>
      other (snd (api_Delete api ns nm w)) = other w"
  proof (cases "objs w (ns, nm) = None")
    case True
    then have "(objs w)((ns, nm) := None) = objs w" by (rule fun_upd_idem)
    with serves_objectsE(6) [OF assms True] show ?thesis by force
  next
    case False
    then show ?thesis using serves_objectsE(5) [OF assms] by force
  qed
  then show "objs (snd (api_Delete api ns nm w)) = (objs w)((ns, nm) := None)"
    "other (snd (api_Delete api ns nm w)) = other w" by blast+
qed

section \<open>Create, or update what is there\<close>

text \<open>
  The contract that \<open>createService\<close>, \<open>createIngress\<close> and \<open>upsertEnvoyFilter\<close> share: the object is
  created, and when one of that name exists it is read and overwritten under its version. \<open>adopt\<close>
  is what the update takes over from the old object, \<open>ret\<close> the result made of the server's
  answer, \<open>created\<close> what happens besides when the object is new.
\<close>

locale create_or_update =
  fixes api :: "('w, 'o) api" and exists :: "goerr \<Rightarrow> bool" and mt :: "'o \<Rightarrow> object_meta"
    and obj :: 'o and adopt :: "'o \<Rightarrow> 'o" and ret :: "'o \<Rightarrow> 'r"
    and created :: "'w op_state \<Rightarrow> 'w op_state" and run :: "('w op_state, 'r) io"
  assumes create_ok: "api_Create api (om_Namespace (mt obj)) obj (world s) = (Inr x, w1) \<Longrightarrow>
      run s = Some (Ok (ret x), created (s\<lparr>world := w1\<rparr>))"
    and create_err: "api_Create api (om_Namespace (mt obj)) obj (world s) = (Inl e, w1) \<Longrightarrow>
      \<not> exists e \<Longrightarrow> \<exists>e'. run s = Some (Fail e', s\<lparr>world := w1\<rparr>)"
    and get_err: "api_Create api (om_Namespace (mt obj)) obj (world s) = (Inl e, w1) \<Longrightarrow> exists e \<Longrightarrow>
      api_Get api (om_Namespace (mt obj)) (om_Name (mt obj)) w1 = (Inl e1, w2) \<Longrightarrow>
      \<exists>e'. run s = Some (Fail e', s\<lparr>world := w2\<rparr>)"
    and update_err: "api_Create api (om_Namespace (mt obj)) obj (world s) = (Inl e, w1) \<Longrightarrow> exists e \<Longrightarrow>
      api_Get api (om_Namespace (mt obj)) (om_Name (mt obj)) w1 = (Inr old, w2) \<Longrightarrow>
      api_Update api (om_Namespace (mt obj)) (adopt old) w2 = (Inl e2, w3) \<Longrightarrow>
      \<exists>e'. run s = Some (Fail e', s\<lparr>world := w3\<rparr>)"
    and update_ok: "api_Create api (om_Namespace (mt obj)) obj (world s) = (Inl e, w1) \<Longrightarrow> exists e \<Longrightarrow>
      api_Get api (om_Namespace (mt obj)) (om_Name (mt obj)) w1 = (Inr old, w2) \<Longrightarrow>
      api_Update api (om_Namespace (mt obj)) (adopt old) w2 = (Inr x, w3) \<Longrightarrow>
      run s = Some (Ok (ret x), s\<lparr>world := w3\<rparr>)"
    and adopt_meta: "mt (adopt old) = with_version (om_ResourceVersion (mt old)) (mt obj)"
begin

text \<open>The five ways through.\<close>

lemma run_cases:
  obtains (made) x w1 where "api_Create api (om_Namespace (mt obj)) obj (world s) = (Inr x, w1)"
      "run s = Some (Ok (ret x), created (s\<lparr>world := w1\<rparr>))"
  | (updated) x w1 where "run s = Some (Ok (ret x), s\<lparr>world := w1\<rparr>)"
  | (failed) e w1 where "run s = Some (Fail e, s\<lparr>world := w1\<rparr>)"
proof (cases "api_Create api (om_Namespace (mt obj)) obj (world s)")
  case create: (Pair r w1)
  show thesis
  proof (cases r)
    case (Inr x)
    then show thesis using made [of x w1] create_ok create by simp
  next
    case (Inl e)
    show thesis
    proof (cases "exists e")
      case False
      then show thesis using failed create_err [of s e w1] create Inl by blast
    next
      case True
      obtain g w2 where get: "api_Get api (om_Namespace (mt obj)) (om_Name (mt obj)) w1 = (g, w2)"
        by (cases "api_Get api (om_Namespace (mt obj)) (om_Name (mt obj)) w1")
      show thesis
      proof (cases g)
        case (Inl e1)
        then show thesis using failed get_err create \<open>r = Inl e\<close> True get by blast
      next
        case (Inr old)
        obtain u w3 where "api_Update api (om_Namespace (mt obj)) (adopt old) w2 = (u, w3)"
          by (cases "api_Update api (om_Namespace (mt obj)) (adopt old) w2")
        then show thesis
          using failed update_err updated update_ok create \<open>r = Inl e\<close> True get Inr
          by (cases u) blast+
      qed
    qed
  qed
qed

lemma run_total: "io_total run"
  unfolding io_total_def
proof
  fix s
  show "run s \<noteq> None" by (rule run_cases [of s]) simp_all
qed

lemma run_keeps:
  assumes "\<And>s w. f (s\<lparr>world := w\<rparr>) = f s" "\<And>s. f (created s) = f s"
  shows "io_keeps f run"
  unfolding io_keeps_def
proof (intro allI impI)
  fix s r s'
  assume *: "run s = Some (r, s')"
  show "f s' = f s" by (rule run_cases [of s]) (use * assms in auto)
qed

lemma run_stores:
  assumes server: "serves_objects api exists missing mt strip objs other"
    and strip: "\<And>old. strip (adopt old) = strip obj"
  obtains x w' where
    "run s = Some (Ok (ret x), if objs (world s) (om_Namespace (mt obj), om_Name (mt obj)) = None
                               then created (s\<lparr>world := w'\<rparr>) else s\<lparr>world := w'\<rparr>)"
    "objs w' = (objs (world s))((om_Namespace (mt obj), om_Name (mt obj)) \<mapsto> x)"
    "strip x = strip obj" "other w' = other (world s)"
proof (cases "objs (world s) (om_Namespace (mt obj), om_Name (mt obj))")
  case None
  from serves_objectsE(1) [OF server None] obtain x w1 where
    1: "api_Create api (om_Namespace (mt obj)) obj (world s) = (Inr x, w1)" "strip x = strip obj"
      "objs w1 = (objs (world s))((om_Namespace (mt obj), om_Name (mt obj)) \<mapsto> x)"
      "other w1 = other (world s)" by blast
  then show thesis using that [of x w1] create_ok [OF 1(1)] None by simp
next
  case (Some old)
  from Some have "objs (world s) (om_Namespace (mt obj), om_Name (mt obj)) \<noteq> None" by simp
  from serves_objectsE(2) [OF server this] obtain e w1 where
    1: "api_Create api (om_Namespace (mt obj)) obj (world s) = (Inl e, w1)" "exists e"
      "objs w1 = objs (world s)" "other w1 = other (world s)" by blast
  have "objs w1 (om_Namespace (mt obj), om_Name (mt obj)) = Some old" using 1(3) Some by simp
  from serves_objectsE(3) [OF server this] obtain w2 where
    2: "api_Get api (om_Namespace (mt obj)) (om_Name (mt obj)) w1 = (Inr old, w2)"
      "objs w2 = objs w1" "other w2 = other w1" by blast
  have mt': "om_Name (mt (adopt old)) = om_Name (mt obj)"
    "om_ResourceVersion (mt (adopt old)) = om_ResourceVersion (mt old)"
    by (simp_all add: adopt_meta with_version_def)
  have "objs w2 (om_Namespace (mt obj), om_Name (mt (adopt old))) = Some old"
    using 1(3) 2(2) Some mt'(1) by simp
  from serves_objectsE(4) [OF server this mt'(2)] obtain x w3 where
    3: "api_Update api (om_Namespace (mt obj)) (adopt old) w2 = (Inr x, w3)"
      "strip x = strip (adopt old)"
      "objs w3 = (objs w2)((om_Namespace (mt obj), om_Name (mt (adopt old))) \<mapsto> x)"
      "other w3 = other w2" by blast
  have "run s = Some (Ok (ret x), s\<lparr>world := w3\<rparr>)" using 1(1,2) 2(1) 3(1) by (rule update_ok)
  then show thesis
    using that [of x w3] Some 1(3,4) 2(2,3) 3(2-4) strip mt'(1) by simp
qed

end

text \<open>What the server adds to an object: its version, and the address of a Service.\<close>

definition strip_service :: "kservice \<Rightarrow> kservice" where
  "strip_service s = s\<lparr>sv_meta := with_version [] (sv_meta s), sv_ClusterIP := []\<rparr>"
definition strip_ingress :: "kingress \<Rightarrow> kingress" where
  "strip_ingress i = i\<lparr>in_meta := with_version [] (in_meta i)\<rparr>"
definition strip_filter :: "envoyfilter \<Rightarrow> envoyfilter" where
  "strip_filter e = e\<lparr>ef_meta := with_version [] (ef_meta e)\<rparr>"

definition adopt_service :: "replicaset \<Rightarrow> kservice \<Rightarrow> kservice" where
  "adopt_service rs old =
     (newService rs)\<lparr>sv_meta := with_version (om_ResourceVersion (sv_meta old)) (sv_meta (newService rs)),
                     sv_ClusterIP := sv_ClusterIP old\<rparr>"
definition adopt_ingress :: "replicaset \<Rightarrow> kingress \<Rightarrow> kingress" where
  "adopt_ingress rs old =
     (newIngress rs)\<lparr>in_meta := with_version (om_ResourceVersion (in_meta old)) (in_meta (newIngress rs))\<rparr>"
definition adopt_filter :: "envoyfilter \<Rightarrow> envoyfilter \<Rightarrow> envoyfilter" where
  "adopt_filter new old = new\<lparr>ef_meta := with_version (om_ResourceVersion (ef_meta old)) (ef_meta new)\<rparr>"

lemma meta_simps [simp]:
  "om_Namespace (sv_meta (newService rs)) = rs_Namespace rs" "om_Name (sv_meta (newService rs)) = rs_Name rs"
  "om_Namespace (in_meta (newIngress rs)) = rs_Namespace rs" "om_Name (in_meta (newIngress rs)) = rs_Name rs"
  "om_Namespace (ef_meta (newEnvoyFilter rs b ss v)) = rs_Namespace rs"
  "om_Name (ef_meta (newEnvoyFilter rs b ss v)) = envoyFilterName rs"
  by (simp_all add: newService_def newIngress_def newEnvoyFilter_def plain_meta_def)

lemma with_version_simps [simp]:
  "om_Namespace (with_version v mt) = om_Namespace mt" "om_Name (with_version v mt) = om_Name mt"
  "om_ResourceVersion (with_version v mt) = v" "with_version u (with_version v mt) = with_version u mt"
  by (simp_all add: with_version_def)

lemma strip_adopt:
  "strip_service (adopt_service rs s) = strip_service (newService rs)"
  "strip_ingress (adopt_ingress rs i) = strip_ingress (newIngress rs)"
  "strip_filter (adopt_filter f e) = strip_filter f"
  by (simp_all add: strip_service_def strip_ingress_def strip_filter_def adopt_service_def
      adopt_ingress_def adopt_filter_def)

lemma strip_new:
  "strip_service (newService rs) = newService rs" "strip_ingress (newIngress rs) = newIngress rs"
  "strip_filter (newEnvoyFilter rs b ss v) = newEnvoyFilter rs b ss v"
  by (simp_all add: strip_service_def strip_ingress_def strip_filter_def newService_def newIngress_def
      newEnvoyFilter_def plain_meta_def with_version_def)

definition gauge_up :: "'w op_state \<Rightarrow> 'w op_state" where
  "gauge_up s = s\<lparr>counters := (counters s)\<lparr>filtersGauge := filtersGauge (counters s) + 1\<rparr>\<rparr>"

lemmas io_unfold = io_bind_def io_try_def io_on_def io_call_def io_check_def io_wrap_def io_basic

interpretation service: create_or_update "Services cl" "IsAlreadyExists cl" sv_meta "newService rs"
    "adopt_service rs" "\<lambda>x. x" "\<lambda>s. s" "createService cl rs"
  for cl :: "('w, 'b, 'c, 's) cluster" and rs :: replicaset
  by unfold_locales (simp_all add: createService_def adopt_service_def Let_def io_unfold)

interpretation ingress: create_or_update "Ingresses cl" "IsAlreadyExists cl" in_meta "newIngress rs"
    "adopt_ingress rs" "\<lambda>x. x" "\<lambda>s. s" "createIngress cl rs"
  for cl :: "('w, 'b, 'c, 's) cluster" and rs :: replicaset
  by unfold_locales (simp_all add: createIngress_def adopt_ingress_def Let_def io_unfold)

interpretation filt: create_or_update "EnvoyFilters cl" "IsAlreadyExists cl" ef_meta
    "newEnvoyFilter rs b ss (op_version cfg)" "adopt_filter (newEnvoyFilter rs b ss (op_version cfg))"
    "\<lambda>_. ()" gauge_up "upsert_encoded cl cfg rs b ss"
  for cl :: "('w, 'b, 'c, 's) cluster" and cfg :: op_config and rs :: replicaset and b :: string
    and ss :: "string list"
  by unfold_locales
    (simp_all add: upsert_encoded_def adopt_filter_def gauge_up_def filtersGauge_Add_def Let_def io_unfold)

end
