(* ===== verification/SampleCluster.thy ===== *)
theory SampleCluster
  imports Upsert
begin

text \<open>
  A concrete environment for the instances of the operator's properties: API servers that keep
  their objects in memory, and a reflection server with one service and no files. It satisfies
  what \<open>serves_objects\<close> asks of an API server.
\<close>

record kworld =
  kw_services :: "string \<times> string \<rightharpoonup> kservice"
  kw_ingresses :: "string \<times> string \<rightharpoonup> kingress"
  kw_filters :: "string \<times> string \<rightharpoonup> envoyfilter"
  kw_pending :: "refl_msg list"
  kw_queue :: "string list"
  kw_done :: "string list"

definition mem_api ::
    "('o \<Rightarrow> object_meta) \<Rightarrow> ('w \<Rightarrow> string \<times> string \<rightharpoonup> 'o) \<Rightarrow> ((string \<times> string \<rightharpoonup> 'o) \<Rightarrow> 'w \<Rightarrow> 'w) \<Rightarrow>
     ('w, 'o) api" where
  "mem_api mt get put =
     \<lparr>api_Create = (\<lambda>ns x w.
        case get w (ns, om_Name (mt x)) of
          None \<Rightarrow> (Inr x, put ((get w)((ns, om_Name (mt x)) \<mapsto> x)) w)
        | Some _ \<Rightarrow> (Inl (ExtError ''already exists''), w)),
      api_Get = (\<lambda>ns nm w.
        case get w (ns, nm) of None \<Rightarrow> (Inl (ExtError ''not found''), w) | Some x \<Rightarrow> (Inr x, w)),
      api_Update = (\<lambda>ns x w.
        case get w (ns, om_Name (mt x)) of
          None \<Rightarrow> (Inl (ExtError ''not found''), w)
        | Some old \<Rightarrow>
            if om_ResourceVersion (mt x) = om_ResourceVersion (mt old)
            then (Inr x, put ((get w)((ns, om_Name (mt x)) \<mapsto> x)) w)
            else (Inl (ExtError ''conflict''), w)),
      api_Delete = (\<lambda>ns nm w.
        case get w (ns, nm) of
          None \<Rightarrow> (Some (ExtError ''not found''), w)
        | Some x \<Rightarrow> (None, put ((get w)((ns, nm) := None)) w))\<rparr>"

lemma mem_api_serves:
  assumes "\<And>m w. get (put m w) = m" "\<And>m w. other (put m w) = other w"
    and "exists (ExtError ''already exists'')" "missing (ExtError ''not found'')"
  shows "serves_objects (mem_api mt get put) exists missing mt strip get other"
  unfolding serves_objects_def
  by (intro conjI allI impI) (use assms in \<open>auto simp: mem_api_def\<close>)

text \<open>A reflection server that lists a service but has no file for it.\<close>

fun quiet_srv :: "refl_msg \<Rightarrow> refl_resp" where
  "quiet_srv ListServices = ListServicesResponse [''p.S'']"
| "quiet_srv _ = FileDescriptorResponse []"

definition quiet_client :: "(kworld, unit) refl_client" where
  "quiet_client =
     \<lparr>ServerReflectionInfo = (\<lambda>w. (Inr (), w\<lparr>kw_pending := []\<rparr>)),
      Send = (\<lambda>_ req w. (None, w\<lparr>kw_pending := kw_pending w @ [rq_msg req]\<rparr>)),
      Recv = (\<lambda>_ w. case kw_pending w of [] \<Rightarrow> (Inl (ExtError ''EOF''), w)
                                       | q # qs \<Rightarrow> (Inr (quiet_srv q), w\<lparr>kw_pending := qs\<rparr>)),
      CloseSend = (\<lambda>_ w. w),
      Unmarshal = (\<lambda>_. Inl (ExtError ''no file''))\<rparr>"

definition sample_cluster :: "(kworld, nat, unit, unit) cluster" where
  "sample_cluster =
     \<lparr>Services = mem_api sv_meta kw_services (\<lambda>m w. w\<lparr>kw_services := m\<rparr>),
      Ingresses = mem_api in_meta kw_ingresses (\<lambda>m w. w\<lparr>kw_ingresses := m\<rparr>),
      EnvoyFilters = mem_api ef_meta kw_filters (\<lambda>m w. w\<lparr>kw_filters := m\<rparr>),
      IsNotFound = (\<lambda>e. e = ExtError ''not found''),
      IsAlreadyExists = (\<lambda>e. e = ExtError ''already exists''),
      Marshal = (\<lambda>_. Inr [1, 2, 3]),
      Backoff = counting_backoff,
      Hooks = (\<lambda>_. silent_hooks),
      Net = \<lparr>DialContext = (\<lambda>_ _ w. (Inr (), w)), CloseConn = (\<lambda>_ w. w),
             NewServerReflectionClient = (\<lambda>_. quiet_client)\<rparr>\<rparr>"

lemma quiet_doRefl:
  "doRefl quiet_client req w = Some (Ok (quiet_srv (rq_msg req)), w\<lparr>kw_pending := []\<rparr>)"
  by (simp add: doRefl_def quiet_client_def io_unfold io_defer_def closeAndDrain_def drain.simps)

lemma quiet_query:
  "GetFileDescriptorSet 1 (Backoff sample_cluster) (Hooks sample_cluster ctx) (Net sample_cluster)
     addr pre opts w = Some (Ok ([], [''p.S'']), w\<lparr>kw_pending := []\<rparr>)"
proof -
  have "getFileDescriptorSet 1 quiet_client addr pre w = Some (Ok ([], [''p.S'']), w\<lparr>kw_pending := []\<rparr>)"
    by (simp add: getFileDescriptorSet_def getServices_def getFileDescriptorBySymbol_def quiet_doRefl
        decodeResponse_def io_bind_def io_return_def)
  then show ?thesis
    by (simp add: GetFileDescriptorSet_def getFileDescriptorSetWithRetry_def retry_loop.simps
        sample_cluster_def io_unfold io_defer_def)
qed

definition empty_world :: kworld where
  "empty_world =
     \<lparr>kw_services = Map.empty, kw_ingresses = Map.empty, kw_filters = Map.empty, kw_pending = [],
      kw_queue = [], kw_done = []\<rparr>"

definition sample_state :: "kworld op_state" where
  "sample_state =
     \<lparr>world = empty_world, activeState = Map.empty, deploymentLocker = mm_empty,
      counters = \<lparr>filtersGauge = 0, leaderGauge = 0, processedCounter = (\<lambda>_ _. 0),
        preprocessErrCounter = 0, ignoredCounter = 0\<rparr>,
      wg = 0\<rparr>"

definition sample_config :: op_config where
  "sample_config =
     \<lparr>useIngress = True, plaintext = True, op_address = ''localhost:80'',
      op_version = ''transflect-v0.0.0'', op_httpPathPrefix = []\<rparr>"

text \<open>A ReplicaSet with a port and a revision and nothing to exclude.\<close>

definition plain_rs :: replicaset where
  "plain_rs = sample_rs\<lparr>rs_Annotations := [portAnnotation \<mapsto> ''8080'', revisionAnnotation \<mapsto> ''1'']\<rparr>"

lemma plain_rs_keeps_services: "filterGRPCServices services plain_rs = Ok services"
  by (simp add: filterGRPCServices_def plain_rs_def annotation_defs mapFromString_def)

end
