(* ===== verification/UpsertSpec.thy ===== *)
theory UpsertSpec
  imports SampleCluster
begin

text \<open>
  What \<open>upsertFilter\<close> and \<open>deleteFilter\<close> (cmd/transflect-operator/envoyfilter.go) achieve: the parts
  of the operator's state they leave alone, the deletion of the temporary objects on every path,
  and, against healthy API servers, the EnvoyFilter that is stored in the end.
\<close>

section \<open>Frames\<close>

text \<open>An observation that depends neither on the world nor on the gauge of filters.\<close>

definition internal :: "('w op_state \<Rightarrow> 'x) \<Rightarrow> bool" where
  "internal f \<longleftrightarrow> (\<forall>s w. f (s\<lparr>world := w\<rparr>) = f s) \<and> (\<forall>s n. f (s\<lparr>counters := (counters s)\<lparr>filtersGauge := n\<rparr>\<rparr>) = f s)"

lemma internalD:
  "internal f \<Longrightarrow> f (s\<lparr>world := w\<rparr>) = f s" "internal f \<Longrightarrow> f (s\<lparr>counters := (counters s)\<lparr>filtersGauge := n\<rparr>\<rparr>) = f s"
  by (simp_all add: internal_def)

lemma internal_fields [simp]: "internal activeState" "internal deploymentLocker" "internal wg"
  "internal (\<lambda>s. processedCounter (counters s))"
  by (simp_all add: internal_def)

lemma io_keeps_world [io_frames]: "internal f \<Longrightarrow> io_keeps f (on_world m)"
  by (rule io_keeps_on) (rule internalD)

lemma io_keeps_outcome [io_frames]: "io_keeps f (io_outcome r)"
  by (simp add: io_keeps_def io_outcome_def)

lemma io_total_outcome [io_frames]: "io_total (io_outcome r)"
  by (simp add: io_total_def io_outcome_def)

lemma gauge_keeps [io_frames]: "internal f \<Longrightarrow> io_keeps f (filtersGauge_Add n)"
  unfolding filtersGauge_Add_def by (rule io_keeps_modify) (rule internalD)

lemma gauge_total [io_frames]: "io_total (filtersGauge_Add n)"
  unfolding filtersGauge_Add_def by (rule io_frames)

lemma upsertEnvoyFilter_keeps [io_frames]:
  "internal f \<Longrightarrow> io_keeps f (upsertEnvoyFilter cl cfg rs fds ss)"
  unfolding upsertEnvoyFilter_def
  by (auto intro!: io_frames filt.run_keeps simp: internalD gauge_up_def split: sum.split)

lemma upsertEnvoyFilter_total [io_frames]: "io_total (upsertEnvoyFilter cl cfg rs fds ss)"
  unfolding upsertEnvoyFilter_def by (auto intro: io_frames filt.run_total split: sum.split)

lemma query_and_upsert_keeps [io_frames]: "internal f \<Longrightarrow> io_keeps f (query_and_upsert fuel cl cfg rs)"
  unfolding query_and_upsert_def by (auto intro!: io_frames split: prod.split)

lemma upsertFilter_keeps [io_frames]: "internal f \<Longrightarrow> io_keeps f (upsertFilter fuel cl cfg rs)"
  unfolding upsertFilter_def
  by (auto intro!: io_frames service.run_keeps ingress.run_keeps
      simp: internalD deleteService_def deleteIngress_def)

lemma deleteFilter_keeps [io_frames]: "internal f \<Longrightarrow> io_keeps f (deleteFilter cl rs)"
  unfolding deleteFilter_def Let_def by (auto intro!: io_frames split: sum.split)

lemma deleteFilter_total [io_frames]: "io_total (deleteFilter cl rs)"
  unfolding deleteFilter_def Let_def by (auto intro!: io_frames split: sum.split)

text \<open>\<open>upsertFilter\<close> returns when the reflection query does.\<close>

definition query_returns :: "nat \<Rightarrow> ('w, 'b, 'c, 's) cluster \<Rightarrow> bool" where
  "query_returns fuel cl \<longleftrightarrow>
     (\<forall>ctx addr pre opts. io_total (GetFileDescriptorSet fuel (Backoff cl) (Hooks cl ctx) (Net cl) addr pre opts))"

lemma upsertFilter_total [io_frames]:
  assumes "query_returns fuel cl"
  shows "io_total (upsertFilter fuel cl cfg rs)"
proof -
  have q: "io_total (query_and_upsert fuel cl cfg rs)"
    unfolding query_and_upsert_def using assms
    by (auto intro!: io_frames simp: query_returns_def split: prod.split)
  show ?thesis unfolding upsertFilter_def
    by (auto intro!: io_frames q service.run_total ingress.run_total
        simp: deleteService_def deleteIngress_def)
qed

section \<open>The temporary objects are removed\<close>

text \<open>What \<open>upsertFilter\<close> does once it has created the Service and deferred its deletion.\<close>

definition after_service ::
    "nat \<Rightarrow> ('w, 'b, 'c, 's) cluster \<Rightarrow> op_config \<Rightarrow> replicaset \<Rightarrow> ('w op_state, unit) io" where
  "after_service fuel cl cfg rs =
     (if useIngress cfg then
        io_bind (io_wrap ''cannot create Ingress'' (createIngress cl rs)) (\<lambda>ingress.
          io_defer (deleteIngress cl ingress) (query_and_upsert fuel cl cfg rs))
      else query_and_upsert fuel cl cfg rs)"

text \<open>
  C18. Cleanup: when \<open>upsertFilter\<close> has created its temporary Service, its last action is to delete
  that Service, on every path: success, any error, or a panic of the rest. The same holds of the
  temporary Ingress when ingresses are in use. An object is gone when the function returns if
  its \<open>Delete\<close> reported no error. A \<open>Delete\<close> that fails is only logged: result and state are those of
  the rest, and the world is what the failed call left, so the object can stay. All that is
  asked of the API server is that a \<open>Delete\<close> without an error has removed the object, and that
  deleting a Service leaves the ingresses alone.
\<close>

theorem temporary_objects_removed:
  assumes "\<And>ns nm w. fst (api_Delete (Services cl) ns nm w) = None \<Longrightarrow>
      sv (snd (api_Delete (Services cl) ns nm w)) (ns, nm) = None"
    and "\<And>ns nm w. fst (api_Delete (Ingresses cl) ns nm w) = None \<Longrightarrow>
      ig (snd (api_Delete (Ingresses cl) ns nm w)) (ns, nm) = None"
    and "\<And>ns nm w. ig (snd (api_Delete (Services cl) ns nm w)) = ig w"
    and "upsertFilter fuel cl cfg rs s = Some (r, s')"
    and "createService cl rs s = Some (Ok service, s1)"
  shows "\<exists>t. after_service fuel cl cfg rs s1 = Some (r, t) \<and>
    (let ns = om_Namespace (sv_meta service); nm = om_Name (sv_meta service); del = api_Delete (Services cl) ns nm (world t)
     in s' = t\<lparr>world := snd del\<rparr> \<and> (fst del = None \<longrightarrow> sv (world s') (ns, nm) = None)) \<and>
    (\<forall>ingress s2. useIngress cfg \<and> createIngress cl rs s1 = Some (Ok ingress, s2) \<longrightarrow>
      (\<exists>u. query_and_upsert fuel cl cfg rs s2 = Some (r, u) \<and>
        (let ns = om_Namespace (in_meta ingress); nm = om_Name (in_meta ingress); del = api_Delete (Ingresses cl) ns nm (world u)
         in t = u\<lparr>world := snd del\<rparr> \<and> (fst del = None \<longrightarrow> ig (world s') (ns, nm) = None))))"
proof -
  have "io_defer (deleteService cl service) (after_service fuel cl cfg rs) s1 = Some (r, s')"
    using assms(4,5) by (simp add: upsertFilter_def after_service_def io_bind_def io_wrap_def)
  then obtain t where t: "after_service fuel cl cfg rs s1 = Some (r, t)" "deleteService cl service t = Some s'"
    by (rule io_defer_Some)
  then have s': "s' = t\<lparr>world := snd (api_Delete (Services cl) (om_Namespace (sv_meta service))
      (om_Name (sv_meta service)) (world t))\<rparr>"
    by (auto simp: deleteService_def)
  have ingress: "\<exists>u. query_and_upsert fuel cl cfg rs s2 = Some (r, u) \<and>
      (let ns = om_Namespace (in_meta ingress); nm = om_Name (in_meta ingress); del = api_Delete (Ingresses cl) ns nm (world u)
       in t = u\<lparr>world := snd del\<rparr> \<and> (fst del = None \<longrightarrow> ig (world s') (ns, nm) = None))"
    if "useIngress cfg" "createIngress cl rs s1 = Some (Ok ingress, s2)" for ingress s2
  proof -
    have "io_defer (deleteIngress cl ingress) (query_and_upsert fuel cl cfg rs) s2 = Some (r, t)"
      using t(1) that by (simp add: after_service_def io_bind_def io_wrap_def)
    then obtain u where u: "query_and_upsert fuel cl cfg rs s2 = Some (r, u)" "deleteIngress cl ingress u = Some t"
      by (rule io_defer_Some)
    then have "t = u\<lparr>world := snd (api_Delete (Ingresses cl) (om_Namespace (in_meta ingress))
        (om_Name (in_meta ingress)) (world u))\<rparr>"
      by (auto simp: deleteIngress_def)
    with u(1) show ?thesis
      using assms(2) [of "om_Namespace (in_meta ingress)" "om_Name (in_meta ingress)" "world u"]
      by (intro exI [of _ u]) (simp add: s' assms(3) Let_def)
  qed
  show ?thesis
    using t(1) ingress assms(1) [of "om_Namespace (sv_meta service)" "om_Name (sv_meta service)" "world t"]
    by (intro exI [of _ t]) (simp add: s' Let_def)
qed

section \<open>The filter is stored\<close>

definition healthy ::
    "('w, 'b, 'c, 's) cluster \<Rightarrow> ('w \<Rightarrow> string \<times> string \<rightharpoonup> kservice) \<Rightarrow>
     ('w \<Rightarrow> string \<times> string \<rightharpoonup> kingress) \<Rightarrow> ('w \<Rightarrow> string \<times> string \<rightharpoonup> envoyfilter) \<Rightarrow> bool" where
  "healthy cl sv ig ef \<longleftrightarrow>
     serves_objects (Services cl) (IsAlreadyExists cl) (IsNotFound cl) sv_meta strip_service sv
       (\<lambda>w. (ig w, ef w)) \<and>
     serves_objects (Ingresses cl) (IsAlreadyExists cl) (IsNotFound cl) in_meta strip_ingress ig
       (\<lambda>w. (sv w, ef w)) \<and>
     serves_objects (EnvoyFilters cl) (IsAlreadyExists cl) (IsNotFound cl) ef_meta strip_filter ef
       (\<lambda>w. (sv w, ig w))"

lemma healthyD:
  assumes "healthy cl sv ig ef"
  shows "serves_objects (Services cl) (IsAlreadyExists cl) (IsNotFound cl) sv_meta strip_service sv
      (\<lambda>w. (ig w, ef w))"
    and "serves_objects (Ingresses cl) (IsAlreadyExists cl) (IsNotFound cl) in_meta strip_ingress ig
      (\<lambda>w. (sv w, ef w))"
    and "serves_objects (EnvoyFilters cl) (IsAlreadyExists cl) (IsNotFound cl) ef_meta strip_filter ef
      (\<lambda>w. (sv w, ig w))"
  using assms by (simp_all add: healthy_def)

text \<open>
  The reflection query of a ReplicaSet through its address gives \<open>fds\<close> and \<open>services\<close> and leaves
  the stored objects alone.
\<close>

definition query_gives where
  "query_gives fuel cl cfg rs fds services sv ig ef \<longleftrightarrow>
     (\<forall>w. \<exists>w'. GetFileDescriptorSet fuel (Backoff cl) (Hooks cl (replica_context rs)) (Net cl) (fst (getAddrOpts cfg rs))
          (pathPrefix cfg rs) (snd (getAddrOpts cfg rs)) w = Some (Ok (fds, services), w') \<and>
        sv w' = sv w \<and> ig w' = ig w \<and> ef w' = ef w)"

text \<open>The state once the filter is stored: the gauge counts it when it is new.\<close>

definition counted :: "('w \<Rightarrow> string \<times> string \<rightharpoonup> envoyfilter) \<Rightarrow> replicaset \<Rightarrow> 'w op_state \<Rightarrow> 'w \<Rightarrow> 'w op_state" where
  "counted ef rs s w' =
     (if ef (world s) (rs_Namespace rs, envoyFilterName rs) = None
      then gauge_up (s\<lparr>world := w'\<rparr>) else s\<lparr>world := w'\<rparr>)"

lemma counted_world [simp]:
  "world (counted ef rs s w) = w" "(counted ef rs s w)\<lparr>world := w'\<rparr> = counted ef rs s w'"
  by (simp_all add: counted_def gauge_up_def)

lemma counted_again:
  "ef w0 = ef (world s) \<Longrightarrow> counted ef rs (s\<lparr>world := w0\<rparr>) w = counted ef rs s w"
  by (simp add: counted_def)

lemma query_and_upsert_stores:
  assumes h: "healthy cl sv ig ef" and q: "query_gives fuel cl cfg rs fds services sv ig ef"
    and f: "filterGRPCServices services rs = Ok services'" and b: "Marshal cl fds = Inr bytes"
  obtains x w' where "query_and_upsert fuel cl cfg rs s = Some (Ok (), counted ef rs s w')"
    "ef w' = (ef (world s))((rs_Namespace rs, envoyFilterName rs) \<mapsto> x)"
    "strip_filter x = newEnvoyFilter rs (b64_encode bytes) services' (op_version cfg)"
    "sv w' = sv (world s)" "ig w' = ig (world s)"
proof -
  obtain w1 where 1: "GetFileDescriptorSet fuel (Backoff cl) (Hooks cl (replica_context rs)) (Net cl) (fst (getAddrOpts cfg rs))
      (pathPrefix cfg rs) (snd (getAddrOpts cfg rs)) (world s) = Some (Ok (fds, services), w1)"
      "sv w1 = sv (world s)" "ig w1 = ig (world s)" "ef w1 = ef (world s)"
    using q unfolding query_gives_def by blast
  obtain x w' where 2: "upsert_encoded cl cfg rs (b64_encode bytes) services' (s\<lparr>world := w1\<rparr>) =
      Some (Ok (), if ef w1 (rs_Namespace rs, envoyFilterName rs) = None
                   then gauge_up (s\<lparr>world := w'\<rparr>) else s\<lparr>world := w'\<rparr>)"
      "ef w' = (ef w1)((rs_Namespace rs, envoyFilterName rs) \<mapsto> x)"
      "strip_filter x = strip_filter (newEnvoyFilter rs (b64_encode bytes) services' (op_version cfg))"
      "(sv w', ig w') = (sv w1, ig w1)"
    by (rule filt.run_stores [where s = "s\<lparr>world := w1\<rparr>" and rs = rs and b = "b64_encode bytes"
        and ss = services' and cfg = cfg, OF healthyD(3) [OF h] strip_adopt(3)])
      (simp cong: if_cong)
  have enc: "upsertEnvoyFilter cl cfg rs fds services' = upsert_encoded cl cfg rs (b64_encode bytes) services'"
    by (simp add: upsertEnvoyFilter_def Base64Proto_def b)
  obtain addr opts where ao: "getAddrOpts cfg rs = (addr, opts)" by (cases "getAddrOpts cfg rs")
  have "on_world (GetFileDescriptorSet fuel (Backoff cl) (Hooks cl (replica_context rs)) (Net cl) addr (pathPrefix cfg rs) opts) s =
      Some (Ok (fds, services), s\<lparr>world := w1\<rparr>)"
    using 1(1) by (simp add: io_on_def ao)
  then have "query_and_upsert fuel cl cfg rs s = Some (Ok (), counted ef rs s w')"
    using 1(4) 2(1)
    by (simp add: query_and_upsert_def ao io_bind_def io_wrap_def io_outcome_def f enc counted_def)
  then show thesis using that 1 2(2-4) by (simp add: strip_new)
qed

lemma strip_service_meta:
  assumes "strip_service x = strip_service y"
  shows "om_Namespace (sv_meta x) = om_Namespace (sv_meta y)" "om_Name (sv_meta x) = om_Name (sv_meta y)"
  using arg_cong [OF assms, of "\<lambda>s. om_Namespace (sv_meta s)"] arg_cong [OF assms, of "\<lambda>s. om_Name (sv_meta s)"]
  by (simp_all add: strip_service_def)

lemma strip_ingress_meta:
  assumes "strip_ingress x = strip_ingress y"
  shows "om_Namespace (in_meta x) = om_Namespace (in_meta y)" "om_Name (in_meta x) = om_Name (in_meta y)"
  using arg_cong [OF assms, of "\<lambda>s. om_Namespace (in_meta s)"] arg_cong [OF assms, of "\<lambda>s. om_Name (in_meta s)"]
  by (simp_all add: strip_ingress_def)

text \<open>Creating the temporary objects, and removing them again.\<close>

lemma createService_stores:
  assumes "healthy cl sv ig ef"
  obtains x w' where "createService cl rs s = Some (Ok x, s\<lparr>world := w'\<rparr>)"
    "sv w' = (sv (world s))((rs_Namespace rs, rs_Name rs) \<mapsto> x)" "ig w' = ig (world s)" "ef w' = ef (world s)"
    "om_Namespace (sv_meta x) = rs_Namespace rs" "om_Name (sv_meta x) = rs_Name rs"
proof (rule service.run_stores [where s = s and rs = rs, OF healthyD(1) [OF assms] strip_adopt(1)], goal_cases)
  case (1 x w')
  show thesis by (rule that [of x w']) (use 1 strip_service_meta [of x "newService rs"] in simp_all)
qed

lemma createIngress_stores:
  assumes "healthy cl sv ig ef"
  obtains x w' where "createIngress cl rs s = Some (Ok x, s\<lparr>world := w'\<rparr>)"
    "ig w' = (ig (world s))((rs_Namespace rs, rs_Name rs) \<mapsto> x)" "sv w' = sv (world s)" "ef w' = ef (world s)"
    "om_Namespace (in_meta x) = rs_Namespace rs" "om_Name (in_meta x) = rs_Name rs"
proof (rule ingress.run_stores [where s = s and rs = rs, OF healthyD(2) [OF assms] strip_adopt(2)], goal_cases)
  case (1 x w')
  show thesis by (rule that [of x w']) (use 1 strip_ingress_meta [of x "newIngress rs"] in simp_all)
qed

lemma deleteService_removes:
  assumes "healthy cl sv ig ef" "om_Namespace (sv_meta x) = ns" "om_Name (sv_meta x) = nm"
  obtains w' where "deleteService cl x s = Some (s\<lparr>world := w'\<rparr>)"
    "sv w' = (sv (world s))((ns, nm) := None)" "ig w' = ig (world s)" "ef w' = ef (world s)"
  using that [of "snd (api_Delete (Services cl) ns nm (world s))"] assms(2,3)
    serves_objects_delete [OF healthyD(1) [OF assms(1)]]
  by (simp add: deleteService_def)

lemma deleteIngress_removes:
  assumes "healthy cl sv ig ef" "om_Namespace (in_meta x) = ns" "om_Name (in_meta x) = nm"
  obtains w' where "deleteIngress cl x s = Some (s\<lparr>world := w'\<rparr>)"
    "ig w' = (ig (world s))((ns, nm) := None)" "sv w' = sv (world s)" "ef w' = ef (world s)"
  using that [of "snd (api_Delete (Ingresses cl) ns nm (world s))"] assms(2,3)
    serves_objects_delete [OF healthyD(2) [OF assms(1)]]
  by (simp add: deleteIngress_def)

text \<open>The result of a successful \<open>upsertFilter\<close>, as a relation of the worlds before and after.\<close>

definition upserted where
  "upserted sv ig ef cfg rs bytes services' w w' \<longleftrightarrow>
     (\<exists>x. ef w' = (ef w)((rs_Namespace rs, envoyFilterName rs) \<mapsto> x) \<and>
        strip_filter x = newEnvoyFilter rs (b64_encode bytes) services' (op_version cfg)) \<and>
     sv w' = (sv w)((rs_Namespace rs, rs_Name rs) := None) \<and>
     ig w' = (if useIngress cfg then (ig w)((rs_Namespace rs, rs_Name rs) := None) else ig w)"

lemma with_ingress_stores:
  assumes h: "healthy cl sv ig ef" and q: "query_gives fuel cl cfg rs fds services sv ig ef"
    and f: "filterGRPCServices services rs = Ok services'" and b: "Marshal cl fds = Inr bytes"
  obtains x w' where
    "(if useIngress cfg then
        io_bind (io_wrap ''cannot create Ingress'' (createIngress cl rs)) (\<lambda>ingress.
          io_defer (deleteIngress cl ingress) (query_and_upsert fuel cl cfg rs))
      else query_and_upsert fuel cl cfg rs) s = Some (Ok (), counted ef rs s w')"
    "ef w' = (ef (world s))((rs_Namespace rs, envoyFilterName rs) \<mapsto> x)"
    "strip_filter x = newEnvoyFilter rs (b64_encode bytes) services' (op_version cfg)"
    "sv w' = sv (world s)"
    "ig w' = (if useIngress cfg then (ig (world s))((rs_Namespace rs, rs_Name rs) := None)
              else ig (world s))"
proof (cases "useIngress cfg")
  case False
  show thesis
  proof (rule query_and_upsert_stores [OF assms, of s])
    fix x w'
    assume "query_and_upsert fuel cl cfg rs s = Some (Ok (), counted ef rs s w')"
      "ef w' = (ef (world s))((rs_Namespace rs, envoyFilterName rs) \<mapsto> x)"
      "strip_filter x = newEnvoyFilter rs (b64_encode bytes) services' (op_version cfg)"
      "sv w' = sv (world s)" "ig w' = ig (world s)"
    then show thesis using that False by simp
  qed
next
  case True
  obtain i w1 where 1: "createIngress cl rs s = Some (Ok i, s\<lparr>world := w1\<rparr>)"
    "ig w1 = (ig (world s))((rs_Namespace rs, rs_Name rs) \<mapsto> i)" "sv w1 = sv (world s)" "ef w1 = ef (world s)"
    "om_Namespace (in_meta i) = rs_Namespace rs" "om_Name (in_meta i) = rs_Name rs"
    by (rule createIngress_stores [OF h])
  obtain x w2 where 2: "query_and_upsert fuel cl cfg rs (s\<lparr>world := w1\<rparr>) =
      Some (Ok (), counted ef rs (s\<lparr>world := w1\<rparr>) w2)"
    "ef w2 = (ef w1)((rs_Namespace rs, envoyFilterName rs) \<mapsto> x)"
    "strip_filter x = newEnvoyFilter rs (b64_encode bytes) services' (op_version cfg)"
    "sv w2 = sv w1" "ig w2 = ig w1"
    by (rule query_and_upsert_stores [OF assms, of "s\<lparr>world := w1\<rparr>"]) simp
  note finished = 2(1) [unfolded counted_again [of ef w1 s, OF 1(4)]]
  obtain w3 where 3: "deleteIngress cl i (counted ef rs s w2) = Some ((counted ef rs s w2)\<lparr>world := w3\<rparr>)"
    "ig w3 = (ig w2)((rs_Namespace rs, rs_Name rs) := None)" "sv w3 = sv w2" "ef w3 = ef w2"
    by (rule deleteIngress_removes [OF h 1(5,6), of "counted ef rs s w2"]) simp
  show thesis
  proof (rule that [of w3 x])
    show "(if useIngress cfg then
        io_bind (io_wrap ''cannot create Ingress'' (createIngress cl rs)) (\<lambda>ingress.
          io_defer (deleteIngress cl ingress) (query_and_upsert fuel cl cfg rs))
      else query_and_upsert fuel cl cfg rs) s = Some (Ok (), counted ef rs s w3)"
      using True 1(1) finished 3(1) by (simp add: io_bind_def io_wrap_def io_defer_def)
    show "ef w3 = (ef (world s))((rs_Namespace rs, envoyFilterName rs) \<mapsto> x)"
      using 1(4) 2(2) 3(4) by (simp only:)
    show "sv w3 = sv (world s)" using 1(3) 2(4) 3(3) by (simp only:)
    show "ig w3 = (if useIngress cfg then (ig (world s))((rs_Namespace rs, rs_Name rs) := None)
              else ig (world s))"
      unfolding 3(2) 2(5) 1(2) using True by (simp only: fun_upd_upd if_True)
  qed (rule 2(3))
qed

lemma upsertFilter_success:
  assumes "healthy cl sv ig ef" and "query_gives fuel cl cfg rs fds services sv ig ef"
    and "filterGRPCServices services rs = Ok services'" and "Marshal cl fds = Inr bytes"
  shows "\<exists>w'. upsertFilter fuel cl cfg rs s = Some (Ok (), counted ef rs s w') \<and>
    upserted sv ig ef cfg rs bytes services' (world s) w'"
proof -
  obtain t w1 where 1: "createService cl rs s = Some (Ok t, s\<lparr>world := w1\<rparr>)"
    "sv w1 = (sv (world s))((rs_Namespace rs, rs_Name rs) \<mapsto> t)" "ig w1 = ig (world s)" "ef w1 = ef (world s)"
    "om_Namespace (sv_meta t) = rs_Namespace rs" "om_Name (sv_meta t) = rs_Name rs"
    by (rule createService_stores [OF assms(1)])
  define body where "body = (if useIngress cfg then
        io_bind (io_wrap ''cannot create Ingress'' (createIngress cl rs)) (\<lambda>ingress.
          io_defer (deleteIngress cl ingress) (query_and_upsert fuel cl cfg rs))
      else query_and_upsert fuel cl cfg rs)"
  obtain x w2 where 2: "body (s\<lparr>world := w1\<rparr>) = Some (Ok (), counted ef rs (s\<lparr>world := w1\<rparr>) w2)"
    "ef w2 = (ef w1)((rs_Namespace rs, envoyFilterName rs) \<mapsto> x)"
    "strip_filter x = newEnvoyFilter rs (b64_encode bytes) services' (op_version cfg)"
    "sv w2 = sv w1"
    "ig w2 = (if useIngress cfg then (ig w1)((rs_Namespace rs, rs_Name rs) := None) else ig w1)"
    unfolding body_def by (rule with_ingress_stores [OF assms, of "s\<lparr>world := w1\<rparr>"]) simp
  note finished = 2(1) [unfolded counted_again [of ef w1 s, OF 1(4)]]
  obtain w3 where 3: "deleteService cl t (counted ef rs s w2) = Some ((counted ef rs s w2)\<lparr>world := w3\<rparr>)"
    "sv w3 = (sv w2)((rs_Namespace rs, rs_Name rs) := None)" "ig w3 = ig w2" "ef w3 = ef w2"
    by (rule deleteService_removes [OF assms(1) 1(5,6), of "counted ef rs s w2"]) simp
  have "upsertFilter fuel cl cfg rs s = Some (Ok (), counted ef rs s w3)"
    using 1(1) finished 3(1) unfolding upsertFilter_def body_def [symmetric]
    by (simp add: io_bind_def io_wrap_def io_defer_def)
  moreover have "upserted sv ig ef cfg rs bytes services' (world s) w3"
    unfolding upserted_def 3(2-4) 2(2,4,5) 1(2-4) using 2(3) by auto
  ultimately show ?thesis by blast
qed

text \<open>
  C4. Upsert: against healthy API servers, when the reflection query gives \<open>fds\<close> and \<open>services\<close>,
  the selection of services does not panic and the descriptor set can be marshalled,
  \<open>upsertFilter\<close> succeeds. Then the EnvoyFilter made for the ReplicaSet from the encoded
  descriptor set is stored under its name, whether or not one was there before; no temporary
  Service or Ingress is left; no other object changed; and of the operator's state nothing
  changed but the gauge, which counts the filter when it is new.
\<close>

theorem upsertFilter_stores:
  assumes "healthy cl sv ig ef" and "query_gives fuel cl cfg rs fds services sv ig ef"
    and "filterGRPCServices services rs = Ok services'" and "Marshal cl fds = Inr bytes"
  shows "\<exists>w'. upsertFilter fuel cl cfg rs s = Some (Ok (), counted ef rs s w') \<and>
    upserted sv ig ef cfg rs bytes services' (world s) w'"
  using assms by (rule upsertFilter_success)

lemma sample_healthy: "healthy sample_cluster kw_services kw_ingresses kw_filters"
  unfolding healthy_def sample_cluster_def
  by (intro conjI) (simp_all add: mem_api_serves)

lemma sample_query_gives:
  "query_gives 1 sample_cluster cfg rs [] [''p.S''] kw_services kw_ingresses kw_filters"
  by (simp add: query_gives_def quiet_query del: One_nat_def)

theorem upsertFilter_stores_witness:
  "\<exists>w'. upsertFilter 1 sample_cluster sample_config plain_rs sample_state =
      Some (Ok (), counted kw_filters plain_rs sample_state w') \<and>
    upserted kw_services kw_ingresses kw_filters sample_config plain_rs [1, 2, 3] [''p.S'']
      (world sample_state) w'"
  by (rule upsertFilter_stores [OF sample_healthy sample_query_gives plain_rs_keeps_services])
    (simp add: sample_cluster_def)

theorem temporary_objects_removed_witness:
  "\<exists>r s' w (x::kservice). upsertFilter 1 sample_cluster sample_config plain_rs sample_state = Some (r, s') \<and>
    om_Name (sv_meta x) = rs_Name plain_rs \<and>
    world s' = snd (api_Delete (Services sample_cluster) (om_Namespace (sv_meta x)) (om_Name (sv_meta x)) w) \<and>
    kw_services (world s') (om_Namespace (sv_meta x), om_Name (sv_meta x)) = None"
proof -
  obtain x w1 where x: "createService sample_cluster plain_rs sample_state =
      Some (Ok x, sample_state\<lparr>world := w1\<rparr>)" "om_Name (sv_meta x) = rs_Name plain_rs"
    by (rule createService_stores [OF sample_healthy])
  have "query_returns 1 sample_cluster" by (simp add: query_returns_def io_total_def quiet_query del: One_nat_def)
  then obtain r s' where up: "upsertFilter 1 sample_cluster sample_config plain_rs sample_state = Some (r, s')"
    using io_totalE [OF upsertFilter_total] by blast
  note gone = serves_objects_delete [OF healthyD(1) [OF sample_healthy]]
    serves_objects_delete [OF healthyD(2) [OF sample_healthy]]
    serves_objects_delete(2) [OF healthyD(1) [OF sample_healthy], simplified]
  have "\<exists>t. s' = t\<lparr>world := snd (api_Delete (Services sample_cluster) (om_Namespace (sv_meta x))
      (om_Name (sv_meta x)) (world t))\<rparr>"
  proof -
    have "fst (api_Delete (Services sample_cluster) ns nm w) = None \<Longrightarrow>
        kw_services (snd (api_Delete (Services sample_cluster) ns nm w)) (ns, nm) = None"
      "fst (api_Delete (Ingresses sample_cluster) ns nm w) = None \<Longrightarrow>
        kw_ingresses (snd (api_Delete (Ingresses sample_cluster) ns nm w)) (ns, nm) = None"
      "kw_ingresses (snd (api_Delete (Services sample_cluster) ns nm w)) = kw_ingresses w" for ns nm w
      by (simp_all add: gone)
    from temporary_objects_removed [where sv = kw_services and ig = kw_ingresses, OF this up x(1)]
    show ?thesis unfolding Let_def by blast
  qed
  then obtain t where "s' = t\<lparr>world := snd (api_Delete (Services sample_cluster) (om_Namespace (sv_meta x))
      (om_Name (sv_meta x)) (world t))\<rparr>" ..
  then have t: "world s' =
      snd (api_Delete (Services sample_cluster) (om_Namespace (sv_meta x)) (om_Name (sv_meta x)) (world t))" by simp
  have "kw_services (world s') (om_Namespace (sv_meta x), om_Name (sv_meta x)) = None" unfolding t by (simp add: gone)
  with up x(2) t show ?thesis by blast
qed

end
