(* ===== verification/Operator.thy ===== *)
theory Operator
  imports UpsertSpec
begin

text \<open>
  The operator (cmd/transflect-operator/operator.go): which ReplicaSets are queued, how a worker
  takes one from the queue, decides whether its EnvoyFilter has to change, upserts or deletes the
  filter and records the result in the active state, and what happens when a deployment is
  deleted. The informer caches, the work queue and the key functions of client-go are a
  parameter. \<open>Get\<close> of the queue blocks until there is an item or the queue is shut down; the model
  has the states in which it has returned.
\<close>

section \<open>Queueing\<close>

record 'w informer =
  SplitMetaNamespaceKey :: "string \<Rightarrow> goerr + string \<times> string"
  MetaNamespaceKeyFunc :: "string \<Rightarrow> string \<Rightarrow> goerr + string"
  ListerGet :: "string \<Rightarrow> string \<Rightarrow> 'w \<Rightarrow> goerr + replicaset"
  QueueGet :: "'w \<Rightarrow> string iface option \<times> 'w"
  QueueDone :: "string iface \<Rightarrow> 'w \<Rightarrow> 'w"
  QueueAdd :: "string \<Rightarrow> 'w \<Rightarrow> 'w"

definition shouldEnqueue :: "replicaset \<Rightarrow> bool" where
  "shouldEnqueue rs = (if rs_ReadyReplicas rs = 0 then False else snd (getDeploymentKey rs))"

definition enqueue :: "'w informer \<Rightarrow> replicaset iface \<Rightarrow> 'w op_state \<Rightarrow> 'w op_state" where
  "enqueue ic v s =
     (case v of
        IOther \<Rightarrow> s
      | IVal rs \<Rightarrow>
          if \<not> shouldEnqueue rs then s
          else
            let key = (case MetaNamespaceKeyFunc ic (rs_Namespace rs) (rs_Name rs) of
                         Inl err \<Rightarrow> [] | Inr key \<Rightarrow> key)
            in s\<lparr>world := QueueAdd ic key (world s)\<rparr>)"

definition enqueueWithOld ::
    "'w informer \<Rightarrow> replicaset iface \<Rightarrow> replicaset iface \<Rightarrow> 'w op_state \<Rightarrow> 'w op_state" where
  "enqueueWithOld ic old v s = enqueue ic v s"

section \<open>Processing a ReplicaSet\<close>

definition processed_Inc :: "string \<Rightarrow> string \<Rightarrow> ('w op_state, unit) io" where
  "processed_Inc status typ = io_modify (\<lambda>s. s\<lparr>counters := (counters s)\<lparr>processedCounter :=
     (\<lambda>st ty. if st = status \<and> ty = typ then processedCounter (counters s) st ty + 1
              else processedCounter (counters s) st ty)\<rparr>\<rparr>)"

definition preprocessErr_Inc :: "('w op_state, unit) io" where
  "preprocessErr_Inc = io_modify (\<lambda>s. s\<lparr>counters :=
     (counters s)\<lparr>preprocessErrCounter := preprocessErrCounter (counters s) + 1\<rparr>\<rparr>)"

definition ignored_Inc :: "('w op_state, unit) io" where
  "ignored_Inc = io_modify (\<lambda>s. s\<lparr>counters :=
     (counters s)\<lparr>ignoredCounter := ignoredCounter (counters s) + 1\<rparr>\<rparr>)"

definition shouldProcessReplicaset :: "'w op_state \<Rightarrow> replicaset \<Rightarrow> string \<Rightarrow> bool" where
  "shouldProcessReplicaset s rs key =
     (if rs_ReadyReplicas rs = 0 then False
      else
        let port = grpcPort rs; v = activeState s key in
        case v of
          Some active \<Rightarrow>
            let revision = deployRevision rs in
            if revision = 0 then False
            else if revision < ae_revision active then False
            else if active = newActiveEntry rs then False
            else True
        | None \<Rightarrow> if port = 0 then False else True)"

definition activeState_Store :: "string \<Rightarrow> active_entry \<Rightarrow> ('w op_state, unit) io" where
  "activeState_Store key entry = io_modify (\<lambda>s. s\<lparr>activeState := (activeState s)(key \<mapsto> entry)\<rparr>)"

definition activeState_Delete :: "string \<Rightarrow> ('w op_state, unit) io" where
  "activeState_Delete key = io_modify (\<lambda>s. s\<lparr>activeState := (activeState s)(key := None)\<rparr>)"

definition locker_Remove :: "string \<Rightarrow> ('w op_state, unit) io" where
  "locker_Remove key = io_modify (\<lambda>s. s\<lparr>deploymentLocker := Remove key (deploymentLocker s)\<rparr>)"

definition processReplicaset ::
    "nat \<Rightarrow> ('w, 'b, 'c, 's) cluster \<Rightarrow> op_config \<Rightarrow> replicaset \<Rightarrow> string \<Rightarrow> ('w op_state, unit) io" where
  "processReplicaset fuel cl cfg rs key =
     (if grpcPort rs = 0 then
        io_bind (io_try (deleteFilter cl rs)) (\<lambda>r.
        io_bind (case r of Inl err \<Rightarrow> processed_Inc ''error'' ''delete'' | Inr _ \<Rightarrow> io_return ()) (\<lambda>_.
        io_bind (activeState_Delete key) (\<lambda>_.
        io_bind (locker_Remove key) (\<lambda>_.
        processed_Inc ''success'' ''delete''))))
      else
        io_bind (io_try (upsertFilter fuel cl cfg rs)) (\<lambda>r.
          case r of
            Inl err \<Rightarrow> io_bind (processed_Inc ''error'' ''upsert'') (\<lambda>_. io_fail err)
          | Inr _ \<Rightarrow>
              io_bind (activeState_Store key (newActiveEntry rs)) (\<lambda>_.
              processed_Inc ''success'' ''upsert'')))"

section \<open>The worker\<close>

definition getReplicaset :: "'w informer \<Rightarrow> string \<Rightarrow> ('w op_state, replicaset) io" where
  "getReplicaset ic key s =
     (case SplitMetaNamespaceKey ic key of
        Inl err \<Rightarrow> Some (Fail (WrapError ''invalid key format'' err), s)
      | Inr (namespace, name) \<Rightarrow>
          (case ListerGet ic namespace name (world s) of
             Inl err \<Rightarrow> Some (Fail (WrapError (''cannot GET replicaset '' @ name) err), s)
           | Inr rs \<Rightarrow> Some (Ok rs, s)))"

text \<open>\<open>deploymentLocker.Lock\<close> does not return while another goroutine holds the lock.\<close>

definition locker_Lock :: "string \<Rightarrow> ('w op_state, unit) io" where
  "locker_Lock key s =
     (case Lock key (deploymentLocker s) of
        None \<Rightarrow> None
      | Some m \<Rightarrow> Some (Ok (), s\<lparr>deploymentLocker := m\<rparr>))"

definition locker_Unlock :: "string \<Rightarrow> ('w op_state, unit) io" where
  "locker_Unlock key = io_on deploymentLocker (\<lambda>m s. s\<lparr>deploymentLocker := m\<rparr>) (Unlock key)"

text \<open>The second half of \<open>next\<close>, from the deployment key on; an error is only logged.\<close>

definition handle_replicaset ::
    "nat \<Rightarrow> ('w, 'b, 'c, 's) cluster \<Rightarrow> op_config \<Rightarrow> replicaset \<Rightarrow> ('w op_state, bool) io" where
  "handle_replicaset fuel cl cfg rs =
     (let key = deployKey rs in
      io_bind (locker_Lock key) (\<lambda>_.
      io_finally (locker_Unlock key) (\<lambda>s.
        if \<not> shouldProcessReplicaset s rs key
        then io_bind ignored_Inc (\<lambda>_. io_return True) s
        else io_bind (io_try (processReplicaset fuel cl cfg rs key)) (\<lambda>_. io_return True) s)))"

definition next_replicaset ::
    "nat \<Rightarrow> ('w, 'b, 'c, 's) cluster \<Rightarrow> op_config \<Rightarrow> 'w informer \<Rightarrow> ('w op_state, bool) io" where
  "next_replicaset fuel cl cfg ic s =
     (case QueueGet ic (world s) of
        (None, w') \<Rightarrow> Some (Ok False, s\<lparr>world := w'\<rparr>)
      | (Some key, w') \<Rightarrow>
          io_defer (\<lambda>s. Some (s\<lparr>world := QueueDone ic key (world s)\<rparr>))
            (case key of
               IOther \<Rightarrow> io_bind preprocessErr_Inc (\<lambda>_. io_return True)
             | IVal rsName \<Rightarrow>
                 io_bind (io_try (getReplicaset ic rsName)) (\<lambda>r.
                   case r of
                     Inl err \<Rightarrow> io_bind preprocessErr_Inc (\<lambda>_. io_return True)
                   | Inr rs \<Rightarrow> handle_replicaset fuel cl cfg rs))
            (s\<lparr>world := w'\<rparr>))"

partial_function (option) runWorker ::
    "nat \<Rightarrow> ('w, 'b, 'c, 's) cluster \<Rightarrow> op_config \<Rightarrow> 'w informer \<Rightarrow> 'w op_state \<Rightarrow>
     (unit outcome \<times> 'w op_state) option" where
  "runWorker fuel cl cfg ic s =
     (case next_replicaset fuel cl cfg ic s of
        None \<Rightarrow> None
      | Some (Ok continue, s') \<Rightarrow>
          if continue then runWorker fuel cl cfg ic s'
          else Some (Ok (), s'\<lparr>wg := wg s' - 1\<rparr>)
      | Some (Fail e, s') \<Rightarrow> Some (Fail e, s')
      | Some (Panic p, s') \<Rightarrow> Some (Panic p, s'))"

section \<open>Deleted deployments\<close>

definition cleanupDeployment :: "'w informer \<Rightarrow> deployment iface \<Rightarrow> 'w op_state \<Rightarrow> 'w op_state" where
  "cleanupDeployment ic v s =
     (case v of
        IOther \<Rightarrow> s
      | IVal d \<Rightarrow>
          (case MetaNamespaceKeyFunc ic (dp_Namespace d) (dp_Name d) of
             Inl err \<Rightarrow> s
           | Inr key \<Rightarrow>
               s\<lparr>activeState := (activeState s)(key := None),
                 deploymentLocker := Remove key (deploymentLocker s)\<rparr>))"

end
