(* ===== verification/OperatorSpec.thy ===== *)
theory OperatorSpec
  imports Operator
begin

text \<open>
  What the operator guarantees: the decision which ReplicaSets are processed, the outcomes of
  processing one, the invariant of the active state, the lock discipline of \<open>next\<close>, and what is
  left of a deleted deployment.
\<close>

section \<open>The steps of a worker\<close>

lemma shouldProcess_iff:
  "shouldProcessReplicaset s rs key \<longleftrightarrow> rs_ReadyReplicas rs \<noteq> 0 \<and>
     (case activeState s key of
        None \<Rightarrow> grpcPort rs \<noteq> 0
      | Some a \<Rightarrow> deployRevision rs \<noteq> 0 \<and> ae_revision a \<le> deployRevision rs \<and> a \<noteq> newActiveEntry rs)"
  by (auto simp: shouldProcessReplicaset_def Let_def split: option.split)

lemmas step_defs = processed_Inc_def preprocessErr_Inc_def ignored_Inc_def activeState_Store_def
  activeState_Delete_def locker_Remove_def

lemma deleteFilter_outcome:
  assumes "deleteFilter cl rs s = Some (r, s')"
  shows "r = Ok () \<or> (\<exists>err. r = Fail err)"
  using assms unfolding deleteFilter_def Let_def filtersGauge_Add_def
  by (auto simp: io_unfold split: option.splits sum.splits prod.splits if_splits)

lemma process_cases:
  assumes "processReplicaset fuel cl cfg rs key s = Some (r, s')"
  obtains (deleted) "grpcPort rs = 0" "r = Ok ()" "activeState s' = (activeState s)(key := None)"
      "deploymentLocker s' = Remove key (deploymentLocker s)"
  | (stored) "grpcPort rs \<noteq> 0" "r = Ok ()" "activeState s' = (activeState s)(key \<mapsto> newActiveEntry rs)"
      "deploymentLocker s' = deploymentLocker s"
  | (failed) "grpcPort rs \<noteq> 0" "r \<noteq> Ok ()" "activeState s' = activeState s"
      "deploymentLocker s' = deploymentLocker s"
proof (cases "grpcPort rs = 0")
  case True
  obtain d t where d: "deleteFilter cl rs s = Some (d, t)"
    using deleteFilter_total by (rule io_totalE)
  have keep: "activeState t = activeState s" "deploymentLocker t = deploymentLocker s"
    using io_keepsD [OF deleteFilter_keeps [OF internal_fields(1)] d]
      io_keepsD [OF deleteFilter_keeps [OF internal_fields(2)] d] by simp_all
  from deleteFilter_outcome [OF d] show thesis
  proof
    assume "d = Ok ()"
    then show thesis using deleted True assms d keep
      by (auto simp: processReplicaset_def io_unfold step_defs)
  next
    assume "\<exists>err. d = Fail err"
    then show thesis using deleted True assms d keep
      by (auto simp: processReplicaset_def io_unfold step_defs)
  qed
next
  case False
  then obtain u t where u: "upsertFilter fuel cl cfg rs s = Some (u, t)"
    using assms by (auto simp: processReplicaset_def io_unfold split: option.splits)
  have keep: "activeState t = activeState s" "deploymentLocker t = deploymentLocker s"
    using io_keepsD [OF upsertFilter_keeps [OF internal_fields(1)] u]
      io_keepsD [OF upsertFilter_keeps [OF internal_fields(2)] u] by simp_all
  show thesis
  proof (cases u)
    case (Ok x)
    then show thesis using stored False assms u keep
      by (auto simp: processReplicaset_def io_unfold step_defs)
  next
    case (Fail e)
    then show thesis using failed False assms u keep
      by (auto simp: processReplicaset_def io_unfold step_defs)
  next
    case (Panic p)
    then show thesis using failed False assms u keep
      by (auto simp: processReplicaset_def io_unfold step_defs)
  qed
qed

lemma process_total [io_frames]:
  "query_returns fuel cl \<Longrightarrow> io_total (processReplicaset fuel cl cfg rs key)"
  unfolding processReplicaset_def step_defs
  by (auto intro!: io_frames split: sum.split)

text \<open>
  Settled: once \<open>processReplicaset\<close> has succeeded for a ReplicaSet, the ReplicaSet is not
  processed again until the active state of its deployment or the ReplicaSet itself changes.
  This is what lets every resynchronisation of the informer queue all ReplicaSets again.
\<close>

theorem processed_is_settled:
  assumes "processReplicaset fuel cl cfg rs key s = Some (Ok (), s')"
    and "activeState t key = activeState s' key"
  shows "\<not> shouldProcessReplicaset t rs key"
  using assms(1) by (cases rule: process_cases) (auto simp: shouldProcess_iff assms(2))

section \<open>The invariant of the active state\<close>

text \<open>
  Every entry has a port and a revision that is not negative, and the lock map is well-formed.
\<close>

definition op_inv :: "'w op_state \<Rightarrow> bool" where
  "op_inv s \<longleftrightarrow> mm_wf (deploymentLocker s) \<and>
     (\<forall>k a. activeState s k = Some a \<longrightarrow>
        ae_grpcPort a \<noteq> 0 \<and> unat (ae_grpcPort a) \<le> 65535 \<and> 0 \<le> ae_revision a)"

lemma op_invI:
  assumes "mm_wf (deploymentLocker s)"
    and "\<And>k a. activeState s k = Some a \<Longrightarrow> ae_grpcPort a \<noteq> 0 \<and> unat (ae_grpcPort a) \<le> 65535 \<and> 0 \<le> ae_revision a"
  shows "op_inv s"
  using assms unfolding op_inv_def by blast

lemma op_invD:
  assumes "op_inv s"
  shows "mm_wf (deploymentLocker s)"
    "activeState s k = Some a \<Longrightarrow> ae_grpcPort a \<noteq> 0 \<and> unat (ae_grpcPort a) \<le> 65535 \<and> 0 \<le> ae_revision a"
  using assms unfolding op_inv_def by blast+

lemma op_inv_cong:
  "activeState t = activeState s \<Longrightarrow> deploymentLocker t = deploymentLocker s \<Longrightarrow> op_inv t = op_inv s"
  by (simp add: op_inv_def)

lemma newActiveEntry_valid:
  "grpcPort rs \<noteq> 0 \<Longrightarrow> ae_grpcPort (newActiveEntry rs) \<noteq> 0 \<and>
     unat (ae_grpcPort (newActiveEntry rs)) \<le> 65535 \<and> 0 \<le> ae_revision (newActiveEntry rs)"
  by (simp add: grpcPort_def grpcPortStr_le)

lemma process_inv:
  assumes "op_inv s" "processReplicaset fuel cl cfg rs key s = Some (r, s')"
  shows "op_inv s'"
  using assms(2)
proof (cases rule: process_cases)
  case deleted
  then show ?thesis using op_invD [OF assms(1)]
    by (intro op_invI) (auto simp: Remove_wf split: if_splits)
next
  case stored
  show ?thesis
  proof (rule op_invI)
    show "mm_wf (deploymentLocker s')" using op_invD(1) [OF assms(1)] stored(4) by simp
  next
    fix k a
    assume "activeState s' k = Some a"
    then consider "a = newActiveEntry rs" | "activeState s k = Some a"
      using stored(3) by (cases "k = key") simp_all
    then show "ae_grpcPort a \<noteq> 0 \<and> unat (ae_grpcPort a) \<le> 65535 \<and> 0 \<le> ae_revision a"
      using newActiveEntry_valid [OF stored(1)] op_invD(2) [OF assms(1)] by cases blast+
  qed
next
  case failed
  then show ?thesis using assms(1) op_inv_cong by blast
qed

section \<open>What a worker does with a ReplicaSet\<close>

text \<open>
  The parts of a call of \<open>handle_replicaset\<close> that returned: the lock is taken, the ReplicaSet is
  ignored or processed, and the lock is released or was removed.
\<close>

lemma handle_cases:
  assumes "op_inv s" "handle_replicaset fuel cl cfg rs s = Some (r, s')"
  obtains (ignored) m where "Lock (deployKey rs) (deploymentLocker s) = Some m"
      "\<not> shouldProcessReplicaset s rs (deployKey rs)" "r = Ok True"
      "activeState s' = activeState s" "Unlock (deployKey rs) m = Some (Ok (), deploymentLocker s')"
      "holds (deployKey rs) m"
  | (processed) m q t where "Lock (deployKey rs) (deploymentLocker s) = Some m"
      "shouldProcessReplicaset s rs (deployKey rs)"
      "processReplicaset fuel cl cfg rs (deployKey rs) (s\<lparr>deploymentLocker := m\<rparr>) = Some (q, t)"
      "r = (case q of Panic p \<Rightarrow> Panic p | _ \<Rightarrow> Ok True)"
      "activeState s' = activeState t" "Unlock (deployKey rs) (deploymentLocker t) = Some (Ok (), deploymentLocker s')"
      "holds (deployKey rs) m"
proof -
  let ?k = "deployKey rs"
  obtain m where m: "Lock ?k (deploymentLocker s) = Some m"
    using assms(2) by (auto simp: handle_replicaset_def locker_Lock_def io_bind_def Let_def split: option.splits)
  have held: "holds ?k m" using m by (rule Lock_holds)
  have unlock: "\<exists>m'. Unlock ?k (deploymentLocker t) = Some (Ok (), m')"
    if "deploymentLocker t = m \<or> deploymentLocker t = Remove ?k m" for t :: "'a op_state"
    using that Unlock_releases [OF held] by auto
  let ?s = "s\<lparr>deploymentLocker := m\<rparr>"
  have sp: "shouldProcessReplicaset ?s rs ?k = shouldProcessReplicaset s rs ?k"
    by (simp add: shouldProcess_iff)
  have run: "io_finally (locker_Unlock ?k) (\<lambda>s.
        if \<not> shouldProcessReplicaset s rs ?k then io_bind ignored_Inc (\<lambda>_. io_return True) s
        else io_bind (io_try (processReplicaset fuel cl cfg rs ?k)) (\<lambda>_. io_return True) s) ?s = Some (r, s')"
    using assms(2) m by (simp add: handle_replicaset_def locker_Lock_def io_bind_def Let_def)
  show thesis
  proof (cases "shouldProcessReplicaset s rs ?k")
    case False
    obtain m' where m': "Unlock ?k m = Some (Ok (), m')" using unlock [of ?s] by auto
    then have "r = Ok True \<and> activeState s' = activeState s \<and> deploymentLocker s' = m'"
      using run False sp by (auto simp: io_finally_def locker_Unlock_def io_unfold step_defs)
    then show thesis using ignored [OF m False] held m' by blast
  next
    case True
    then obtain q t where q: "processReplicaset fuel cl cfg rs ?k ?s = Some (q, t)"
      using run sp by (auto simp: io_finally_def io_unfold split: option.splits)
    have "deploymentLocker t = m \<or> deploymentLocker t = Remove ?k m"
      using q by (cases rule: process_cases) simp_all
    then obtain m' where m': "Unlock ?k (deploymentLocker t) = Some (Ok (), m')" using unlock by blast
    have "r = (case q of Panic p \<Rightarrow> Panic p | _ \<Rightarrow> Ok True) \<and> s' = t\<lparr>deploymentLocker := m'\<rparr>"
      using run True sp q m'
      by (cases q) (simp_all add: io_finally_def locker_Unlock_def io_unfold)
    then show thesis using processed [OF m True q] m' held by simp
  qed
qed

text \<open>What the call leaves behind, in the two cases.\<close>

lemma handle_effect:
  assumes "op_inv s" "handle_replicaset fuel cl cfg rs s = Some (r, s')"
  shows "op_inv s'" "\<forall>j. j \<noteq> deployKey rs \<longrightarrow> activeState s' j = activeState s j"
    "activeState s' (deployKey rs) = activeState s (deployKey rs) \<or>
     shouldProcessReplicaset s rs (deployKey rs) \<and>
       activeState s' (deployKey rs) = (if grpcPort rs = 0 then None else Some (newActiveEntry rs))"
    "\<not> holds (deployKey rs) (deploymentLocker s')"
    "j \<noteq> deployKey rs \<Longrightarrow> holds j (deploymentLocker s') = holds j (deploymentLocker s)"
    "(\<exists>p. r = Panic p) \<or> r = Ok True"
proof -
  let ?k = "deployKey rs"
  have wf: "mm_wf (deploymentLocker s)" using op_invD(1) [OF assms(1)] .
  have "op_inv s' \<and> (\<forall>j. j \<noteq> ?k \<longrightarrow> activeState s' j = activeState s j) \<and>
    (activeState s' ?k = activeState s ?k \<or> shouldProcessReplicaset s rs ?k \<and>
       activeState s' ?k = (if grpcPort rs = 0 then None else Some (newActiveEntry rs))) \<and>
    \<not> holds ?k (deploymentLocker s') \<and>
    (\<forall>j. j \<noteq> ?k \<longrightarrow> holds j (deploymentLocker s') = holds j (deploymentLocker s)) \<and>
    ((\<exists>p. r = Panic p) \<or> r = Ok True)"
    using assms
  proof (cases rule: handle_cases)
    case (ignored m)
    have "mm_wf m" using wf ignored(1) by (rule Lock_wf)
    then have "mm_wf (deploymentLocker s')" using ignored(5) by (rule Unlock_wf)
    then have "op_inv s'" using assms(1) ignored(4) by (simp add: op_inv_def)
    then show ?thesis
      using ignored Unlock_held(1,3) [OF \<open>mm_wf m\<close> ignored(6,5)] Lock_others [OF wf ignored(1)] by simp
  next
    case (processed m q t)
    have m: "mm_wf m" using wf processed(1) by (rule Lock_wf)
    then have "op_inv (s\<lparr>deploymentLocker := m\<rparr>)" using assms(1) by (simp add: op_inv_def)
    then have t: "op_inv t" using processed(3) by (rule process_inv)
    then have t': "mm_wf (deploymentLocker t)" by (rule op_invD(1))
    then have "mm_wf (deploymentLocker s')" using processed(6) by (rule Unlock_wf)
    then have inv: "op_inv s'" using t processed(5) by (simp add: op_inv_def)
    have others: "\<forall>j. j \<noteq> ?k \<longrightarrow> holds j (deploymentLocker t) = holds j m"
      using processed(3) by (cases rule: process_cases) simp_all
    have free: "\<not> holds ?k (deploymentLocker s')"
    proof (cases "holds ?k (deploymentLocker t)")
      case True
      then show ?thesis using Unlock_held(3) [OF t' _ processed(6)] by simp
    next
      case False
      from processed(6) show ?thesis
        by (cases rule: Unlock_cases) (use False in \<open>auto simp: holds_def\<close>)
    qed
    have "\<forall>j. j \<noteq> ?k \<longrightarrow> holds j (deploymentLocker s') = holds j (deploymentLocker s)"
      using others Unlock_others [OF t' processed(6)] Lock_others [OF wf processed(1)] by simp
    moreover have "(\<forall>j. j \<noteq> ?k \<longrightarrow> activeState s' j = activeState s j) \<and>
      (activeState s' ?k = activeState s ?k \<or>
       activeState s' ?k = (if grpcPort rs = 0 then None else Some (newActiveEntry rs)))"
      using processed(3) by (cases rule: process_cases) (simp_all add: processed(5))
    ultimately show ?thesis using inv free processed(2,4) by (cases q) simp_all
  qed
  then show "op_inv s'" "\<forall>j. j \<noteq> ?k \<longrightarrow> activeState s' j = activeState s j"
    "activeState s' ?k = activeState s ?k \<or> shouldProcessReplicaset s rs ?k \<and>
       activeState s' ?k = (if grpcPort rs = 0 then None else Some (newActiveEntry rs))"
    "\<not> holds ?k (deploymentLocker s')"
    "j \<noteq> ?k \<Longrightarrow> holds j (deploymentLocker s') = holds j (deploymentLocker s)"
    "(\<exists>p. r = Panic p) \<or> r = Ok True" by blast+
qed

lemma handle_returns:
  assumes "op_inv s" "\<not> holds (deployKey rs) (deploymentLocker s)" "query_returns fuel cl"
  shows "handle_replicaset fuel cl cfg rs s \<noteq> None"
proof -
  let ?k = "deployKey rs"
  obtain m where m: "Lock ?k (deploymentLocker s) = Some m"
    using Lock_free [OF op_invD(1) [OF assms(1)] assms(2)] by blast
  have "io_total (locker_Unlock ?k :: ('a op_state, unit) io)"
    by (simp add: io_total_def locker_Unlock_def io_on_def Unlock_def mutex_Unlock_def split: option.split)
  then have "io_total (io_finally (locker_Unlock ?k) (\<lambda>s :: 'a op_state.
      if \<not> shouldProcessReplicaset s rs ?k then io_bind ignored_Inc (\<lambda>_. io_return True) s
      else io_bind (io_try (processReplicaset fuel cl cfg rs ?k)) (\<lambda>_. io_return True) s))"
    unfolding ignored_Inc_def by (intro io_frames assms(3))
  then show ?thesis
    using m by (simp add: handle_replicaset_def locker_Lock_def Let_def io_bind_def io_total_def)
qed

lemma handle_blocks:
  "holds (deployKey rs) (deploymentLocker s) \<Longrightarrow> handle_replicaset fuel cl cfg rs s = None"
  by (simp add: handle_replicaset_def locker_Lock_def Let_def io_bind_def Lock_blocks)

section \<open>The worker's step\<close>

lemma getReplicaset_cases:
  obtains (found) rs where "getReplicaset ic key s = Some (Ok rs, s)"
  | (failed) err where "getReplicaset ic key s = Some (Fail err, s)"
proof (cases "SplitMetaNamespaceKey ic key")
  case (Inl err)
  then show thesis using failed by (simp add: getReplicaset_def)
next
  case (Inr nn)
  then show thesis using failed found
    by (cases nn; cases "ListerGet ic (fst nn) (snd nn) (world s)") (simp_all add: getReplicaset_def)
qed

lemma next_cases:
  assumes "next_replicaset fuel cl cfg ic s = Some (r, s')"
  obtains (shutdown) w where "QueueGet ic (world s) = (None, w)" "r = Ok False" "s' = s\<lparr>world := w\<rparr>"
  | (skipped) key w where "QueueGet ic (world s) = (Some key, w)" "r = Ok True"
      "s' = s\<lparr>counters := (counters s)\<lparr>preprocessErrCounter := preprocessErrCounter (counters s) + 1\<rparr>,
               world := QueueDone ic key w\<rparr>"
  | (handled) n w rs t where "QueueGet ic (world s) = (Some (IVal n), w)"
      "getReplicaset ic n (s\<lparr>world := w\<rparr>) = Some (Ok rs, s\<lparr>world := w\<rparr>)"
      "handle_replicaset fuel cl cfg rs (s\<lparr>world := w\<rparr>) = Some (r, t)"
      "s' = t\<lparr>world := QueueDone ic (IVal n) (world t)\<rparr>"
proof (cases "QueueGet ic (world s)")
  case q: (Pair k w)
  show thesis
  proof (cases k)
    case None
    then show thesis using shutdown [of w] assms q by (simp add: next_replicaset_def)
  next
    case key: (Some key)
    show thesis
    proof (cases key)
      case IOther
      then show thesis using skipped [of key w] assms q key
        by (auto simp: next_replicaset_def io_defer_def io_unfold step_defs)
    next
      case (IVal n)
      show thesis
      proof (cases rule: getReplicaset_cases [of ic n "s\<lparr>world := w\<rparr>"])
        case (failed err)
        then show thesis using skipped [of key w] assms q key IVal
          by (auto simp: next_replicaset_def io_defer_def io_unfold step_defs)
      next
        case (found rs)
        then have "io_defer (\<lambda>s. Some (s\<lparr>world := QueueDone ic (IVal n) (world s)\<rparr>))
            (handle_replicaset fuel cl cfg rs) (s\<lparr>world := w\<rparr>) = Some (r, s')"
          using assms q key IVal by (simp add: next_replicaset_def io_defer_def io_bind_def io_try_def)
        then show thesis using handled [OF _ found] q key IVal
          by (elim io_defer_Some) simp
      qed
    qed
  qed
qed

lemma op_inv_world: "op_inv (s\<lparr>world := w\<rparr>) = op_inv s"
  by (rule op_inv_cong) simp_all

lemma next_inv:
  assumes "op_inv s" "next_replicaset fuel cl cfg ic s = Some (r, s')"
  shows "op_inv s'"
  using assms(2)
proof (cases rule: next_cases)
  case (handled n w rs t)
  have "op_inv (s\<lparr>world := w\<rparr>)" using assms(1) by (simp add: op_inv_world)
  from handle_effect(1) [OF this handled(3)] show ?thesis by (simp add: handled(4) op_inv_world)
qed (use assms(1) in \<open>simp_all add: op_inv_def\<close>)

text \<open>
  Revisions do not go back: a step of a worker changes the active state of at most one
  deployment, and an entry that it replaces is replaced by one whose revision is at least as
  high.
\<close>

theorem revisions_do_not_go_back:
  assumes "op_inv s" and "next_replicaset fuel cl cfg ic s = Some (r, s')"
    and "activeState s k = Some a" and "activeState s' k = Some b"
  shows "ae_revision a \<le> ae_revision b \<and>
    (a = b \<or> (\<forall>j. j \<noteq> k \<longrightarrow> activeState s' j = activeState s j))"
  using assms(2)
proof (cases rule: next_cases)
  case (handled n w rs t)
  have i: "op_inv (s\<lparr>world := w\<rparr>)" using assms(1) by (simp add: op_inv_world)
  note e = handle_effect [OF i handled(3)]
  have s': "activeState s' = activeState t" by (simp add: handled(4))
  show ?thesis
  proof (cases "k = deployKey rs")
    case True
    have "a = b \<or> ae_revision a \<le> deployRevision rs \<and> b = newActiveEntry rs"
      using e(3) assms(3,4) by (auto simp: s' True [symmetric] shouldProcess_iff split: if_splits)
    then show ?thesis using e(2) True s' by auto
  next
    case False
    then show ?thesis using e(2) assms(3,4) s' by simp
  qed
qed (use assms(3,4) in simp_all)

text \<open>The lock that the next step of a worker asks for.\<close>

definition awaits :: "'w informer \<Rightarrow> 'w op_state \<Rightarrow> string option" where
  "awaits ic s =
     (case QueueGet ic (world s) of
        (Some (IVal n), w) \<Rightarrow>
          (case getReplicaset ic n (s\<lparr>world := w\<rparr>) of
             Some (Ok rs, s') \<Rightarrow> Some (deployKey rs)
           | _ \<Rightarrow> None)
      | _ \<Rightarrow> None)"

lemma awaits_found:
  assumes "QueueGet ic (world s) = (Some (IVal n), w)"
    and "getReplicaset ic n (s\<lparr>world := w\<rparr>) = Some (Ok rs, s\<lparr>world := w\<rparr>)"
  shows "awaits ic s = Some (deployKey rs)"
    "next_replicaset fuel cl cfg ic s = None \<longleftrightarrow> handle_replicaset fuel cl cfg rs (s\<lparr>world := w\<rparr>) = None"
  using assms by (simp_all add: awaits_def next_replicaset_def io_defer_def io_bind_def io_try_def split: option.split)

lemma next_stops_or_waits:
  assumes "op_inv s" "query_returns fuel cl"
  shows "next_replicaset fuel cl cfg ic s = None \<longleftrightarrow>
    (\<exists>k. awaits ic s = Some k \<and> holds k (deploymentLocker s))"
proof -
  obtain key w where q: "QueueGet ic (world s) = (key, w)" by (cases "QueueGet ic (world s)")
  have i: "op_inv (s\<lparr>world := w\<rparr>)" using assms(1) by (simp add: op_inv_world)
  show ?thesis
  proof (cases "\<exists>n. key = Some (IVal n)")
    case False
    then have "awaits ic s = None" using q by (auto simp: awaits_def split: option.split iface.split)
    moreover have "next_replicaset fuel cl cfg ic s \<noteq> None" using q False
      by (auto simp: next_replicaset_def io_defer_def io_unfold step_defs split: iface.split option.split)
    ultimately show ?thesis by simp
  next
    case True
    then obtain n where n: "QueueGet ic (world s) = (Some (IVal n), w)" using q by blast
    show ?thesis
    proof (cases rule: getReplicaset_cases [of ic n "s\<lparr>world := w\<rparr>"])
      case (found rs)
      have "handle_replicaset fuel cl cfg rs (s\<lparr>world := w\<rparr>) = None \<longleftrightarrow> holds (deployKey rs) (deploymentLocker s)"
        using handle_returns [OF i _ assms(2), of rs cfg] handle_blocks [of rs "s\<lparr>world := w\<rparr>"]
        by (cases "holds (deployKey rs) (deploymentLocker s)") simp_all
      then show ?thesis using awaits_found(1) [OF n found] awaits_found(2) [OF n found, of fuel cl cfg] by simp
    next
      case (failed err)
      then have "awaits ic s = None" "next_replicaset fuel cl cfg ic s \<noteq> None" using n
        by (simp_all add: awaits_def next_replicaset_def io_defer_def io_unfold step_defs)
      then show ?thesis by simp
    qed
  qed
qed

text \<open>
  C15. When a worker's step returns: given that the reflection query returns, \<open>next\<close> is blocked
  exactly when it asks for the lock of a deployment that is held, and returns on every other
  path, an error or a panic of the processing included. Then the same locks are held as before,
  the queue item was handed back with \<open>Done\<close>, the invariant is kept, and \<open>next\<close> asks for another
  step unless the queue was shut down.
\<close>

theorem next_returns:
  assumes "op_inv s" and "query_returns fuel cl"
  shows "if \<exists>k. awaits ic s = Some k \<and> holds k (deploymentLocker s)
    then next_replicaset fuel cl cfg ic s = None
    else \<exists>r s'. next_replicaset fuel cl cfg ic s = Some (r, s') \<and> op_inv s' \<and>
      (\<forall>k. holds k (deploymentLocker s') = holds k (deploymentLocker s)) \<and>
      (case QueueGet ic (world s) of
         (None, w) \<Rightarrow> r = Ok False
       | (Some key, w) \<Rightarrow> (r = Ok True \<or> (\<exists>p. r = Panic p)) \<and> (\<exists>w'. world s' = QueueDone ic key w'))"
proof (cases "\<exists>k. awaits ic s = Some k \<and> holds k (deploymentLocker s)")
  case True
  then show ?thesis using next_stops_or_waits [OF assms] by simp
next
  case False
  then obtain r s' where step: "next_replicaset fuel cl cfg ic s = Some (r, s')"
    using next_stops_or_waits [OF assms, of cfg ic] by auto
  have inv: "op_inv s'" using assms(1) step by (rule next_inv)
  have "(\<forall>k. holds k (deploymentLocker s') = holds k (deploymentLocker s)) \<and>
    (case QueueGet ic (world s) of
       (None, w) \<Rightarrow> r = Ok False
     | (Some key, w) \<Rightarrow> (r = Ok True \<or> (\<exists>p. r = Panic p)) \<and> (\<exists>w'. world s' = QueueDone ic key w'))"
    using step
  proof (cases rule: next_cases)
    case (handled n v rs t)
    have "op_inv (s\<lparr>world := v\<rparr>)" using assms(1) by (simp add: op_inv_world)
    note e = handle_effect [OF this handled(3)]
    have "\<not> holds (deployKey rs) (deploymentLocker s)"
      using False awaits_found(1) [OF handled(1,2)] by blast
    then have "holds k (deploymentLocker s') = holds k (deploymentLocker s)" for k
      using e(4,5) by (cases "k = deployKey rs") (simp_all add: handled(4))
    then show ?thesis using handled(1,4) e(6) by auto
  qed auto
  then show ?thesis using False step inv by simp
qed

section \<open>Error paths\<close>

text \<open>
  A failed upsert: the error is returned and counted, the active state and the locks stay as
  they were, and so the ReplicaSet still needs processing when the informer queues it again.
\<close>

theorem failed_upsert_is_retried:
  assumes "upsertFilter fuel cl cfg rs s = Some (Fail err, t)" and "grpcPort rs \<noteq> 0"
  shows "\<exists>s'. processReplicaset fuel cl cfg rs key s = Some (Fail err, s') \<and>
    activeState s' = activeState s \<and> deploymentLocker s' = deploymentLocker s \<and>
    processedCounter (counters s') ''error'' ''upsert'' =
      Suc (processedCounter (counters t) ''error'' ''upsert'') \<and>
    shouldProcessReplicaset s' rs key = shouldProcessReplicaset s rs key"
proof -
  have keep: "activeState t = activeState s" "deploymentLocker t = deploymentLocker s"
    using io_keepsD [OF upsertFilter_keeps [OF internal_fields(1)] assms(1)]
      io_keepsD [OF upsertFilter_keeps [OF internal_fields(2)] assms(1)] by simp_all
  obtain s' where s': "processReplicaset fuel cl cfg rs key s = Some (Fail err, s')"
      "activeState s' = activeState t" "deploymentLocker s' = deploymentLocker t"
      "processedCounter (counters s') ''error'' ''upsert'' =
        Suc (processedCounter (counters t) ''error'' ''upsert'')"
    using assms by (auto simp: processReplicaset_def io_unfold step_defs)
  have "shouldProcessReplicaset s' rs key = shouldProcessReplicaset s rs key"
    unfolding shouldProcess_iff s'(2) keep ..
  with s' keep show ?thesis by simp
qed

text \<open>
  C30. A failed deletion: when the annotation of the port is gone and the API server refuses to
  delete the EnvoyFilter, \<open>processReplicaset\<close> returns no error and counts the operation twice,
  as an error and as a success. The active entry is dropped although the filter is still there,
  so no later event of this ReplicaSet deletes it.
\<close>

theorem failed_delete_is_forgotten:
  assumes "grpcPort rs = 0"
    and "api_Delete (EnvoyFilters cl) (rs_Namespace rs) (envoyFilterName rs) (world s) = (Some err, w)"
    and "\<not> IsNotFound cl err"
  shows "\<exists>s'. processReplicaset fuel cl cfg rs key s = Some (Ok (), s') \<and> world s' = w \<and>
    activeState s' = (activeState s)(key := None) \<and>
    processedCounter (counters s') ''error'' ''delete'' =
      Suc (processedCounter (counters s) ''error'' ''delete'') \<and>
    processedCounter (counters s') ''success'' ''delete'' =
      Suc (processedCounter (counters s) ''success'' ''delete'') \<and>
    \<not> shouldProcessReplicaset s' rs key"
proof -
  obtain e where "deleteFilter cl rs s = Some (Fail e, s\<lparr>world := w\<rparr>)"
    using assms(2,3) by (simp add: deleteFilter_def Let_def io_unfold)
  then show ?thesis using assms(1)
    by (simp add: processReplicaset_def io_unfold step_defs shouldProcess_iff)
qed

section \<open>Deleted deployments\<close>

text \<open>What client-go documents of its key function.\<close>

definition documented_keys :: "'w informer \<Rightarrow> bool" where
  "documented_keys ic \<longleftrightarrow>
     (\<forall>ns nm. MetaNamespaceKeyFunc ic ns nm = Inr (if ns = [] then nm else ns @ ''/'' @ nm))"

lemma deployKey_owner:
  assumes "getDeployment rs = Some d" "documented_keys ic"
  shows "MetaNamespaceKeyFunc ic (rs_Namespace rs) (or_Name d) = Inr (deployKey rs)"
  using assms by (simp add: getDeploymentKey_def documented_keys_def)

text \<open>
  Cleanup: the key that \<open>cleanupDeployment\<close> computes for a deleted deployment is the one under
  which the deployment's ReplicaSets are recorded. So the entry and the lock of exactly that
  deployment are dropped, and the next ReplicaSet of a new deployment of that name is processed
  whatever its revision.
\<close>

theorem cleanup_forgets_deployment:
  assumes "getDeployment rs = Some d" and "documented_keys ic"
  shows "let s' = cleanupDeployment ic (IVal \<lparr>dp_Namespace = rs_Namespace rs, dp_Name = or_Name d\<rparr>) s in
    activeState s' = (activeState s)(deployKey rs := None) \<and>
    deploymentLocker s' = Remove (deployKey rs) (deploymentLocker s) \<and>
    (op_inv s \<longrightarrow> op_inv s') \<and>
    shouldProcessReplicaset s' rs (deployKey rs) = (rs_ReadyReplicas rs \<noteq> 0 \<and> grpcPort rs \<noteq> 0)"
proof -
  let ?s = "s\<lparr>activeState := (activeState s)(deployKey rs := None),
              deploymentLocker := Remove (deployKey rs) (deploymentLocker s)\<rparr>"
  have eq: "cleanupDeployment ic (IVal \<lparr>dp_Namespace = rs_Namespace rs, dp_Name = or_Name d\<rparr>) s = ?s"
    by (simp add: cleanupDeployment_def deployKey_owner [OF assms])
  have "op_inv s \<Longrightarrow> op_inv ?s"
    by (rule op_invI) (auto dest: op_invD simp: Remove_wf split: if_splits)
  then show ?thesis by (simp add: eq shouldProcess_iff)
qed

end
