(* ===== verification/Reconcile.thy ===== *)
theory Reconcile
  imports OperatorSpec
begin

text \<open>
  The operator as a reconciler. The abstract specification is a function on the active state
  alone, \<open>reconcile\<close>; the worker's step refines it when the cluster is healthy. Over a sequence of
  ReplicaSets of one deployment, in whatever order the queue delivers them, the specification
  and with it the operator end with the highest revision.
\<close>

section \<open>The abstract reconciler\<close>

definition reconcile :: "replicaset \<Rightarrow> (string \<rightharpoonup> active_entry) \<Rightarrow> (string \<rightharpoonup> active_entry)" where
  "reconcile rs A =
     (let k = deployKey rs; settled = (\<lambda>a. deployRevision rs = 0 \<or> deployRevision rs < ae_revision a \<or>
                                          a = newActiveEntry rs) in
      if rs_ReadyReplicas rs = 0 then A
      else if (case A k of None \<Rightarrow> grpcPort rs = 0 | Some a \<Rightarrow> settled a) then A
      else A(k := if grpcPort rs = 0 then None else Some (newActiveEntry rs)))"

lemma reconcile_should:
  "reconcile rs (activeState s) =
     (if shouldProcessReplicaset s rs (deployKey rs)
      then (activeState s)(deployKey rs := if grpcPort rs = 0 then None else Some (newActiveEntry rs))
      else activeState s)"
  by (auto simp: reconcile_def shouldProcess_iff Let_def split: option.split)

section \<open>Refinement\<close>

text \<open>
  What makes the upsert of a ReplicaSet succeed against a healthy cluster: its reflection query
  gives an answer, its selection of services does not panic, and the files can be marshalled.
\<close>

definition upsertable where
  "upsertable fuel cl cfg sv ig ef rs \<longleftrightarrow>
     (\<exists>fds services services' bytes. query_gives fuel cl cfg rs fds services sv ig ef \<and>
        filterGRPCServices services rs = Ok services' \<and> Marshal cl fds = Inr bytes)"

text \<open>The filter stored for a ReplicaSet is the one made for it.\<close>

definition filter_of ::
    "op_config \<Rightarrow> (string \<times> string \<rightharpoonup> envoyfilter) \<Rightarrow> replicaset \<Rightarrow> bool" where
  "filter_of cfg stored rs \<longleftrightarrow>
     (\<exists>x b ss. stored (rs_Namespace rs, envoyFilterName rs) = Some x \<and>
        strip_filter x = newEnvoyFilter rs (b64_encode b) ss (op_version cfg))"

lemma upsert_succeeds:
  assumes "healthy cl sv ig ef" "upsertable fuel cl cfg sv ig ef rs"
  obtains t where "upsertFilter fuel cl cfg rs s = Some (Ok (), t)" "activeState t = activeState s"
    "filter_of cfg (ef (world t)) rs"
proof -
  obtain fds services services' bytes where u: "query_gives fuel cl cfg rs fds services sv ig ef"
    "filterGRPCServices services rs = Ok services'" "Marshal cl fds = Inr bytes"
    using assms(2) unfolding upsertable_def by blast
  obtain w where w: "upsertFilter fuel cl cfg rs s = Some (Ok (), counted ef rs s w)"
    "upserted sv ig ef cfg rs bytes services' (world s) w"
    using upsertFilter_success [OF assms(1) u] by blast
  have f: "filter_of cfg (ef w) rs"
    using w(2) unfolding upserted_def filter_of_def by (metis fun_upd_same)
  have "activeState (counted ef rs s w) = activeState s"
    by (simp add: counted_def gauge_up_def)
  then show thesis using that w(1) f by simp
qed

lemma process_upserts:
  assumes "healthy cl sv ig ef" "upsertable fuel cl cfg sv ig ef rs" "grpcPort rs \<noteq> 0"
  obtains s' where "processReplicaset fuel cl cfg rs key s = Some (Ok (), s')"
    "activeState s' = (activeState s)(key \<mapsto> newActiveEntry rs)" "filter_of cfg (ef (world s')) rs"
proof -
  obtain t where "upsertFilter fuel cl cfg rs s = Some (Ok (), t)" "activeState t = activeState s"
    "filter_of cfg (ef (world t)) rs" using assms(1,2) by (rule upsert_succeeds)
  then show thesis using that assms(3)
    by (simp add: processReplicaset_def io_unfold step_defs)
qed

lemma handle_ignores:
  assumes "op_inv s" "\<not> holds (deployKey rs) (deploymentLocker s)"
    and "\<not> shouldProcessReplicaset s rs (deployKey rs)"
  obtains s' where "handle_replicaset fuel cl cfg rs s = Some (Ok True, s')"
    "activeState s' = activeState s" "world s' = world s"
proof -
  obtain m where m: "Lock (deployKey rs) (deploymentLocker s) = Some m"
    using Lock_free [OF op_invD(1) [OF assms(1)] assms(2)] by blast
  obtain m' where "Unlock (deployKey rs) m = Some (Ok (), m')"
    using Unlock_releases [OF Lock_holds [OF m]] by blast
  then show thesis using that m assms(3)
    by (simp add: handle_replicaset_def locker_Lock_def locker_Unlock_def Let_def io_finally_def
        io_unfold step_defs shouldProcess_iff)
qed

lemma handle_processes:
  assumes "op_inv s" "\<not> holds (deployKey rs) (deploymentLocker s)"
    and "shouldProcessReplicaset s rs (deployKey rs)"
    and "healthy cl sv ig ef" "upsertable fuel cl cfg sv ig ef rs" "grpcPort rs \<noteq> 0"
  obtains s' where "handle_replicaset fuel cl cfg rs s = Some (Ok True, s')"
    "activeState s' = (activeState s)(deployKey rs \<mapsto> newActiveEntry rs)" "filter_of cfg (ef (world s')) rs"
proof -
  let ?k = "deployKey rs"
  obtain m where m: "Lock ?k (deploymentLocker s) = Some m"
    using Lock_free [OF op_invD(1) [OF assms(1)] assms(2)] by blast
  obtain t where t: "processReplicaset fuel cl cfg rs ?k (s\<lparr>deploymentLocker := m\<rparr>) = Some (Ok (), t)"
    "activeState t = (activeState s)(?k \<mapsto> newActiveEntry rs)" "filter_of cfg (ef (world t)) rs"
    by (rule process_upserts [OF assms(4-6), of ?k "s\<lparr>deploymentLocker := m\<rparr>"]) simp
  from t(1) assms(6) have "deploymentLocker t = m" by (cases rule: process_cases) simp_all
  then obtain m' where "Unlock ?k (deploymentLocker t) = Some (Ok (), m')"
    using Unlock_releases [OF Lock_holds [OF m]] by blast
  then show thesis using that [of "t\<lparr>deploymentLocker := m'\<rparr>"] m t assms(3)
    by (simp add: handle_replicaset_def locker_Lock_def locker_Unlock_def Let_def io_finally_def
        io_unfold shouldProcess_iff)
qed

text \<open>
  C17. Refinement: in a healthy cluster a worker's handling of a ReplicaSet with a port returns,
  acts on the active state exactly as the abstract reconciler, and when it changed the entry the
  EnvoyFilter made for this ReplicaSet is the one that is stored.
\<close>

theorem handle_refines_reconcile:
  assumes "op_inv s" and "\<not> holds (deployKey rs) (deploymentLocker s)"
    and "healthy cl sv ig ef" and "upsertable fuel cl cfg sv ig ef rs" and "grpcPort rs \<noteq> 0"
  shows "\<exists>s'. handle_replicaset fuel cl cfg rs s = Some (Ok True, s') \<and>
    activeState s' = reconcile rs (activeState s) \<and>
    (if shouldProcessReplicaset s rs (deployKey rs) then filter_of cfg (ef (world s')) rs
     else world s' = world s)"
proof (cases "shouldProcessReplicaset s rs (deployKey rs)")
  case True
  obtain s' where "handle_replicaset fuel cl cfg rs s = Some (Ok True, s')"
    "activeState s' = (activeState s)(deployKey rs \<mapsto> newActiveEntry rs)" "filter_of cfg (ef (world s')) rs"
    by (rule handle_processes [OF assms(1,2) True assms(3-5)])
  then show ?thesis using True assms(5) by (simp add: reconcile_should)
next
  case False
  obtain s' where "handle_replicaset fuel cl cfg rs s = Some (Ok True, s')"
    "activeState s' = activeState s" "world s' = world s"
    by (rule handle_ignores [OF assms(1,2) False])
  then show ?thesis using False by (simp add: reconcile_should)
qed

section \<open>The latest revision wins\<close>

fun handle_all ::
    "nat \<Rightarrow> ('w, 'b, 'c, 's) cluster \<Rightarrow> op_config \<Rightarrow> replicaset list \<Rightarrow> ('w op_state, unit) io" where
  "handle_all fuel cl cfg [] = io_return ()"
| "handle_all fuel cl cfg (rs # rss) =
     io_bind (handle_replicaset fuel cl cfg rs) (\<lambda>_. handle_all fuel cl cfg rss)"

text \<open>A candidate of the deployment \<open>k\<close>: ready, with a port and a revision.\<close>

definition candidate where
  "candidate fuel cl cfg sv ig ef k rs \<longleftrightarrow> deployKey rs = k \<and> rs_ReadyReplicas rs \<noteq> 0 \<and>
     grpcPort rs \<noteq> 0 \<and> deployRevision rs > 0 \<and> upsertable fuel cl cfg sv ig ef rs"

text \<open>One more candidate, after \<open>r\<close> was the latest.\<close>

lemma handle_later:
  assumes "op_inv s" "\<forall>k. \<not> holds k (deploymentLocker s)" "healthy cl sv ig ef"
    and "candidate fuel cl cfg sv ig ef k rs"
    and "activeState s k = Some (newActiveEntry r)" "filter_of cfg (ef (world s)) r"
  obtains s' r' where "handle_replicaset fuel cl cfg rs s = Some (Ok True, s')" "op_inv s'"
    "\<forall>k. \<not> holds k (deploymentLocker s')" "activeState s' k = Some (newActiveEntry r')"
    "filter_of cfg (ef (world s')) r'" "r' = r \<or> r' = rs" "deployRevision r' = max (deployRevision r) (deployRevision rs)"
proof -
  have c: "deployKey rs = k" "rs_ReadyReplicas rs \<noteq> 0" "grpcPort rs \<noteq> 0" "deployRevision rs > 0"
    "upsertable fuel cl cfg sv ig ef rs" using assms(4) by (simp_all add: candidate_def)
  have free: "\<not> holds (deployKey rs) (deploymentLocker s)" using assms(2) by simp
  have more: "op_inv s' \<and> (\<forall>k. \<not> holds k (deploymentLocker s'))"
    if "handle_replicaset fuel cl cfg rs s = Some (Ok True, s')" for s'
  proof -
    note e = handle_effect [OF assms(1) that]
    have "\<not> holds j (deploymentLocker s')" for j
      using e(4,5) assms(2) by (cases "j = deployKey rs") simp_all
    then show ?thesis using e(1) by simp
  qed
  show thesis
  proof (cases "shouldProcessReplicaset s rs (deployKey rs)")
    case True
    obtain s' where s': "handle_replicaset fuel cl cfg rs s = Some (Ok True, s')"
      "activeState s' = (activeState s)(deployKey rs \<mapsto> newActiveEntry rs)" "filter_of cfg (ef (world s')) rs"
      by (rule handle_processes [OF assms(1) free True assms(3) c(5,3)])
    have "deployRevision r \<le> deployRevision rs" using True assms(5) c(1) by (simp add: shouldProcess_iff)
    then show thesis using that [of s' rs] s' more [OF s'(1)] c(1) by simp
  next
    case False
    obtain s' where s': "handle_replicaset fuel cl cfg rs s = Some (Ok True, s')"
      "activeState s' = activeState s" "world s' = world s"
      by (rule handle_ignores [OF assms(1) free False])
    have "deployRevision rs < deployRevision r \<or> newActiveEntry r = newActiveEntry rs"
      using False assms(5) c by (auto simp: shouldProcess_iff)
    then have "deployRevision r = max (deployRevision r) (deployRevision rs)"
      by (metis linorder_not_less max.absorb1 max.strict_order_iff newActiveEntry_sel(1) max.idem order.strict_implies_order)
    then show thesis using that [of s' r] s' more [OF s'(1)] assms(5,6) by simp
  qed
qed

lemma handle_all_later:
  assumes "healthy cl sv ig ef" "\<forall>rs \<in> set rss. candidate fuel cl cfg sv ig ef k rs"
  shows "op_inv s \<Longrightarrow> \<forall>k. \<not> holds k (deploymentLocker s) \<Longrightarrow>
    activeState s k = Some (newActiveEntry r) \<Longrightarrow> filter_of cfg (ef (world s)) r \<Longrightarrow>
    \<exists>s' r'. handle_all fuel cl cfg rss s = Some (Ok (), s') \<and> r' \<in> insert r (set rss) \<and>
      (\<forall>x \<in> insert r (set rss). deployRevision x \<le> deployRevision r') \<and>
      activeState s' k = Some (newActiveEntry r') \<and> filter_of cfg (ef (world s')) r'"
  using assms(2)
proof (induction rss arbitrary: s r)
  case Nil
  then show ?case by (simp add: io_return_def)
next
  case (Cons rs rss)
  have c: "candidate fuel cl cfg sv ig ef k rs" using Cons.prems(5) by simp
  obtain t q where t: "handle_replicaset fuel cl cfg rs s = Some (Ok True, t)" "op_inv t"
    "\<forall>k. \<not> holds k (deploymentLocker t)" "activeState t k = Some (newActiveEntry q)"
    "filter_of cfg (ef (world t)) q" "q = r \<or> q = rs" "deployRevision q = max (deployRevision r) (deployRevision rs)"
    by (rule handle_later [OF Cons.prems(1,2) assms(1) c Cons.prems(3,4)])
  have "\<forall>rs \<in> set rss. candidate fuel cl cfg sv ig ef k rs" using Cons.prems(5) by simp
  from Cons.IH [OF t(2-5) this] obtain s' r' where s': "handle_all fuel cl cfg rss t = Some (Ok (), s')"
    "r' \<in> insert q (set rss)" "\<forall>x \<in> insert q (set rss). deployRevision x \<le> deployRevision r'"
    "activeState s' k = Some (newActiveEntry r')" "filter_of cfg (ef (world s')) r'" by blast
  have "r' \<in> insert r (set (rs # rss))" using s'(2) t(6) by auto
  moreover have "\<forall>x \<in> insert r (set (rs # rss)). deployRevision x \<le> deployRevision r'"
    using s'(3) t(7) by auto
  moreover have "handle_all fuel cl cfg (rs # rss) s = Some (Ok (), s')"
    using t(1) s'(1) by (simp add: io_bind_def)
  ultimately show ?case using s'(4,5) by blast
qed

text \<open>
  C2. The latest revision wins: take ReplicaSets of one deployment that each are ready, have a port
  and a revision, and can be upserted (their reflection query succeeds, services are left after
  the selection and the filter can be encoded). When the deployment has no active entry yet, no
  lock is held and the API servers are healthy, handling them all returns, whatever the order in
  which they are taken from the queue, and in the end the deployment's active entry and the
  stored EnvoyFilter are those of a ReplicaSet with the highest revision.
\<close>

theorem latest_revision_wins:
  assumes "op_inv s" and "\<forall>k. \<not> holds k (deploymentLocker s)" and "healthy cl sv ig ef"
    and "activeState s k = None" and "rss \<noteq> []"
    and "\<forall>rs \<in> set rss. candidate fuel cl cfg sv ig ef k rs"
  shows "\<exists>s' rs. handle_all fuel cl cfg rss s = Some (Ok (), s') \<and> rs \<in> set rss \<and>
    (\<forall>x \<in> set rss. deployRevision x \<le> deployRevision rs) \<and>
    activeState s' k = Some (newActiveEntry rs) \<and> filter_of cfg (ef (world s')) rs"
proof -
  obtain r rest where rss: "rss = r # rest" using assms(5) by (cases rss) auto
  have c: "deployKey r = k" "rs_ReadyReplicas r \<noteq> 0" "grpcPort r \<noteq> 0" "upsertable fuel cl cfg sv ig ef r"
    using assms(6) by (simp_all add: rss candidate_def)
  have free: "\<not> holds (deployKey r) (deploymentLocker s)" using assms(2) by simp
  have should: "shouldProcessReplicaset s r (deployKey r)" using assms(4) c by (simp add: shouldProcess_iff)
  obtain t where t: "handle_replicaset fuel cl cfg r s = Some (Ok True, t)"
    "activeState t = (activeState s)(deployKey r \<mapsto> newActiveEntry r)" "filter_of cfg (ef (world t)) r"
    by (rule handle_processes [OF assms(1) free should assms(3) c(4,3)])
  note e = handle_effect [OF assms(1) t(1)]
  have f: "\<forall>k. \<not> holds k (deploymentLocker t)" using e(4,5) assms(2) by metis
  have k: "activeState t k = Some (newActiveEntry r)" using t(2) c(1) by simp
  have "\<forall>rs \<in> set rest. candidate fuel cl cfg sv ig ef k rs" using assms(6) rss by simp
  from handle_all_later [OF assms(3) this e(1) f k t(3)] show ?thesis
    using t(1) by (simp add: rss io_bind_def)
qed

section \<open>Instances\<close>

text \<open>A second revision of the sample ReplicaSet, and one without a port.\<close>

definition second_rs :: replicaset where
  "second_rs = plain_rs\<lparr>rs_Name := ''d-2'',
     rs_Annotations := [portAnnotation \<mapsto> ''8080'', revisionAnnotation \<mapsto> ''2'']\<rparr>"

definition portless_rs :: replicaset where
  "portless_rs = plain_rs\<lparr>rs_Annotations := [revisionAnnotation \<mapsto> ''1'']\<rparr>"

definition sample_informer :: "kworld informer" where
  "sample_informer =
     \<lparr>SplitMetaNamespaceKey = (\<lambda>k. Inr (take 2 k, drop 3 k)),
      MetaNamespaceKeyFunc = (\<lambda>ns nm. Inr (if ns = [] then nm else ns @ ''/'' @ nm)),
      ListerGet = (\<lambda>ns nm w. if nm = ''d-1'' then Inr plain_rs else Inr second_rs),
      QueueGet = (\<lambda>w. case kw_queue w of [] \<Rightarrow> (None, w)
                                        | k # ks \<Rightarrow> (Some (IVal k), w\<lparr>kw_queue := ks\<rparr>)),
      QueueDone = (\<lambda>k w. case k of IVal n \<Rightarrow> w\<lparr>kw_done := kw_done w @ [n]\<rparr> | IOther \<Rightarrow> w),
      QueueAdd = (\<lambda>k w. w\<lparr>kw_queue := kw_queue w @ [k]\<rparr>)\<rparr>"

text \<open>The first revision is active and the second is in the queue.\<close>

definition queued_state :: "kworld op_state" where
  "queued_state = sample_state\<lparr>world := empty_world\<lparr>kw_queue := [''ns/d-2'']\<rparr>,
     activeState := [''ns/d'' \<mapsto> newActiveEntry plain_rs]\<rparr>"

lemma numerals: "Atoi ''8080'' = Some 8080" "Atoi ''1'' = Some 1" "Atoi ''2'' = Some 2"
  by (simp_all add: Atoi_def parse_digits_def digit_of_def in_int64_def)

lemma sample_facts:
  "deployKey plain_rs = ''ns/d''" "deployKey second_rs = ''ns/d''"
  "grpcPort plain_rs = 8080" "grpcPort second_rs = 8080" "grpcPort portless_rs = 0"
  "deployRevision plain_rs = 1" "deployRevision second_rs = 2"
  "rs_ReadyReplicas plain_rs = 1" "rs_ReadyReplicas second_rs = 1"
  by (simp_all add: plain_rs_def second_rs_def portless_rs_def sample_rs_def getDeploymentKey_def
      getDeployment_def grpcPort_def grpcPortStr_def deployRevision_def deployRevisionStr_def
      annotation_defs numerals)

lemma second_rs_keeps_services: "filterGRPCServices services second_rs = Ok services"
  by (simp add: filterGRPCServices_def second_rs_def annotation_defs mapFromString_def)

lemma sample_upsertable:
  "upsertable 1 sample_cluster cfg kw_services kw_ingresses kw_filters plain_rs"
  "upsertable 1 sample_cluster cfg kw_services kw_ingresses kw_filters second_rs"
  unfolding upsertable_def
  by (intro exI conjI; (rule sample_query_gives plain_rs_keeps_services second_rs_keeps_services
        | simp add: sample_cluster_def))+

lemma sample_inv: "op_inv sample_state" "op_inv queued_state"
  by (simp_all add: op_inv_def sample_state_def queued_state_def sample_facts)

lemma sample_free:
  "\<not> holds k (deploymentLocker sample_state)" "\<not> holds k (deploymentLocker queued_state)"
  by (simp_all add: sample_state_def queued_state_def)

lemma sample_query_returns: "query_returns 1 sample_cluster"
  by (simp add: query_returns_def io_total_def quiet_query del: One_nat_def)

theorem handle_refines_reconcile_witness:
  "\<exists>s'. handle_replicaset 1 sample_cluster sample_config second_rs queued_state = Some (Ok True, s') \<and>
    activeState s' = [''ns/d'' \<mapsto> newActiveEntry second_rs] \<and>
    filter_of sample_config (kw_filters (world s')) second_rs"
proof -
  have "reconcile second_rs (activeState queued_state) = [''ns/d'' \<mapsto> newActiveEntry second_rs]"
    "shouldProcessReplicaset queued_state second_rs (deployKey second_rs)"
    by (simp_all add: reconcile_def shouldProcess_iff queued_state_def sample_facts Let_def
        newActiveEntry_def)
  then show ?thesis
    using handle_refines_reconcile [OF sample_inv(2) sample_free(2) sample_healthy sample_upsertable(2),
        of sample_config] by (simp add: sample_facts del: One_nat_def)
qed

theorem latest_revision_wins_witness:
  "\<exists>s' rs. handle_all 1 sample_cluster sample_config [second_rs, plain_rs] sample_state = Some (Ok (), s') \<and>
    rs \<in> set [second_rs, plain_rs] \<and> (\<forall>x \<in> set [second_rs, plain_rs]. deployRevision x \<le> deployRevision rs) \<and>
    activeState s' ''ns/d'' = Some (newActiveEntry rs) \<and> filter_of sample_config (kw_filters (world s')) rs"
  by (rule latest_revision_wins [OF sample_inv(1) _ sample_healthy])
    (simp_all add: sample_free candidate_def sample_facts sample_upsertable del: One_nat_def,
      simp add: sample_state_def)

theorem processed_is_settled_witness:
  "\<exists>s'. processReplicaset 1 sample_cluster sample_config plain_rs ''ns/d'' sample_state = Some (Ok (), s') \<and>
    \<not> shouldProcessReplicaset s' plain_rs ''ns/d''"
proof -
  obtain s' where "processReplicaset 1 sample_cluster sample_config plain_rs ''ns/d'' sample_state = Some (Ok (), s')"
    by (rule process_upserts [OF sample_healthy sample_upsertable(1)]) (simp add: sample_facts)
  then show ?thesis using processed_is_settled by blast
qed

text \<open>The queued state with the lock of the deployment held.\<close>

definition held_state :: "kworld op_state" where
  "held_state = queued_state\<lparr>deploymentLocker :=
     \<lparr>sm = [''ns/d'' \<mapsto> 0], locked = {0}, fresh = 1\<rparr>\<rparr>"

lemma held_inv: "op_inv held_state"
  using sample_inv(2) by (simp add: op_inv_def held_state_def mm_wf_def)

lemma queued_awaits:
  "awaits sample_informer queued_state = Some ''ns/d''" "awaits sample_informer held_state = Some ''ns/d''"
  by (simp_all add: awaits_def getReplicaset_def sample_informer_def held_state_def queued_state_def sample_facts)

theorem next_returns_witness:
  "(\<exists>r s'. next_replicaset 1 sample_cluster sample_config sample_informer queued_state = Some (r, s') \<and>
    op_inv s' \<and> (\<forall>k. \<not> holds k (deploymentLocker s')) \<and> (r = Ok True \<or> (\<exists>p. r = Panic p)) \<and>
    (\<exists>w'. world s' = QueueDone sample_informer (IVal ''ns/d-2'') w')) \<and>
   next_replicaset 1 sample_cluster sample_config sample_informer held_state = None"
proof
  have "QueueGet sample_informer (world queued_state) =
      (Some (IVal ''ns/d-2''), empty_world\<lparr>kw_queue := []\<rparr>)"
    by (simp add: sample_informer_def queued_state_def)
  then show "\<exists>r s'. next_replicaset 1 sample_cluster sample_config sample_informer queued_state = Some (r, s') \<and>
    op_inv s' \<and> (\<forall>k. \<not> holds k (deploymentLocker s')) \<and> (r = Ok True \<or> (\<exists>p. r = Panic p)) \<and>
    (\<exists>w'. world s' = QueueDone sample_informer (IVal ''ns/d-2'') w')"
    using next_returns [OF sample_inv(2) sample_query_returns, of sample_informer sample_config]
    by (simp add: sample_free queued_awaits del: One_nat_def)
  have "holds ''ns/d'' (deploymentLocker held_state)" by (simp add: held_state_def holds_def)
  then show "next_replicaset 1 sample_cluster sample_config sample_informer held_state = None"
    using next_returns [OF held_inv sample_query_returns, of sample_informer sample_config]
    by (simp add: queued_awaits del: One_nat_def)
qed

text \<open>One step of a worker from the queued state puts the second revision in place.\<close>

lemma queued_step:
  obtains s' where "next_replicaset 1 sample_cluster sample_config sample_informer queued_state = Some (Ok True, s')"
    "activeState s' = [''ns/d'' \<mapsto> newActiveEntry second_rs]"
proof -
  let ?s = "queued_state\<lparr>world := empty_world\<lparr>kw_queue := []\<rparr>\<rparr>"
  have inv: "op_inv ?s" and free: "\<not> holds (deployKey second_rs) (deploymentLocker ?s)"
    using sample_inv(2) sample_free(2) by (simp_all add: op_inv_world)
  have should: "shouldProcessReplicaset ?s second_rs (deployKey second_rs)"
    by (simp add: shouldProcess_iff queued_state_def sample_facts newActiveEntry_def)
  obtain t where t: "handle_replicaset 1 sample_cluster sample_config second_rs ?s = Some (Ok True, t)"
    "activeState t = (activeState ?s)(deployKey second_rs \<mapsto> newActiveEntry second_rs)"
    by (rule handle_processes [OF inv free should sample_healthy sample_upsertable(2)])
      (simp_all add: sample_facts)
  show thesis
    by (rule that [of "t\<lparr>world := QueueDone sample_informer (IVal ''ns/d-2'') (world t)\<rparr>"])
      (use t in \<open>simp_all add: next_replicaset_def getReplicaset_def sample_informer_def queued_state_def
        io_defer_def io_bind_def io_try_def sample_facts del: One_nat_def\<close>)
qed

theorem revisions_do_not_go_back_witness:
  "\<exists>s'. next_replicaset 1 sample_cluster sample_config sample_informer queued_state = Some (Ok True, s') \<and>
    activeState s' ''ns/d'' = Some (newActiveEntry second_rs) \<and>
    ae_revision (newActiveEntry plain_rs) \<le> ae_revision (newActiveEntry second_rs)"
proof -
  obtain s' where s': "next_replicaset 1 sample_cluster sample_config sample_informer queued_state = Some (Ok True, s')"
    "activeState s' = [''ns/d'' \<mapsto> newActiveEntry second_rs]" by (rule queued_step)
  have "activeState queued_state ''ns/d'' = Some (newActiveEntry plain_rs)"
    "activeState s' ''ns/d'' = Some (newActiveEntry second_rs)"
    by (simp_all add: queued_state_def s'(2))
  from revisions_do_not_go_back [OF sample_inv(2) s'(1) this] show ?thesis using s' by simp
qed

text \<open>A cluster that refuses to create Services and to delete EnvoyFilters.\<close>

definition refusing_cluster :: "(kworld, nat, unit, unit) cluster" where
  "refusing_cluster = sample_cluster
     \<lparr>Services := (Services sample_cluster)\<lparr>api_Create := (\<lambda>_ _ w. (Inl (ExtError ''refused''), w))\<rparr>,
      EnvoyFilters := (EnvoyFilters sample_cluster)\<lparr>api_Delete := (\<lambda>_ _ w. (Some (ExtError ''refused''), w))\<rparr>\<rparr>"

theorem failed_upsert_is_retried_witness:
  "\<exists>err s'. processReplicaset 1 refusing_cluster sample_config plain_rs ''ns/d'' sample_state = Some (Fail err, s') \<and>
    activeState s' = activeState sample_state \<and> deploymentLocker s' = deploymentLocker sample_state \<and>
    shouldProcessReplicaset s' plain_rs ''ns/d''"
proof -
  obtain err where "upsertFilter 1 refusing_cluster sample_config plain_rs sample_state =
      Some (Fail err, sample_state)"
    by (simp add: upsertFilter_def createService_def Let_def io_unfold refusing_cluster_def sample_cluster_def)
  moreover have "shouldProcessReplicaset sample_state plain_rs ''ns/d''"
    by (simp add: shouldProcess_iff sample_state_def sample_facts)
  ultimately show ?thesis using failed_upsert_is_retried [of 1 refusing_cluster sample_config plain_rs
        sample_state err sample_state "''ns/d''"]
    by (auto simp: sample_facts simp del: One_nat_def)
qed

theorem failed_delete_is_forgotten_witness:
  "\<exists>s'. processReplicaset 1 refusing_cluster sample_config portless_rs ''ns/d'' queued_state = Some (Ok (), s') \<and>
    world s' = world queued_state \<and> activeState s' = Map.empty \<and>
    processedCounter (counters s') ''error'' ''delete'' = 1 \<and>
    processedCounter (counters s') ''success'' ''delete'' = 1 \<and>
    \<not> shouldProcessReplicaset s' portless_rs ''ns/d''"
proof -
  have "api_Delete (EnvoyFilters refusing_cluster) (rs_Namespace portless_rs) (envoyFilterName portless_rs)
      (world queued_state) = (Some (ExtError ''refused''), world queued_state)"
    "\<not> IsNotFound refusing_cluster (ExtError ''refused'')"
    "activeState queued_state = [''ns/d'' \<mapsto> newActiveEntry plain_rs]"
    "processedCounter (counters queued_state) = (\<lambda>_ _. 0)"
    by (simp_all add: refusing_cluster_def sample_cluster_def queued_state_def sample_state_def)
  then show ?thesis
    using failed_delete_is_forgotten [OF sample_facts(5), of refusing_cluster queued_state
        "ExtError ''refused''" "world queued_state" 1 sample_config "''ns/d''"]
    by auto
qed

theorem cleanup_forgets_deployment_witness:
  "let s' = cleanupDeployment sample_informer (IVal \<lparr>dp_Namespace = ''ns'', dp_Name = ''d''\<rparr>) queued_state in
    activeState s' = Map.empty \<and> deploymentLocker s' = Remove ''ns/d'' (deploymentLocker queued_state) \<and>
    op_inv s' \<and> shouldProcessReplicaset s' plain_rs ''ns/d''"
proof -
  obtain d where d: "getDeployment plain_rs = Some d" "or_Name d = ''d''" "rs_Namespace plain_rs = ''ns''"
    by (simp add: getDeployment_def plain_rs_def sample_rs_def)
  have k: "documented_keys sample_informer" by (simp add: documented_keys_def sample_informer_def)
  have a: "activeState queued_state = [''ns/d'' \<mapsto> newActiveEntry plain_rs]" by (simp add: queued_state_def)
  show ?thesis
    using cleanup_forgets_deployment [OF d(1) k, of queued_state] sample_inv(2)
    unfolding d(2,3) sample_facts(1) Let_def
    by (simp add: a sample_facts)
qed

end
