(* ===== verification/Startup.thy ===== *)
theory Startup
  imports Reconcile
begin

text \<open>
  Starting the operator (\<open>syncActive\<close> in cmd/transflect-operator/operator.go): the active state is
  read back from the EnvoyFilters in the cluster, with retries. The List call of the Istio client
  is a parameter. \<open>lo_Continue\<close> is the token the code sends, \<open>fl_continue\<close> the one a server
  returns when there is another page; the code never moves one to the other.

  The last section puts the operations together: the states that are reached from a start by
  steps of the workers, informer events and changes of the outside world.
\<close>

section \<open>syncActive\<close>

record list_opts =
  lo_LabelSelector :: string
  lo_Limit :: int
  lo_Continue :: string

record filter_list =
  fl_items :: "envoyfilter list"
  fl_continue :: string

type_synonym 'w lister = "string \<Rightarrow> list_opts \<Rightarrow> 'w \<Rightarrow> (goerr + filter_list) \<times> 'w"

text \<open>The inner loop; \<open>activeCnt\<close> counts the filters that gave an entry.\<close>

fun sync_items :: "envoyfilter list \<Rightarrow> int \<Rightarrow> 'w op_state \<Rightarrow> int \<times> 'w op_state" where
  "sync_items [] activeCnt s = (activeCnt, s)"
| "sync_items (filt # filts) activeCnt s =
     (case getActiveEntry filt of
        Inl err \<Rightarrow> sync_items filts activeCnt s
      | Inr (key, entry) \<Rightarrow>
          sync_items filts (activeCnt + 1) (s\<lparr>activeState := (activeState s)(key \<mapsto> entry)\<rparr>))"

definition filtersGauge_Set :: "int \<Rightarrow> 'w op_state \<Rightarrow> 'w op_state" where
  "filtersGauge_Set n s = s\<lparr>counters := (counters s)\<lparr>filtersGauge := n\<rparr>\<rparr>"

partial_function (option) sync_loop ::
    "'b backoff \<Rightarrow> 'w hooks \<Rightarrow> 'w lister \<Rightarrow> list_opts \<Rightarrow> 'b \<Rightarrow> int \<Rightarrow> 'w op_state \<Rightarrow>
     (unit outcome \<times> 'w op_state) option" where
  "sync_loop bo h List opts b activeCnt s =
     (case List [] opts (world s) of
        (Inl err, w) \<Rightarrow>
          if Attempt bo b > 10 then
            Some (Fail (ErrorString ''cannot list existing EnvoyFilters to sync active state, ran out of attempts''),
                  s\<lparr>world := w\<rparr>)
          else
            let d = Duration bo b in
            sync_loop bo h List opts (snd d) activeCnt (s\<lparr>world := Sleep h (fst d) w\<rparr>)
      | (Inr l, w) \<Rightarrow>
          let b' = Reset bo b; cs = sync_items (fl_items l) activeCnt (s\<lparr>world := w\<rparr>) in
          if lo_Continue opts = [] then Some (Ok (), filtersGauge_Set (fst cs) (snd cs))
          else sync_loop bo h List opts b' (fst cs) (snd cs))"

definition sync_opts :: list_opts where
  "sync_opts = \<lparr>lo_LabelSelector = ''app=transflect'', lo_Limit = 42, lo_Continue = []\<rparr>"

text \<open>The \<open>Max\<close> of the back-off is not set.\<close>

definition syncActive :: "'b backoff \<Rightarrow> 'w hooks \<Rightarrow> 'w lister \<Rightarrow> ('w op_state, unit) io" where
  "syncActive bo h List = sync_loop bo h List sync_opts (newBackoff bo (seconds 2) 0) 0"

section \<open>What is read\<close>

text \<open>The entries of the filters that have one, in order.\<close>

definition entries :: "envoyfilter list \<Rightarrow> (string \<times> active_entry) list" where
  "entries filts = List.map_filter (\<lambda>f. case getActiveEntry f of Inl e \<Rightarrow> None | Inr x \<Rightarrow> Some x) filts"

lemma entries_simps [simp]:
  "entries [] = []"
  "entries (f # fs) = (case getActiveEntry f of Inl e \<Rightarrow> entries fs | Inr x \<Rightarrow> x # entries fs)"
  by (simp_all add: entries_def map_filter_simps split: sum.split)

lemma length_entries: "length (entries fs) \<le> length fs"
  by (induction fs) (auto split: sum.split)

lemma map_add_snoc: "m ++ map_of (xs @ [(a, b)]) = m(a \<mapsto> b) ++ map_of xs"
  by (rule ext) (simp add: map_add_def split: option.split)

lemma sync_items_eq:
  "sync_items fs n s = (n + int (length (entries fs)),
     s\<lparr>activeState := activeState s ++ map_of (rev (entries fs))\<rparr>)"
proof (induction fs arbitrary: n s)
  case Nil
  then show ?case by simp
next
  case (Cons f fs)
  show ?case
  proof (cases "getActiveEntry f")
    case (Inl e)
    then show ?thesis using Cons by simp
  next
    case (Inr x)
    then show ?thesis using Cons by (cases x) (simp add: map_add_snoc fun_upd_def del: map_of_append)
  qed
qed

text \<open>The state after a page was read.\<close>

definition synced :: "filter_list \<Rightarrow> 'w \<Rightarrow> 'w op_state \<Rightarrow> 'w op_state" where
  "synced l w s = filtersGauge_Set (int (length (entries (fl_items l))))
     (s\<lparr>world := w, activeState := activeState s ++ map_of (rev (entries (fl_items l)))\<rparr>)"

text \<open>The reference: rounds counted down, the last one without a wait.\<close>

fun bounded_sync :: "nat \<Rightarrow> 'b backoff \<Rightarrow> 'w hooks \<Rightarrow> 'w lister \<Rightarrow> 'b \<Rightarrow> ('w op_state, unit) io" where
  "bounded_sync m bo h List b s =
     (case List [] sync_opts (world s) of
        (Inr l, w) \<Rightarrow> Some (Ok (), synced l w s)
      | (Inl err, w) \<Rightarrow>
          (case m of
             0 \<Rightarrow> Some (Fail (ErrorString ''cannot list existing EnvoyFilters to sync active state, ran out of attempts''),
                       s\<lparr>world := w\<rparr>)
           | Suc m' \<Rightarrow> bounded_sync m' bo h List (snd (Duration bo b)) (s\<lparr>world := Sleep h (fst (Duration bo b)) w\<rparr>)))"

declare bounded_sync.simps [simp del]

lemma sync_loop_bounded:
  assumes "backoff_ok bo"
  shows "Attempt bo b = 11 - int m \<Longrightarrow> sync_loop bo h List sync_opts b 0 s = bounded_sync m bo h List b s"
proof (induction m arbitrary: b s)
  case 0
  then show ?case
    unfolding sync_loop.simps [of bo h List sync_opts b] bounded_sync.simps [of 0 bo h List b s]
    by (simp add: Let_def sync_items_eq sync_opts_def synced_def split: sum.split prod.split)
next
  case (Suc m)
  have "Attempt bo (snd (Duration bo b)) = 11 - int m"
    using backoff_okD(2) [OF assms] Suc.prems by simp
  then have step: "sync_loop bo h List sync_opts (snd (Duration bo b)) 0 s' =
      bounded_sync m bo h List (snd (Duration bo b)) s'" for s' by (rule Suc.IH)
  have "\<not> Attempt bo b > 10" using Suc.prems by simp
  then show ?case
    unfolding sync_loop.simps [of bo h List sync_opts b 0 s] bounded_sync.simps [of "Suc m" bo h List b s]
    by (simp add: Let_def step sync_items_eq sync_opts_def [THEN arg_cong, of lo_Continue] synced_def
        split: sum.split prod.split)
qed

lemma syncActive_bounded:
  assumes "backoff_ok bo"
  shows "syncActive bo h List s = bounded_sync 11 bo h List (newBackoff bo (seconds 2) 0) s"
  unfolding syncActive_def
  by (rule sync_loop_bounded [OF assms]) (use backoff_okD(1) [OF assms] in simp)

text \<open>How a run of the reference ends.\<close>

lemma bounded_sync_ends:
  "\<exists>r s'. bounded_sync m bo h List b s = Some (r, s') \<and>
     ((\<exists>l v w. List [] sync_opts v = (Inr l, w) \<and> r = Ok () \<and> s' = synced l w s) \<or>
      (\<exists>msg w. r = Fail (ErrorString msg) \<and> s' = s\<lparr>world := w\<rparr>))"
proof (induction m arbitrary: b s)
  case 0
  show ?case
    by (cases "List [] sync_opts (world s)"; cases "fst (List [] sync_opts (world s))")
      (auto simp: bounded_sync.simps [of 0])
next
  case (Suc m)
  obtain res w where lst: "List [] sync_opts (world s) = (res, w)" by (cases "List [] sync_opts (world s)")
  show ?case
  proof (cases res)
    case (Inr l)
    then show ?thesis using lst by (auto simp: bounded_sync.simps [of "Suc m"])
  next
    case (Inl err)
    let ?s = "s\<lparr>world := Sleep h (fst (Duration bo b)) w\<rparr>"
    have run: "bounded_sync (Suc m) bo h List b s = bounded_sync m bo h List (snd (Duration bo b)) ?s"
      using lst Inl by (simp add: bounded_sync.simps [of "Suc m"])
    have again: "synced l v ?s = synced l v s" for l v by (simp add: synced_def filtersGauge_Set_def)
    from Suc [of "snd (Duration bo b)" ?s] show ?thesis
      unfolding run by (elim exE conjE disjE) (auto simp: again)
  qed
qed

text \<open>
  C28. Synchronisation: with a counter that counts, \<open>syncActive\<close> returns. Either it returns an error
  and only the outside world has changed, or one page that a List call without a continuation
  token answered is all it has read: the page's entries are put over those of the active state,
  later ones over earlier ones, the gauge is the number of its filters that gave an entry, the
  world is the one that call left, and a continuation token that the server sent with the page
  is not followed.
\<close>

theorem syncActive_reads_one_page:
  assumes "backoff_ok bo"
  shows "\<exists>r s'. syncActive bo h List s = Some (r, s') \<and>
    ((\<exists>items token v w. List [] sync_opts v = (Inr \<lparr>fl_items = items, fl_continue = token\<rparr>, w) \<and> r = Ok () \<and>
        world s' = w \<and> activeState s' = activeState s ++ map_of (rev (entries items)) \<and>
        filtersGauge (counters s') = int (length (entries items)) \<and>
        deploymentLocker s' = deploymentLocker s) \<or>
     (\<exists>msg w. r = Fail (ErrorString msg) \<and> s' = s\<lparr>world := w\<rparr>))"
proof -
  obtain r s' where run: "syncActive bo h List s = Some (r, s')"
    and ends: "(\<exists>l v w. List [] sync_opts v = (Inr l, w) \<and> r = Ok () \<and> s' = synced l w s) \<or>
      (\<exists>msg w. r = Fail (ErrorString msg) \<and> s' = s\<lparr>world := w\<rparr>)"
    unfolding syncActive_bounded [OF assms] using bounded_sync_ends by metis
  from ends show ?thesis
  proof
    assume "\<exists>l v w. List [] sync_opts v = (Inr l, w) \<and> r = Ok () \<and> s' = synced l w s"
    then obtain l v w where *: "List [] sync_opts v = (Inr l, w)" "r = Ok ()" "s' = synced l w s" by blast
    have "l = \<lparr>fl_items = fl_items l, fl_continue = fl_continue l\<rparr>" by simp
    with * have "List [] sync_opts v = (Inr \<lparr>fl_items = fl_items l, fl_continue = fl_continue l\<rparr>, w)" by simp
    moreover have "world s' = w" "activeState s' = activeState s ++ map_of (rev (entries (fl_items l)))"
      "filtersGauge (counters s') = int (length (entries (fl_items l)))" "deploymentLocker s' = deploymentLocker s"
      by (simp_all add: *(3) synced_def filtersGauge_Set_def)
    ultimately show ?thesis using run *(2) by blast
  qed (use run in blast)
qed

lemma bounded_sync_count:
  assumes calls: "\<And>ns opts w. count (snd (List ns opts w)) = Suc (count w)"
    and sleeps: "\<And>d w. count (Sleep h d w) = count w"
  shows "bounded_sync m bo h List b s = Some (r, s') \<Longrightarrow>
    count (world s) < count (world s') \<and> count (world s') \<le> count (world s) + Suc m \<and>
    (r = Ok () \<or> count (world s') = count (world s) + Suc m)"
proof (induction m arbitrary: b s)
  case 0
  then show ?case using calls [of "[]" sync_opts "world s"]
    by (subst (asm) bounded_sync.simps) (auto simp: synced_def filtersGauge_Set_def split: prod.splits sum.splits)
next
  case (Suc m)
  obtain res w where lst: "List [] sync_opts (world s) = (res, w)" by (cases "List [] sync_opts (world s)")
  have c: "count w = Suc (count (world s))" using calls [of "[]" sync_opts "world s"] lst by simp
  show ?case
  proof (cases res)
    case (Inr l)
    then show ?thesis using Suc.prems lst c
      by (subst (asm) bounded_sync.simps) (auto simp: synced_def filtersGauge_Set_def)
  next
    case (Inl err)
    then have "bounded_sync m bo h List (snd (Duration bo b))
        (s\<lparr>world := Sleep h (fst (Duration bo b)) w\<rparr>) = Some (r, s')"
      using Suc.prems lst by (subst (asm) bounded_sync.simps) simp
    from Suc.IH [OF this] show ?thesis using c by (simp add: sleeps)
  qed
qed

text \<open>
  Number of List calls: over a world that counts them, \<open>syncActive\<close> makes at least one and at
  most twelve, and it has made all twelve when it gives up.
\<close>

theorem syncActive_call_count:
  assumes "backoff_ok bo"
    and "\<And>ns opts w. count (snd (List ns opts w)) = Suc (count w)" and "\<And>d w. count (Sleep h d w) = count w"
    and "syncActive bo h List s = Some (r, s')"
  shows "count (world s) < count (world s') \<and> count (world s') \<le> count (world s) + 12 \<and>
    (r = Ok () \<or> count (world s') = count (world s) + 12)"
  using bounded_sync_count [OF assms(2,3) assms(4) [unfolded syncActive_bounded [OF assms(1)]]] by simp

text \<open>
  Only the first page: against a server that respects the limit of a List call, a start from
  an empty active state knows at most 42 deployments afterwards, however many filters there are.
\<close>

theorem sync_knows_one_page:
  assumes "backoff_ok bo" and "activeState s = Map.empty"
    and "\<And>ns w l w'. List ns sync_opts w = (Inr l, w') \<Longrightarrow> int (length (fl_items l)) \<le> lo_Limit sync_opts"
    and "syncActive bo h List s = Some (Ok (), s')"
  shows "card (dom (activeState s')) \<le> 42 \<and> filtersGauge (counters s') \<le> 42"
proof -
  obtain l v w where *: "List [] sync_opts v = (Inr l, w)" "s' = synced l w s"
    using bounded_sync_ends [of 11 bo h List "newBackoff bo (seconds 2) 0" s] assms(4)
    unfolding syncActive_bounded [OF assms(1)] by auto
  have n: "length (entries (fl_items l)) \<le> 42"
    using assms(3) [OF *(1)] length_entries [of "fl_items l"] by (simp add: sync_opts_def)
  have "dom (activeState s') = fst ` set (entries (fl_items l))"
    by (simp add: *(2) synced_def filtersGauge_Set_def assms(2) dom_map_of_conv_image_fst)
  then have "card (dom (activeState s')) \<le> length (entries (fl_items l))"
    by (simp add: card_image_le card_length order_trans [OF card_image_le card_length])
  then show ?thesis using n by (simp add: *(2) synced_def filtersGauge_Set_def)
qed

section \<open>After a restart\<close>

lemma entry_of_new:
  assumes "deployKey rs \<noteq> []" "grpcPort rs \<noteq> 0" "deployRevision rs \<noteq> 0"
  shows "getActiveEntry (newEnvoyFilter rs b ss v) = Inr (deployKey rs, (newActiveEntry rs)
    \<lparr>ae_excludeServices := [], ae_includeServices := [], ae_httpPathPrefix := []\<rparr>)"
  using assms unfolding getActiveEntry_def newEnvoyFilter_annotations Let_def
  by (simp add: newActiveEntry_def grpcPort_def deployRevision_def)

lemma entry_of_stored:
  assumes "strip_filter x = f"
  shows "getActiveEntry x = getActiveEntry f"
proof -
  have "om_Annotations (ef_meta f) = om_Annotations (ef_meta x)"
    using assms by (auto simp: strip_filter_def with_version_def)
  then show ?thesis by (simp add: getActiveEntry_def)
qed

lemma map_of_unique:
  "(k, e) \<in> set es \<Longrightarrow> \<forall>e'. (k, e') \<in> set es \<longrightarrow> e' = e \<Longrightarrow> map_of es k = Some e"
  by (metis map_of_SomeD weak_map_of_SomeI)

lemma entries_set: "x \<in> set (entries fs) \<longleftrightarrow> (\<exists>f \<in> set fs. getActiveEntry f = Inr x)"
  by (induction fs) (auto split: sum.split)

text \<open>
  C23. Restart: when the page holds the EnvoyFilter that the operator stored for a ReplicaSet, and
  no other filter of that deployment, the synchronisation recovers the port and the revision.
  The ReplicaSet is then processed again exactly when it is ready and selects services or sets
  a path prefix: those annotations are not part of the filter.
\<close>

theorem restart_recovers:
  assumes "x \<in> set items" and "strip_filter x = newEnvoyFilter rs b ss v"
    and "deployKey rs \<noteq> []" and "grpcPort rs \<noteq> 0" and "deployRevision rs \<noteq> 0"
    and "\<forall>y \<in> set items. \<forall>e. getActiveEntry y = Inr (deployKey rs, e) \<longrightarrow> y = x"
  shows "\<exists>e n s'. sync_items items 0 s = (n, s') \<and> activeState s' (deployKey rs) = Some e \<and>
    ae_grpcPort e = grpcPort rs \<and> ae_revision e = deployRevision rs \<and>
    (shouldProcessReplicaset s' rs (deployKey rs) = (rs_ReadyReplicas rs \<noteq> 0 \<and>
       \<not> (go_lookup (rs_Annotations rs) excludeAnnotation = [] \<and>
          go_lookup (rs_Annotations rs) includeAnnotation = [] \<and>
          go_lookup (rs_Annotations rs) httpPrefixAnnotation = [])))"
proof -
  define e where "e = (newActiveEntry rs)
    \<lparr>ae_excludeServices := [], ae_includeServices := [], ae_httpPathPrefix := []\<rparr>"
  have x: "getActiveEntry x = Inr (deployKey rs, e)"
    unfolding entry_of_stored [OF assms(2)] e_def by (rule entry_of_new [OF assms(3-5)])
  have "(deployKey rs, e) \<in> set (rev (entries items))"
    using assms(1) x by (auto simp: entries_set)
  moreover have "\<forall>e'. (deployKey rs, e') \<in> set (rev (entries items)) \<longrightarrow> e' = e"
    using assms(6) x by (auto simp: entries_set)
  ultimately have m: "map_of (rev (entries items)) (deployKey rs) = Some e" by (rule map_of_unique)
  define s' where "s' = s\<lparr>activeState := activeState s ++ map_of (rev (entries items))\<rparr>"
  have a: "activeState s' (deployKey rs) = Some e" using m by (simp add: s'_def map_add_def)
  have "e \<noteq> newActiveEntry rs \<longleftrightarrow> \<not> (go_lookup (rs_Annotations rs) excludeAnnotation = [] \<and>
          go_lookup (rs_Annotations rs) includeAnnotation = [] \<and>
          go_lookup (rs_Annotations rs) httpPrefixAnnotation = [])"
    by (auto simp: e_def newActiveEntry_def)
  moreover have "ae_grpcPort e = grpcPort rs" "ae_revision e = deployRevision rs"
    by (simp_all add: e_def)
  ultimately show ?thesis using a assms(5)
    by (intro exI [of _ e] exI [of _ "0 + int (length (entries items))"] exI [of _ s'])
      (auto simp: sync_items_eq s'_def [symmetric] shouldProcess_iff)
qed

section \<open>Reachable states\<close>

text \<open>
  The states of a leading operator as the handlers follow one another: a start, steps of workers,
  informer events, and anything the outside world does in between.
\<close>

inductive op_reach for fuel cl cfg ic List where
  start: "activeState s = Map.empty \<Longrightarrow> deploymentLocker s = mm_empty \<Longrightarrow>
    syncActive (Backoff cl) (Hooks cl Background) List s = Some (Ok (), s') \<Longrightarrow> op_reach fuel cl cfg ic List s'"
| worker: "op_reach fuel cl cfg ic List s \<Longrightarrow> next_replicaset fuel cl cfg ic s = Some (r, s') \<Longrightarrow>
    op_reach fuel cl cfg ic List s'"
| deleted: "op_reach fuel cl cfg ic List s \<Longrightarrow> op_reach fuel cl cfg ic List (cleanupDeployment ic v s)"
| event: "op_reach fuel cl cfg ic List s \<Longrightarrow> op_reach fuel cl cfg ic List (enqueue ic v s)"
| outside: "op_reach fuel cl cfg ic List s \<Longrightarrow> op_reach fuel cl cfg ic List (s\<lparr>world := w\<rparr>)"

lemma getActiveEntry_valid:
  assumes "getActiveEntry f = Inr (k, a)"
  shows "ae_grpcPort a \<noteq> 0 \<and> unat (ae_grpcPort a) \<le> 65535 \<and> 0 \<le> ae_revision a"
  using assms by (auto simp: getActiveEntry_def Let_def grpcPortStr_le deployRevisionStr_range
      split: if_splits)

lemma entries_valid:
  "map_of (rev (entries fs)) k = Some a \<Longrightarrow>
     ae_grpcPort a \<noteq> 0 \<and> unat (ae_grpcPort a) \<le> 65535 \<and> 0 \<le> ae_revision a"
  using getActiveEntry_valid by (fastforce dest!: map_of_SomeD simp: entries_set)

lemma next_frees:
  assumes "op_inv s" "\<forall>k. \<not> holds k (deploymentLocker s)"
    and "next_replicaset fuel cl cfg ic s = Some (r, s')"
  shows "\<forall>k. \<not> holds k (deploymentLocker s')"
  using assms(3)
proof (cases rule: next_cases)
  case (handled n w rs t)
  have "op_inv (s\<lparr>world := w\<rparr>)" using assms(1) by (simp add: op_inv_world)
  note e = handle_effect [OF this handled(3)]
  show ?thesis
  proof
    fix k
    show "\<not> holds k (deploymentLocker s')"
      using e(4,5) assms(2) by (cases "k = deployKey rs") (simp_all add: handled(4))
  qed
qed (use assms(2) in simp_all)

lemma cleanup_inv: "op_inv s \<Longrightarrow> op_inv (cleanupDeployment ic v s)"
  by (auto simp: op_inv_def cleanupDeployment_def Remove_wf split: iface.split sum.split if_splits)

lemma cleanup_frees:
  "\<forall>k. \<not> holds k (deploymentLocker s) \<Longrightarrow> \<forall>k. \<not> holds k (deploymentLocker (cleanupDeployment ic v s))"
  by (simp add: cleanupDeployment_def split: iface.split sum.split)

lemma enqueue_keeps:
  "activeState (enqueue ic v s) = activeState s" "deploymentLocker (enqueue ic v s) = deploymentLocker s"
  by (simp_all add: enqueue_def Let_def split: iface.split)

text \<open>
  C9. The reachable states: after any sequence of handlers and outside events from a start, every
  active entry has a port from 1 to 65535 and a revision that is not negative, the lock map is
  well-formed and no lock is held between two handlers.
\<close>

theorem reachable_states:
  assumes "op_reach fuel cl cfg ic List s" and "backoff_ok (Backoff cl)"
  shows "op_inv s \<and> (\<forall>k. \<not> holds k (deploymentLocker s))"
  using assms(1)
proof (induction rule: op_reach.induct)
  case (start s s')
  obtain l v w where "s' = synced l w s"
    using bounded_sync_ends [of 11 "Backoff cl" "Hooks cl Background" List "newBackoff (Backoff cl) (seconds 2) 0" s] start(3)
    unfolding syncActive_bounded [OF assms(2)] by auto
  then have "activeState s' = map_of (rev (entries (fl_items l)))" "deploymentLocker s' = mm_empty"
    using start by (simp_all add: synced_def filtersGauge_Set_def)
  then show ?case using entries_valid by (auto simp: op_inv_def)
next
  case (worker s r s')
  then show ?case using next_inv next_frees by blast
next
  case (deleted s v)
  then show ?case using cleanup_inv cleanup_frees by blast
next
  case (event s v)
  then show ?case by (simp add: enqueue_keeps op_inv_def)
next
  case (outside s w)
  then show ?case by (simp add: op_inv_world)
qed

section \<open>Instances\<close>

text \<open>A server with one filter on its first page and a token for a second one.\<close>

definition stored_filter :: envoyfilter where
  "stored_filter = newEnvoyFilter plain_rs [] [''p.S''] ''transflect-v0.0.0''"

definition paged_list :: "'w lister" where
  "paged_list = (\<lambda>ns opts w. (Inr \<lparr>fl_items = (if 0 < lo_Limit opts then [stored_filter] else []),
                                  fl_continue = ''more''\<rparr>, w))"

definition failing_list :: "nat lister" where
  "failing_list = (\<lambda>ns opts n. (Inl (ExtError ''timeout''), Suc n))"

definition counting_state :: "nat op_state" where
  "counting_state =
     \<lparr>world = 0, activeState = Map.empty, deploymentLocker = mm_empty, counters = counters sample_state, wg = 0\<rparr>"

lemma paged_sync:
  "syncActive counting_backoff silent_hooks paged_list s =
     Some (Ok (), synced \<lparr>fl_items = [stored_filter], fl_continue = ''more''\<rparr> (world s) s)"
  unfolding syncActive_bounded [OF counting_backoff_ok]
  by (simp add: bounded_sync.simps paged_list_def sync_opts_def)

theorem syncActive_reads_one_page_witness:
  "\<exists>r s'. syncActive counting_backoff silent_hooks paged_list sample_state = Some (r, s') \<and>
    ((\<exists>items token v w. paged_list [] sync_opts v = (Inr \<lparr>fl_items = items, fl_continue = token\<rparr>, w) \<and> r = Ok () \<and>
        world s' = w \<and> activeState s' = activeState sample_state ++ map_of (rev (entries items)) \<and>
        filtersGauge (counters s') = int (length (entries items)) \<and>
        deploymentLocker s' = deploymentLocker sample_state) \<or>
     (\<exists>msg w. r = Fail (ErrorString msg) \<and> s' = sample_state\<lparr>world := w\<rparr>))"
  by (rule syncActive_reads_one_page [OF counting_backoff_ok])

theorem syncActive_call_count_witness:
  "\<exists>r s'. syncActive counting_backoff silent_hooks failing_list counting_state = Some (r, s') \<and>
    0 < world s' \<and> world s' \<le> 12"
proof -
  obtain r s' where run: "syncActive counting_backoff silent_hooks failing_list counting_state = Some (r, s')"
    unfolding syncActive_bounded [OF counting_backoff_ok] using bounded_sync_ends by metis
  have "id (world counting_state) < id (world s') \<and> id (world s') \<le> id (world counting_state) + 12 \<and>
      (r = Ok () \<or> id (world s') = id (world counting_state) + 12)"
    by (rule syncActive_call_count [OF counting_backoff_ok _ _ run])
      (simp_all add: failing_list_def silent_hooks_def)
  then show ?thesis using run by (simp add: counting_state_def)
qed

theorem sync_knows_one_page_witness:
  "\<exists>s'. syncActive counting_backoff silent_hooks paged_list sample_state = Some (Ok (), s') \<and>
    card (dom (activeState s')) \<le> 42 \<and> filtersGauge (counters s') \<le> 42"
proof -
  define s' where "s' = synced \<lparr>fl_items = [stored_filter], fl_continue = ''more''\<rparr> (world sample_state) sample_state"
  have run: "syncActive counting_backoff silent_hooks paged_list sample_state = Some (Ok (), s')"
    unfolding s'_def by (rule paged_sync)
  have "card (dom (activeState s')) \<le> 42 \<and> filtersGauge (counters s') \<le> 42"
    by (rule sync_knows_one_page [OF counting_backoff_ok _ _ run])
      (auto simp: sample_state_def paged_list_def sync_opts_def)
  with run show ?thesis by blast
qed

theorem restart_recovers_witness:
  "\<exists>e n s'. sync_items [stored_filter] 0 sample_state = (n, s') \<and> activeState s' ''ns/d'' = Some e \<and>
    ae_grpcPort e = 8080 \<and> ae_revision e = 1 \<and> \<not> shouldProcessReplicaset s' plain_rs ''ns/d''"
proof -
  have "strip_filter stored_filter = newEnvoyFilter plain_rs [] [''p.S''] ''transflect-v0.0.0''"
    by (simp add: stored_filter_def strip_new)
  from restart_recovers [OF _ this, of "[stored_filter]" sample_state] show ?thesis
    by (simp add: sample_facts) (simp add: plain_rs_def annotation_defs)
qed

theorem reachable_states_witness:
  "\<exists>s. op_reach 1 sample_cluster sample_config sample_informer paged_list s \<and>
    op_inv s \<and> (\<forall>k. \<not> holds k (deploymentLocker s)) \<and> activeState s \<noteq> Map.empty"
proof -
  define s where "s = synced \<lparr>fl_items = [stored_filter], fl_continue = ''more''\<rparr> (world sample_state) sample_state"
  have ok: "backoff_ok (Backoff sample_cluster)" "Backoff sample_cluster = counting_backoff"
    "Hooks sample_cluster Background = silent_hooks"
    by (simp_all add: sample_cluster_def counting_backoff_ok)
  have reach: "op_reach 1 sample_cluster sample_config sample_informer paged_list s"
    by (rule op_reach.start [of sample_state])
      (simp_all only: ok paged_sync s_def, simp_all add: sample_state_def)
  have "getActiveEntry stored_filter \<noteq> Inl e" for e
    using entry_of_new [of plain_rs] by (simp add: stored_filter_def sample_facts)
  then have "activeState s \<noteq> Map.empty"
    by (cases "getActiveEntry stored_filter")
      (auto simp: s_def synced_def filtersGauge_Set_def sample_state_def)
  then show ?thesis using reach reachable_states [OF reach ok(1)] by blast
qed

end
