(* ===== verification/Systems.thy ===== *)
theory Systems
  imports Prelude
begin

text \<open>
  Systems of goroutines as labelled step relations: finite runs, and the locale by which an
  invariant of the steps becomes one of the runs. A label says which goroutine did what; a
  property of the runs in which some steps do not occur excludes them by their labels.
\<close>

inductive lrun :: "('s \<Rightarrow> 'l \<Rightarrow> 's \<Rightarrow> bool) \<Rightarrow> 's \<Rightarrow> 'l list \<Rightarrow> 's \<Rightarrow> bool" for step where
  lrun_Nil: "lrun step s [] s"
| lrun_Cons: "step s l t \<Longrightarrow> lrun step t ls u \<Longrightarrow> lrun step s (l # ls) u"

inductive_simps lrun_simps [simp]: "lrun step s [] t" "lrun step s (l # ls) t"

lemma lrun_append: "lrun step s (ls @ ms) u \<longleftrightarrow> (\<exists>t. lrun step s ls t \<and> lrun step t ms u)"
  by (induction ls arbitrary: s) auto

lemma lrun_snoc: "lrun step s ls t \<Longrightarrow> step t l u \<Longrightarrow> lrun step s (ls @ [l]) u"
  by (auto simp: lrun_append)

text \<open>
  The contract of a system: steps with the labels in \<open>ok\<close> keep \<open>inv\<close>. An observation that those
  steps do not let fall in the order \<open>le\<close> does not fall in a run.
\<close>

locale label_system =
  fixes step :: "'s \<Rightarrow> 'l \<Rightarrow> 's \<Rightarrow> bool" and ok :: "'l \<Rightarrow> bool" and inv :: "'s \<Rightarrow> bool"
  assumes step_inv: "inv s \<Longrightarrow> step s l t \<Longrightarrow> ok l \<Longrightarrow> inv t"
begin

lemma run_inv: "lrun step s ls t \<Longrightarrow> inv s \<Longrightarrow> \<forall>l \<in> set ls. ok l \<Longrightarrow> inv t"
  by (induction rule: lrun.induct) (auto intro: step_inv)

lemma run_rel:
  assumes "\<And>s l t. inv s \<Longrightarrow> step s l t \<Longrightarrow> ok l \<Longrightarrow> R (obs s) (obs t)" "reflp R" "transp R"
  shows "lrun step s ls t \<Longrightarrow> inv s \<Longrightarrow> \<forall>l \<in> set ls. ok l \<Longrightarrow> R (obs s) (obs t)"
proof (induction rule: lrun.induct)
  case (lrun_Nil s)
  show ?case using assms(2) by (rule reflpD)
next
  case (lrun_Cons s l t ls u)
  have "R (obs s) (obs t)" using assms(1) lrun_Cons.prems lrun_Cons.hyps(1) by simp
  moreover have "R (obs t) (obs u)"
    using lrun_Cons.IH step_inv [OF lrun_Cons.prems(1) lrun_Cons.hyps(1)] lrun_Cons.prems(2) by simp
  ultimately show ?case by (rule transpD [OF assms(3)])
qed

text \<open>What the labels say of the run, \<open>obs\<close> being updated label by label.\<close>

lemma run_fold:
  assumes "\<And>s l t. inv s \<Longrightarrow> step s l t \<Longrightarrow> ok l \<Longrightarrow> obs t = upd l (obs s)"
  shows "lrun step s ls t \<Longrightarrow> inv s \<Longrightarrow> \<forall>l \<in> set ls. ok l \<Longrightarrow> obs t = fold upd ls (obs s)"
proof (induction rule: lrun.induct)
  case (lrun_Cons s l t ls u)
  then show ?case using assms [OF lrun_Cons.prems(1) lrun_Cons.hyps(1)] step_inv by auto
qed simp

end

text \<open>
  An invariant that speaks of the history: \<open>upd\<close> adds to it what the label of a step says.
\<close>

locale history_system =
  fixes step :: "'s \<Rightarrow> 'l \<Rightarrow> 's \<Rightarrow> bool" and ok :: "'l \<Rightarrow> bool" and upd :: "'l \<Rightarrow> 'h \<Rightarrow> 'h"
    and inv :: "'h \<Rightarrow> 's \<Rightarrow> bool"
  assumes history_step: "inv h s \<Longrightarrow> step s l t \<Longrightarrow> ok l \<Longrightarrow> inv (upd l h) t"
begin

lemma run_history: "lrun step s ls t \<Longrightarrow> inv h s \<Longrightarrow> \<forall>l \<in> set ls. ok l \<Longrightarrow> inv (fold upd ls h) t"
  by (induction arbitrary: h rule: lrun.induct) (auto intro: history_step)

end

end
