(* ===== verification/Programs.thy ===== *)
theory Programs
  imports Systems "HOL-Library.Multiset"
begin

text \<open>
  Go functions cut at their accesses to shared state. A value of type \<open>('s, 'a) prog\<close> is a
  function that is still to run: it has ended with an outcome, or its next action is one access
  to the state, after which the rest of the function is another program. Run alone it is one of
  the computations of Prelude; several of them run as goroutines in a pool, one action at a time,
  in any order.

  What a goroutine may rely on, and what it promises to the others, is stated by a pair of
  relations on states, and the locale composes such promises: if each goroutine keeps its own
  while the others keep theirs, each ends with its own result in every interleaving, none is ever
  stuck, and no schedule goes on for ever.
\<close>

section \<open>Programs\<close>

datatype (dead 's, dead 'a) prog =
    Done "'a outcome"
  | Act "'s \<Rightarrow> (('s, 'a) prog \<times> 's) option"

lemma prog_cases_induct [case_names Done Act]:
  assumes "\<And>r. P (Done r)" "\<And>f. (\<And>s p t. f s = Some (p, t) \<Longrightarrow> P p) \<Longrightarrow> P (Act f)"
  shows "P p"
proof (induction p)
  case (Act f)
  show ?case
  proof (rule assms(2))
    fix s p t
    assume "f s = Some (p, t)"
    then have "Some (p, t) \<in> range f" by (metis rangeI)
    then show "P p" by (rule Act.IH [of "Some (p, t)" "(p, t)"]) simp_all
  qed
qed (rule assms(1))

text \<open>Sequencing on the outcome, whatever it is; the other forms are instances.\<close>

primrec p_then :: "('s, 'a) prog \<Rightarrow> ('a outcome \<Rightarrow> ('s, 'b) prog) \<Rightarrow> ('s, 'b) prog" where
  "p_then (Done r) k = k r"
| "p_then (Act f) k = Act (\<lambda>s. map_option (map_prod (\<lambda>p. p_then p k) id) (f s))"

primrec p_run :: "('s, 'a) prog \<Rightarrow> ('s, 'a) io" where
  "p_run (Done r) = (\<lambda>s. Some (r, s))"
| "p_run (Act f) = (\<lambda>s. case map_option (map_prod p_run id) (f s) of
     None \<Rightarrow> None | Some (g, t) \<Rightarrow> g t)"

definition p_return :: "'a \<Rightarrow> ('s, 'a) prog" where
  "p_return a = Done (Ok a)"

definition p_fail :: "goerr \<Rightarrow> ('s, 'a) prog" where
  "p_fail e = Done (Fail e)"

text \<open>One access, and a call deferred to the end of a program.\<close>

definition p_act :: "('s, 'a) io \<Rightarrow> ('s, 'a) prog" where
  "p_act m = Act (\<lambda>s. map_option (map_prod Done id) (m s))"

definition p_defer :: "('s \<Rightarrow> 's option) \<Rightarrow> ('s, 'a) prog \<Rightarrow> ('s, 'a) prog" where
  "p_defer c p = p_then p (\<lambda>r. Act (\<lambda>s. map_option (Pair (Done r)) (c s)))"

definition p_bind :: "('s, 'a) prog \<Rightarrow> ('a \<Rightarrow> ('s, 'b) prog) \<Rightarrow> ('s, 'b) prog" where
  "p_bind p k = p_then p (\<lambda>r. case r of Ok a \<Rightarrow> k a | Fail e \<Rightarrow> Done (Fail e) | Panic s \<Rightarrow> Done (Panic s))"

definition p_wrap :: "string \<Rightarrow> ('s, 'a) prog \<Rightarrow> ('s, 'a) prog" where
  "p_wrap s p = p_then p (\<lambda>r. Done (case r of Fail e \<Rightarrow> Fail (WrapError s e) | _ \<Rightarrow> r))"

definition p_try :: "('s, 'a) prog \<Rightarrow> ('s, goerr + 'a) prog" where
  "p_try p = p_then p (\<lambda>r. Done (case r of Ok a \<Rightarrow> Ok (Inr a) | Fail e \<Rightarrow> Ok (Inl e) | Panic s \<Rightarrow> Panic s))"

text \<open>Run alone, the forms are those of Prelude.\<close>

named_theorems prog_run \<open>what a program does when it runs alone\<close>

lemma p_run_then:
  "p_run (p_then p k) s = (case p_run p s of None \<Rightarrow> None | Some (r, t) \<Rightarrow> p_run (k r) t)"
proof (induction p arbitrary: s rule: prog_cases_induct)
  case (Act f)
  then show ?case by (cases "f s") auto
qed simp

lemma p_run_forms [prog_run]:
  "p_run (p_return a) = io_return a"
  "p_run (p_fail e) = io_fail e"
  "p_run (p_act m) = m"
  "p_run (p_bind p k) = io_bind (p_run p) (\<lambda>a. p_run (k a))"
  "p_run (p_wrap msg p) = io_wrap msg (p_run p)"
  "p_run (p_try p) = io_try (p_run p)"
  "p_run (p_defer c p) = io_defer c (p_run p)"
  by (rule ext, simp add: p_return_def p_fail_def p_act_def p_bind_def p_wrap_def p_try_def p_defer_def
      p_run_then io_basic io_bind_def io_wrap_def io_try_def io_defer_def split: option.split prod.split outcome.split)+

lemma p_run_if [prog_run]: "p_run (if b then p else q) = (if b then p_run p else p_run q)"
  by simp

text \<open>An observation of the state that no action of a program changes.\<close>

inductive p_keeps :: "('s \<Rightarrow> 'x) \<Rightarrow> ('s, 'a) prog \<Rightarrow> bool" for obs where
  p_keeps_Done: "p_keeps obs (Done r)"
| p_keeps_Act: "(\<And>s p t. f s = Some (p, t) \<Longrightarrow> obs t = obs s \<and> p_keeps obs p) \<Longrightarrow> p_keeps obs (Act f)"

inductive_cases p_keeps_ActE: "p_keeps obs (Act f)"

named_theorems prog_frames \<open>closure of p_keeps under the forms of programs\<close>

lemma p_keepsD: "p_keeps obs (Act f) \<Longrightarrow> f s = Some (p, t) \<Longrightarrow> obs t = obs s \<and> p_keeps obs p"
  by (blast elim: p_keeps_ActE)

lemma p_keeps_then: "p_keeps obs p \<Longrightarrow> (\<And>r. p_keeps obs (k r)) \<Longrightarrow> p_keeps obs (p_then p k)"
proof (induction rule: p_keeps.induct)
  case (p_keeps_Act f)
  show ?case unfolding p_then.simps
    by (rule p_keeps.p_keeps_Act) (use p_keeps_Act in \<open>auto; blast\<close>)
qed simp

lemma p_keeps_forms [prog_frames]:
  "p_keeps obs (p_return a)"
  "p_keeps obs (p_fail e)"
  "p_keeps obs (Done r)"
  "io_keeps obs m \<Longrightarrow> p_keeps obs (p_act m)"
  "p_keeps obs p \<Longrightarrow> (\<And>a. p_keeps obs (l a)) \<Longrightarrow> p_keeps obs (p_bind p l)"
  "p_keeps obs p \<Longrightarrow> p_keeps obs (p_wrap msg p)"
  "p_keeps obs p \<Longrightarrow> p_keeps obs (p_try p)"
  "p_keeps obs p \<Longrightarrow> (\<And>s t. c s = Some t \<Longrightarrow> obs t = obs s) \<Longrightarrow> p_keeps obs (p_defer c p)"
  unfolding p_return_def p_fail_def p_act_def p_bind_def p_wrap_def p_try_def p_defer_def
  by (auto intro!: p_keeps_then p_keeps.intros split: outcome.split dest: io_keepsD)

text \<open>A program whose actions return in every state.\<close>

inductive p_total :: "('s, 'a) prog \<Rightarrow> bool" where
  p_total_Done: "p_total (Done r)"
| p_total_Act: "(\<And>s. \<exists>p t. f s = Some (p, t) \<and> p_total p) \<Longrightarrow> p_total (Act f)"

inductive_cases p_total_ActE: "p_total (Act f)"

lemma p_total_then: "p_total p \<Longrightarrow> (\<And>r. p_total (k r)) \<Longrightarrow> p_total (p_then p k)"
proof (induction rule: p_total.induct)
  case (p_total_Act f)
  show ?case unfolding p_then.simps
  proof (rule p_total.p_total_Act)
    fix s
    obtain p t where "f s = Some (p, t)" "p_total (p_then p k)" using p_total_Act by blast
    then show "\<exists>q t. map_option (map_prod (\<lambda>p. p_then p k) id) (f s) = Some (q, t) \<and> p_total q" by simp
  qed
qed simp

lemma p_total_act:
  assumes "io_total m"
  shows "p_total (p_act m)"
  unfolding p_act_def
proof (rule p_total_Act)
  fix s
  obtain r t where "m s = Some (r, t)" using assms by (rule io_totalE)
  then show "\<exists>p t. map_option (map_prod Done id) (m s) = Some (p, t) \<and> p_total p"
    by (simp add: p_total_Done)
qed

lemma p_total_forms [prog_frames]:
  "p_total (p_return a)"
  "p_total (p_fail e)"
  "p_total (Done r)"
  "io_total m \<Longrightarrow> p_total (p_act m)"
  "p_total p \<Longrightarrow> (\<And>a. p_total (l a)) \<Longrightarrow> p_total (p_bind p l)"
  "p_total p \<Longrightarrow> p_total (p_wrap msg p)"
  "p_total p \<Longrightarrow> p_total (p_try p)"
  unfolding p_return_def p_fail_def p_bind_def p_wrap_def p_try_def
  by (auto intro!: p_total_then p_total_Done p_total_act split: outcome.split)

lemma p_total_defer [prog_frames]:
  assumes "p_total p" "\<And>s. c s \<noteq> None"
  shows "p_total (p_defer c p)"
  unfolding p_defer_def
proof (rule p_total_then [OF assms(1)], rule p_total_Act)
  fix r s
  show "\<exists>p t. map_option (Pair (Done r)) (c s) = Some (p, t) \<and> p_total p"
    using assms(2) [of s] by (auto simp: p_total_Done)
qed

section \<open>Pools of goroutines\<close>

type_synonym ('s, 'a) pool = "(nat \<Rightarrow> ('s, 'a) prog) \<times> 's"

inductive pool_step :: "('s, 'a) pool \<Rightarrow> nat \<Rightarrow> ('s, 'a) pool \<Rightarrow> bool" where
  pool_act: "ps i = Act f \<Longrightarrow> f s = Some (p, t) \<Longrightarrow> pool_step (ps, s) i (ps(i := p), t)"

inductive_cases pool_stepE: "pool_step (ps, s) i c"
inductive_simps pool_step_simps: "pool_step (ps, s) i (qs, t)"

definition finished :: "('s, 'a) pool \<Rightarrow> bool" where
  "finished c \<longleftrightarrow> (\<forall>i. \<exists>r. fst c i = Done r)"

lemma finishedD: "finished (ps, s) \<Longrightarrow> \<exists>r. ps i = Done r"
  by (simp add: finished_def)

text \<open>The first \<open>n\<close> goroutines run, the others are not there.\<close>

definition pool_of :: "nat \<Rightarrow> (nat \<Rightarrow> ('s, unit) prog) \<Rightarrow> nat \<Rightarrow> ('s, unit) prog" where
  "pool_of n p i = (if i < n then p i else Done (Ok ()))"

text \<open>What has ended stays so.\<close>

lemma stays_done: "lrun pool_step c ls d \<Longrightarrow> fst c j = Done r \<Longrightarrow> fst d j = Done r"
proof (induction rule: lrun.induct)
  case (lrun_Cons c i d ls e)
  from lrun_Cons.hyps(1) lrun_Cons.prems have "fst d j = Done r"
    by (cases rule: pool_step.cases) (cases "j = i"; simp)
  then show ?case by (rule lrun_Cons.IH)
qed simp

lemma stay_done:
  assumes "lrun pool_step c ls d" "\<forall>j \<ge> n. \<exists>r. fst c j = Done r"
  shows "\<forall>j \<ge> n. \<exists>r. fst d j = Done r"
  using assms stays_done by meson

section \<open>Relying on the others\<close>

text \<open>
  \<open>assured R G Q p s\<close>: from the state \<open>s\<close> on, \<open>p\<close> never gets stuck, each of its actions is in \<open>G\<close>, and
  it ends with an outcome and a state in \<open>Q\<close>, whatever the others do within \<open>R\<close> before each of
  its actions and after its end.
\<close>

inductive assured ::
    "('s \<Rightarrow> 's \<Rightarrow> bool) \<Rightarrow> ('s \<Rightarrow> 's \<Rightarrow> bool) \<Rightarrow> ('a outcome \<Rightarrow> 's \<Rightarrow> bool) \<Rightarrow> ('s, 'a) prog \<Rightarrow> 's \<Rightarrow> bool"
  for R G Q where
  assured_Done: "(\<And>t. R s t \<Longrightarrow> Q r t) \<Longrightarrow> assured R G Q (Done r) s"
| assured_Act: "(\<And>t. R s t \<Longrightarrow> \<exists>p u. f t = Some (p, u) \<and> G t u \<and> assured R G Q p u) \<Longrightarrow>
    assured R G Q (Act f) s"

inductive_cases assured_DoneE: "assured R G Q (Done r) s"
inductive_cases assured_ActE: "assured R G Q (Act f) s"

text \<open>One goroutine, and what the others may do, a reflexive and transitive relation.\<close>

locale relying =
  fixes R :: "'s \<Rightarrow> 's \<Rightarrow> bool"
  assumes R_refl: "R s s" and R_trans: "R s t \<Longrightarrow> R t u \<Longrightarrow> R s u"
begin

lemma assured_end: "assured R G Q (Done r) s \<Longrightarrow> Q r s"
  by (auto elim: assured_DoneE intro: R_refl)

lemma assured_ActD:
  assumes "assured R G Q (Act f) s"
  obtains p t where "f s = Some (p, t)" "G s t" "assured R G Q p t"
  using assms
proof (rule assured_ActE)
  assume "\<And>t. R s t \<Longrightarrow> \<exists>p u. f t = Some (p, u) \<and> G t u \<and> assured R G Q p u"
  from this [OF R_refl] show thesis using that by (elim exE conjE)
qed

lemma assured_step:
  assumes "assured R G Q (Act f) s" "f s = Some (p, t)"
  shows "G s t" "assured R G Q p t"
proof -
  obtain q u where "f s = Some (q, u)" "G s u" "assured R G Q q u" using assms(1) by (rule assured_ActD)
  with assms(2) show "G s t" "assured R G Q p t" by simp_all
qed

lemma assured_stable: "assured R G Q p s \<Longrightarrow> R s t \<Longrightarrow> assured R G Q p t"
proof (induction rule: assured.induct)
  case (assured_Done s r)
  show ?case by (rule assured.assured_Done) (rule assured_Done(1) [OF R_trans [OF assured_Done(2)]])
next
  case (assured_Act s f)
  show ?case
  proof (rule assured.assured_Act)
    fix u
    assume "R t u"
    with assured_Act(2) have "R s u" by (rule R_trans)
    from assured_Act(1) [OF this] show "\<exists>p v. f u = Some (p, v) \<and> G u v \<and> assured R G Q p v" by blast
  qed
qed

lemma assured_then:
  "assured R G Q' p s \<Longrightarrow> (\<And>r t. Q' r t \<Longrightarrow> assured R G Q (k r) t) \<Longrightarrow> assured R G Q (p_then p k) s"
proof (induction rule: assured.induct)
  case (assured_Done s r)
  then show ?case by (simp add: R_refl)
next
  case (assured_Act s f)
  show ?case
    unfolding p_then.simps
  proof (rule assured.assured_Act)
    fix t
    assume "R s t"
    with assured_Act obtain p u where "f t = Some (p, u)" "G t u" "assured R G Q (p_then p k) u" by blast
    then show "\<exists>p u. map_option (map_prod (\<lambda>p. p_then p k) id) (f t) = Some (p, u) \<and> G t u \<and> assured R G Q p u"
      by auto
  qed
qed

lemma assured_one:
  assumes "\<And>t. R s t \<Longrightarrow> \<exists>r u. m t = Some (r, u) \<and> G t u \<and> (\<forall>v. R u v \<longrightarrow> Q r v)"
  shows "assured R G Q (p_act m) s"
  unfolding p_act_def
proof (rule assured_Act)
  fix t
  assume "R s t"
  with assms obtain r u where "m t = Some (r, u)" "G t u" "\<forall>v. R u v \<longrightarrow> Q r v" by blast
  then show "\<exists>p u. map_option (map_prod Done id) (m t) = Some (p, u) \<and> G t u \<and> assured R G Q p u"
    by (auto intro: assured_Done)
qed

lemma assured_weaken: "assured R G Q p s \<Longrightarrow> (\<And>r t. Q r t \<Longrightarrow> Q' r t) \<Longrightarrow> assured R G Q' p s"
proof (induction rule: assured.induct)
  case (assured_Done s r)
  then show ?case by (auto intro: assured.assured_Done)
next
  case (assured_Act s f)
  show ?case by (rule assured.assured_Act) (use assured_Act in blast)
qed

lemma assured_defer:
  assumes "assured R G Q' p s"
    and "\<And>r t. Q' r t \<Longrightarrow> \<exists>u. c t = Some u \<and> G t u \<and> (\<forall>v. R u v \<longrightarrow> Q r v)"
    and "\<And>r t u. Q' r t \<Longrightarrow> R t u \<Longrightarrow> Q' r u"
  shows "assured R G Q (p_defer c p) s"
  unfolding p_defer_def
proof (rule assured_then [OF assms(1)], rule assured_Act)
  fix r t u
  assume "Q' r t" "R t u"
  with assms(3) obtain v where "c u = Some v" "G u v" "\<forall>x. R v x \<longrightarrow> Q r x" using assms(2) by blast
  then show "\<exists>p v. map_option (Pair (Done r)) (c u) = Some (p, v) \<and> G u v \<and> assured R G Q p v"
    by (auto intro: assured_Done)
qed

text \<open>Alone, the program returns within its promise.\<close>

lemma assured_run:
  assumes "assured R G Q p s"
  shows "\<exists>r t. p_run p s = Some (r, t) \<and> Q r t"
  using assms
proof (induction rule: assured.induct)
  case (assured_Act s f)
  then obtain p t where "f s = Some (p, t)" "\<exists>r u. p_run p t = Some (r, u) \<and> Q r u" using R_refl by blast
  then show ?case by auto
qed (simp add: R_refl)

end

section \<open>Composing the promises\<close>

text \<open>
  Goroutine \<open>i\<close> relies on \<open>R i\<close>, promises \<open>G i\<close> and ends in \<open>Q i\<close>; what one promises the others
  may rely on.
\<close>

locale rely_guarantee =
  fixes R G :: "nat \<Rightarrow> 's \<Rightarrow> 's \<Rightarrow> bool" and Q :: "nat \<Rightarrow> 'a outcome \<Rightarrow> 's \<Rightarrow> bool"
  assumes rely_refl: "R i s s" and rely_trans: "R i s t \<Longrightarrow> R i t u \<Longrightarrow> R i s u"
    and guarantee: "i \<noteq> j \<Longrightarrow> G i s t \<Longrightarrow> R j s t"
begin

definition pool_inv :: "('s, 'a) pool \<Rightarrow> bool" where
  "pool_inv c \<longleftrightarrow> (\<forall>i. assured (R i) (G i) (Q i) (fst c i) (snd c))"

end

sublocale rely_guarantee \<subseteq> one: relying "R i" for i
  by unfold_locales (rule rely_refl, rule rely_trans)

context rely_guarantee
begin

lemma pool_invD: "pool_inv (ps, s) \<Longrightarrow> assured (R i) (G i) (Q i) (ps i) s"
  by (simp add: pool_inv_def)

lemma pool_step_inv:
  assumes "pool_inv c" "pool_step c i d"
  shows "pool_inv d" "G i (snd c) (snd d)"
proof -
  have "pool_inv d \<and> G i (snd c) (snd d)" using assms(2,1)
  proof (cases rule: pool_step.cases)
    case (pool_act ps f s p t)
    have i: "assured (R i) (G i) (Q i) (Act f) s" using assms(1) pool_act(1,3) by (metis pool_invD)
    note next_i = one.assured_step [OF i pool_act(4)]
    have "assured (R j) (G j) (Q j) (ps j) t" if "j \<noteq> i" for j
    proof (rule one.assured_stable)
      show "assured (R j) (G j) (Q j) (ps j) s" using assms(1) unfolding pool_act(1) by (rule pool_invD)
      show "R j s t" using that next_i(1) by (intro guarantee [of i j]) simp_all
    qed
    then show ?thesis using next_i pool_act(1,2) by (simp add: pool_inv_def)
  qed
  then show "pool_inv d" "G i (snd c) (snd d)" by blast+
qed

end

sublocale rely_guarantee \<subseteq> pool: label_system pool_step "\<lambda>_. True" pool_inv
  by unfold_locales (rule pool_step_inv)

context rely_guarantee
begin

text \<open>Whatever the schedule, a goroutine that has ended has kept its promise.\<close>

lemma run_ends:
  assumes "lrun pool_step c ls (ps, s)" "pool_inv c" "ps i = Done r"
  shows "Q i r s"
proof -
  have "pool_inv (ps, s)" using pool.run_inv [OF assms(1,2)] by simp
  then have "assured (R i) (G i) (Q i) (ps i) s" by (rule pool_invD)
  with assms(3) show ?thesis by (auto intro: one.assured_end)
qed

text \<open>Nothing is ever stuck.\<close>

lemma enabled:
  assumes "pool_inv c" "\<not> finished c"
  shows "\<exists>i d. pool_step c i d"
proof -
  obtain ps s where c: "c = (ps, s)" by (cases c)
  with assms(2) obtain i where "\<not> (\<exists>r. ps i = Done r)" by (auto simp: finished_def)
  then obtain f where f: "ps i = Act f" by (cases "ps i") auto
  have "assured (R i) (G i) (Q i) (Act f) s" using pool_invD [OF assms(1) [unfolded c], of i] f by simp
  then obtain p t where "f s = Some (p, t)" by (rule one.assured_ActD)
  with f have "pool_step (ps, s) i (ps(i := p), t)" by (rule pool_act)
  then show ?thesis unfolding c by blast
qed

end

section \<open>Every schedule ends\<close>

text \<open>The program that is left after an action, and the actions that are left to a pool.\<close>

definition later :: "(('s, 'a) prog \<times> ('s, 'a) prog) set" where
  "later = {(p, Act f) | p f. \<exists>s t. f s = Some (p, t)}"

lemma wf_later: "wf (later :: (('s, 'a) prog \<times> ('s, 'a) prog) set)"
proof (rule wfUNIVI)
  fix P :: "('s, 'a) prog \<Rightarrow> bool" and p
  assume step: "\<forall>p. (\<forall>q. (q, p) \<in> later \<longrightarrow> P q) \<longrightarrow> P p"
  show "P p"
  proof (induction p rule: prog_cases_induct)
    case (Done r)
    show ?case using step by (auto simp: later_def)
  next
    case (Act f)
    then have "\<forall>q. (q, Act f) \<in> later \<longrightarrow> P q" by (auto simp: later_def)
    with step show ?case by blast
  qed
qed

definition left_to :: "nat \<Rightarrow> ('s, 'a) pool \<Rightarrow> ('s, 'a) prog multiset" where
  "left_to n c = image_mset (fst c) (mset_set {..<n})"

lemma pool_step_left:
  assumes "pool_step c i d" "i < n"
  shows "(left_to n d, left_to n c) \<in> mult1 later"
  using assms(1)
proof (cases rule: pool_step.cases)
  case (pool_act ps f s p t)
  have split: "mset_set {..<n} = add_mset i (mset_set ({..<n} - {i}))"
    using assms(2) by (intro mset_set.remove) simp_all
  have "image_mset (ps(i := p)) (mset_set ({..<n} - {i})) = image_mset ps (mset_set ({..<n} - {i}))"
    by (rule image_mset_cong) simp
  then show ?thesis
    unfolding left_to_def pool_act(1,2) fst_conv split
    by (intro mult1I [where a = "Act f" and K = "{#p#}"]) (use pool_act in \<open>auto simp: later_def\<close>)
qed

text \<open>A pool of finitely many goroutines has no endless run.\<close>

lemma pool_terminates: "wf {(d, c). \<exists>i < n. pool_step c i d}"
  by (rule wf_subset [OF wf_inv_image [OF wf_mult1 [OF wf_later]], of _ "left_to n"])
    (auto simp: inv_image_def intro: pool_step_left)

lemma pool_of_bound: "pool_step c i d \<Longrightarrow> (\<forall>j \<ge> n. \<exists>r. fst c j = Done r) \<Longrightarrow> i < n"
  by (erule pool_step.cases) (metis fst_conv not_less prog.distinct(1))

context rely_guarantee
begin

text \<open>So from every state of a run the pool can go on until all have ended.\<close>

lemma can_finish:
  assumes "pool_inv c" "\<forall>j \<ge> n. \<exists>r. fst c j = Done r"
  shows "\<exists>ls d. lrun pool_step c ls d \<and> finished d"
  using assms
proof (induction c rule: wf_induct [OF pool_terminates [of n]])
  case (1 c)
  show ?case
  proof (cases "finished c")
    case True
    then show ?thesis by (blast intro: lrun_Nil)
  next
    case False
    with enabled [OF 1(2)] obtain i d where d: "pool_step c i d" by blast
    then have "i < n" using 1(3) by (rule pool_of_bound)
    moreover have "\<forall>j \<ge> n. \<exists>r. fst d j = Done r" using d \<open>i < n\<close> 1(3) by (auto elim!: pool_step.cases)
    ultimately obtain ls e where "lrun pool_step d ls e" "finished e"
      using 1(1) d pool_step_inv(1) [OF 1(2) d] by blast
    with d show ?thesis by (blast intro: lrun_Cons)
  qed
qed

end

section \<open>Goroutines that own parts of the state\<close>

text \<open>
  The simplest discipline: \<open>own i\<close> is the part of the state that belongs to goroutine \<open>i\<close>. It relies
  on its part staying as it is, and promises to leave the parts of the others alone.
\<close>

definition same_own :: "(nat \<Rightarrow> 's \<Rightarrow> 'o) \<Rightarrow> nat \<Rightarrow> 's \<Rightarrow> 's \<Rightarrow> bool" where
  "same_own own i s t \<longleftrightarrow> own i t = own i s"

definition same_others :: "(nat \<Rightarrow> 's \<Rightarrow> 'o) \<Rightarrow> nat \<Rightarrow> 's \<Rightarrow> 's \<Rightarrow> bool" where
  "same_others own i s t \<longleftrightarrow> (\<forall>j. j \<noteq> i \<longrightarrow> own j t = own j s)"

interpretation owners: rely_guarantee "same_own own" "same_others own" Q
  for own :: "nat \<Rightarrow> 's \<Rightarrow> 'o" and Q :: "nat \<Rightarrow> 'a outcome \<Rightarrow> 's \<Rightarrow> bool"
  by unfold_locales (auto simp: same_own_def same_others_def)

text \<open>Programs are executed symbolically: the next action, then the rest.\<close>

lemma p_then_assoc: "p_then (p_then p k) l = p_then p (\<lambda>r. p_then (k r) l)"
proof (induction p rule: prog_cases_induct)
  case (Act f)
  have "map_option (map_prod (\<lambda>p. p_then p l) id) (map_option (map_prod (\<lambda>p. p_then p k) id) (f s)) =
      map_option (map_prod (\<lambda>p. p_then p (\<lambda>r. p_then (k r) l)) id) (f s)" for s
    using Act by (cases "f s") auto
  then show ?case by simp
qed simp

lemma p_then_Done: "p_then p Done = p"
proof (induction p rule: prog_cases_induct)
  case (Act f)
  have "map_option (map_prod (\<lambda>p. p_then p Done) id) (f s) = f s" for s
    using Act by (cases "f s") auto
  then show ?case by simp
qed simp

lemma p_bind_return_right: "p_bind p p_return = (p :: ('a, 'b) prog)"
proof -
  have "case_outcome p_return (\<lambda>e. Done (Fail e)) (\<lambda>s. Done (Panic s)) = (Done :: 'b outcome \<Rightarrow> ('a, 'b) prog)"
    by (rule ext) (simp add: p_return_def split: outcome.split)
  then show ?thesis unfolding p_bind_def by (simp only: p_then_Done)
qed

lemma p_defer_then:
  "p_defer c p = p_then p (\<lambda>r. p_then (p_act (\<lambda>s. map_option (Pair (Ok ())) (c s))) (\<lambda>_. Done r))"
  by (simp add: p_defer_def p_act_def option.map_comp comp_def)

lemmas p_forms = p_bind_def p_wrap_def p_try_def p_return_def p_fail_def p_defer_then p_then_assoc

lemma assured_act:
  assumes "own i s = o1"
    and "\<And>t. own i t = o1 \<Longrightarrow> \<exists>r u. m t = Some (r, u) \<and> (\<forall>j. j \<noteq> i \<longrightarrow> own j u = own j t) \<and>
      assured (same_own own i) (same_others own i) Q (k r) u"
  shows "assured (same_own own i) (same_others own i) Q (p_then (p_act m) k) s"
  unfolding p_act_def p_then.simps
proof (rule assured_Act)
  fix t
  assume "same_own own i s t"
  then have "own i t = o1" using assms(1) by (simp add: same_own_def)
  from assms(2) [OF this] obtain r u where "m t = Some (r, u)" "\<forall>j. j \<noteq> i \<longrightarrow> own j u = own j t"
    "assured (same_own own i) (same_others own i) Q (k r) u" by blast
  then show "\<exists>p u. map_option (map_prod (\<lambda>p. p_then p k) id) (map_option (map_prod Done id) (m t)) = Some (p, u) \<and>
      same_others own i t u \<and> assured (same_own own i) (same_others own i) Q p u"
    by (auto simp: same_others_def)
qed

lemma assured_finished:
  assumes "own i s = o1" "\<And>t. own i t = o1 \<Longrightarrow> Q r t"
  shows "assured (same_own own i) (same_others own i) Q (Done r) s"
  by (rule assured_Done) (use assms in \<open>simp add: same_own_def\<close>)

end
