(* ===== verification/ApiSteps.thy ===== *)
theory ApiSteps
  imports Reconcile Programs
begin

text \<open>
  Processing a ReplicaSet cut at every call of an API server and every access to the operator's
  state: \<open>processReplicaset\<close> (operator.go) and what it calls in envoyfilter.go, as programs. Run
  alone they are the functions of the theories Upsert and Operator. Run at the same time for
  ReplicaSets of different deployments, in any interleaving of their calls, they do not
  interfere: this is what makes it right for the operator to lock single deployments only. The
  reflection query is one action, since it does not write to the cluster.
\<close>

section \<open>The functions as programs\<close>

abbreviation p_world :: "('w, 'a) io \<Rightarrow> ('w op_state, 'a) prog" where
  "p_world m \<equiv> p_act (on_world m)"

definition createService_steps ::
    "('w, 'b, 'c, 's) cluster \<Rightarrow> replicaset \<Rightarrow> ('w op_state, kservice) prog" where
  "createService_steps cl rs =
     (let service = newService rs; name = om_Name (sv_meta service); ns = rs_Namespace rs in
      p_bind (p_try (p_world (io_call (api_Create (Services cl) ns service)))) (\<lambda>r.
        case r of
          Inr result \<Rightarrow> p_return result
        | Inl err \<Rightarrow>
            if \<not> IsAlreadyExists cl err then p_fail (WrapError ''cannot create service'' err)
            else
              p_bind (p_wrap ''cannot get service to update''
                  (p_world (io_call (api_Get (Services cl) ns name)))) (\<lambda>s.
                let v = om_ResourceVersion (sv_meta s);
                    service' = service\<lparr>sv_meta := with_version v (sv_meta service),
                                       sv_ClusterIP := sv_ClusterIP s\<rparr>
                in p_wrap ''cannot update service''
                     (p_world (io_call (api_Update (Services cl) ns service'))))))"

definition createIngress_steps ::
    "('w, 'b, 'c, 's) cluster \<Rightarrow> replicaset \<Rightarrow> ('w op_state, kingress) prog" where
  "createIngress_steps cl rs =
     (let ingress = newIngress rs; name = om_Name (in_meta ingress); ns = rs_Namespace rs in
      p_bind (p_try (p_world (io_call (api_Create (Ingresses cl) ns ingress)))) (\<lambda>r.
        case r of
          Inr result \<Rightarrow> p_return result
        | Inl err \<Rightarrow>
            if \<not> IsAlreadyExists cl err then p_fail (WrapError ''cannot create ingress'' err)
            else
              p_bind (p_wrap ''Cannot get ingress to update''
                  (p_world (io_call (api_Get (Ingresses cl) ns name)))) (\<lambda>i.
                let v = om_ResourceVersion (in_meta i);
                    ingress' = ingress\<lparr>in_meta := with_version v (in_meta ingress)\<rparr>
                in p_wrap ''Cannot update ingress to update''
                     (p_world (io_call (api_Update (Ingresses cl) ns ingress'))))))"

definition upsert_encoded_steps ::
    "('w, 'b, 'c, 's) cluster \<Rightarrow> op_config \<Rightarrow> replicaset \<Rightarrow> string \<Rightarrow> string list \<Rightarrow>
     ('w op_state, unit) prog" where
  "upsert_encoded_steps cl cfg rs protosetBase64 services =
     (let envoyFilter = newEnvoyFilter rs protosetBase64 services (op_version cfg);
          name = om_Name (ef_meta envoyFilter); ns = rs_Namespace rs in
      p_bind (p_try (p_world (io_call (api_Create (EnvoyFilters cl) ns envoyFilter)))) (\<lambda>r.
        case r of
          Inr _ \<Rightarrow> p_act (filtersGauge_Add 1)
        | Inl err \<Rightarrow>
            if \<not> IsAlreadyExists cl err then p_fail (WrapError ''cannot upsert EnvoyFilter'' err)
            else
              p_bind (p_wrap ''cannot get EnvoyFilter to update''
                  (p_world (io_call (api_Get (EnvoyFilters cl) ns name)))) (\<lambda>e.
                let v = om_ResourceVersion (ef_meta e);
                    envoyFilter' = envoyFilter\<lparr>ef_meta := with_version v (ef_meta envoyFilter)\<rparr>
                in p_bind (p_wrap ''cannot Update envoyFilter''
                     (p_world (io_call (api_Update (EnvoyFilters cl) ns envoyFilter'))))
                     (\<lambda>_. p_return ()))))"

definition upsertEnvoyFilter_steps ::
    "('w, 'b, 'c, 's) cluster \<Rightarrow> op_config \<Rightarrow> replicaset \<Rightarrow> file_desc list \<Rightarrow> string list \<Rightarrow>
     ('w op_state, unit) prog" where
  "upsertEnvoyFilter_steps cl cfg rs fds services =
     (case Base64Proto (Marshal cl) fds of
        Inl err \<Rightarrow> p_fail (WrapError ''cannot encode proto FileDescriptorSet'' err)
      | Inr protosetBase64 \<Rightarrow> upsert_encoded_steps cl cfg rs protosetBase64 services)"

definition deleteFilter_steps ::
    "('w, 'b, 'c, 's) cluster \<Rightarrow> replicaset \<Rightarrow> ('w op_state, unit) prog" where
  "deleteFilter_steps cl rs =
     (let name = envoyFilterName rs in
      p_bind (p_try (p_world (io_check (api_Delete (EnvoyFilters cl) (rs_Namespace rs) name))))
        (\<lambda>r. case r of
               Inl err \<Rightarrow>
                 if \<not> IsNotFound cl err then p_fail (WrapError (''cannot delete EnvoyFilter '' @ name) err)
                 else p_act (filtersGauge_Add (- 1))
             | Inr _ \<Rightarrow> p_act (filtersGauge_Add (- 1))))"

definition query_and_upsert_steps ::
    "nat \<Rightarrow> ('w, 'b, 'c, 's) cluster \<Rightarrow> op_config \<Rightarrow> replicaset \<Rightarrow> ('w op_state, unit) prog" where
  "query_and_upsert_steps fuel cl cfg rs =
     (case getAddrOpts cfg rs of (addr, opts) \<Rightarrow>
      p_bind (p_wrap (''cannot query Reflection API or create FileDescriptor for address '' @ op_address cfg)
          (p_world (GetFileDescriptorSet fuel (Backoff cl) (Hooks cl (replica_context rs)) (Net cl) addr
            (pathPrefix cfg rs) opts)))
        (\<lambda>(fds, services).
      p_bind (Done (filterGRPCServices services rs)) (\<lambda>services'.
        p_wrap ''cannot upsert EnvoyFilter resource'' (upsertEnvoyFilter_steps cl cfg rs fds services'))))"

definition upsertFilter_steps ::
    "nat \<Rightarrow> ('w, 'b, 'c, 's) cluster \<Rightarrow> op_config \<Rightarrow> replicaset \<Rightarrow> ('w op_state, unit) prog" where
  "upsertFilter_steps fuel cl cfg rs =
     p_bind (p_wrap ''cannot create Service'' (createService_steps cl rs)) (\<lambda>service.
       p_defer (deleteService cl service)
         (if useIngress cfg then
            p_bind (p_wrap ''cannot create Ingress'' (createIngress_steps cl rs)) (\<lambda>ingress.
              p_defer (deleteIngress cl ingress) (query_and_upsert_steps fuel cl cfg rs))
          else query_and_upsert_steps fuel cl cfg rs))"

definition processReplicaset_steps ::
    "nat \<Rightarrow> ('w, 'b, 'c, 's) cluster \<Rightarrow> op_config \<Rightarrow> replicaset \<Rightarrow> string \<Rightarrow> ('w op_state, unit) prog" where
  "processReplicaset_steps fuel cl cfg rs key =
     (if grpcPort rs = 0 then
        p_bind (p_try (deleteFilter_steps cl rs)) (\<lambda>r.
        p_bind (case r of Inl err \<Rightarrow> p_act (processed_Inc ''error'' ''delete'') | Inr _ \<Rightarrow> p_return ()) (\<lambda>_.
        p_bind (p_act (activeState_Delete key)) (\<lambda>_.
        p_bind (p_act (locker_Remove key)) (\<lambda>_.
        p_act (processed_Inc ''success'' ''delete'')))))
      else
        p_bind (p_try (upsertFilter_steps fuel cl cfg rs)) (\<lambda>r.
          case r of
            Inl err \<Rightarrow> p_bind (p_act (processed_Inc ''error'' ''upsert'')) (\<lambda>_. p_fail err)
          | Inr _ \<Rightarrow>
              p_bind (p_act (activeState_Store key (newActiveEntry rs))) (\<lambda>_.
              p_act (processed_Inc ''success'' ''upsert''))))"

section \<open>Run alone\<close>

lemma p_run_cases [prog_run]:
  "p_run (case r of Inl e \<Rightarrow> f e | Inr x \<Rightarrow> g x) = (case r of Inl e \<Rightarrow> p_run (f e) | Inr x \<Rightarrow> p_run (g x))"
  "p_run (case z of (a, b) \<Rightarrow> h a b) = (case z of (a, b) \<Rightarrow> p_run (h a b))"
  by (simp_all split: sum.split prod.split)

lemma p_run_Done [prog_run]: "p_run (Done r) = io_outcome r"
  by (rule ext) (simp add: io_outcome_def)

lemma createService_alone [prog_run]: "p_run (createService_steps cl rs) = createService cl rs"
  by (simp add: createService_steps_def createService_def Let_def prog_run cong: if_cong sum.case_cong)

lemma createIngress_alone [prog_run]: "p_run (createIngress_steps cl rs) = createIngress cl rs"
  by (simp add: createIngress_steps_def createIngress_def Let_def prog_run cong: if_cong sum.case_cong)

lemma upsert_encoded_alone [prog_run]:
  "p_run (upsert_encoded_steps cl cfg rs b ss) = upsert_encoded cl cfg rs b ss"
  by (simp add: upsert_encoded_steps_def upsert_encoded_def Let_def prog_run cong: if_cong sum.case_cong)

lemma upsertEnvoyFilter_alone [prog_run]:
  "p_run (upsertEnvoyFilter_steps cl cfg rs fds ss) = upsertEnvoyFilter cl cfg rs fds ss"
  by (simp add: upsertEnvoyFilter_steps_def upsertEnvoyFilter_def prog_run cong: if_cong sum.case_cong)

lemma deleteFilter_alone [prog_run]: "p_run (deleteFilter_steps cl rs) = deleteFilter cl rs"
  by (simp add: deleteFilter_steps_def deleteFilter_def Let_def prog_run cong: if_cong sum.case_cong)

lemma query_and_upsert_alone [prog_run]:
  "p_run (query_and_upsert_steps fuel cl cfg rs) = query_and_upsert fuel cl cfg rs"
  unfolding query_and_upsert_steps_def query_and_upsert_def prog_run by (rule refl)

lemma upsertFilter_alone [prog_run]:
  "p_run (upsertFilter_steps fuel cl cfg rs) = upsertFilter fuel cl cfg rs"
  by (simp add: upsertFilter_steps_def upsertFilter_def prog_run cong: if_cong)

text \<open>
  The two granularities agree: run alone, the steps of \<open>processReplicaset\<close> do what the
  function does, on every path.
\<close>

lemma steps_alone [prog_run]:
  "p_run (processReplicaset_steps fuel cl cfg rs key) = processReplicaset fuel cl cfg rs key"
  by (simp add: processReplicaset_steps_def processReplicaset_def prog_run cong: if_cong sum.case_cong)

end
