(* ===== verification/ApiRuns.thy ===== *)
theory ApiRuns
  imports ApiSteps
begin

text \<open>
  Goroutines that process ReplicaSets of different deployments at the same time, interleaved at
  every call of an API server: each owns the objects and the active entry of its ReplicaSet, does
  not touch those of the others, and when it has ended has left them as if it had run alone.
\<close>

section \<open>One object\<close>

text \<open>What a call may do that touches no object: nothing to anybody's part.\<close>

lemma idle_call:
  assumes upd: "\<And>s w v. other w = other (world s) \<Longrightarrow> objs w = (objs (world s))(k := v) \<Longrightarrow>
      own i (s\<lparr>world := w\<rparr>) = put v (own i s) \<and> (\<forall>j. j \<noteq> i \<longrightarrow> own j (s\<lparr>world := w\<rparr>) = own j s)"
    and same: "other w = other (world t)" "objs w = objs (world t)"
  shows "own i (t\<lparr>world := w\<rparr>) = own i t \<and> (\<forall>j. j \<noteq> i \<longrightarrow> own j (t\<lparr>world := w\<rparr>) = own j t)"
proof -
  have "own i (t\<lparr>world := world t\<rparr>) = put (objs (world t) k) (own i t)"
    by (rule upd [THEN conjunct1]) simp_all
  then have "put (objs (world t) k) (own i t) = own i t" by simp
  moreover have "objs w = (objs (world t))(k := objs (world t) k)" using same(2) by simp
  ultimately show ?thesis using upd [OF same(1)] by metis
qed

text \<open>The update of an object that is there.\<close>

lemma assured_update_object:
  assumes serves: "serves_objects api exists missing mt strip objs other"
    and upd: "\<And>s w v. other w = other (world s) \<Longrightarrow> objs w = (objs (world s))((ns, om_Name (mt obj)) := v) \<Longrightarrow>
      own i (s\<lparr>world := w\<rparr>) = put v (own i s) \<and> (\<forall>j. j \<noteq> i \<longrightarrow> own j (s\<lparr>world := w\<rparr>) = own j s)"
    and sel: "\<And>s. objs (world s) (ns, om_Name (mt obj)) = sel (own i s)"
    and adopt: "\<And>old. om_Name (mt (adopt old)) = om_Name (mt obj)"
      "\<And>old. om_ResourceVersion (mt (adopt old)) = om_ResourceVersion (mt old)"
      "\<And>old. strip (adopt old) = strip obj"
    and start: "own i s = o1" and old: "sel o1 = Some old"
    and fin: "\<And>x t. own i t = put (Some x) o1 \<Longrightarrow> strip x = strip obj \<Longrightarrow>
      assured (same_own own i) (same_others own i) Q (p_then (fin x) k) t"
  shows "assured (same_own own i) (same_others own i) Q
    (p_then (p_bind (p_wrap m1 (p_world (io_call (api_Get api ns (om_Name (mt obj)))))) (\<lambda>old.
      p_bind (p_wrap m2 (p_world (io_call (api_Update api ns (adopt old))))) fin)) k) s"
  unfolding p_forms
proof (rule assured_act, rule start, goal_cases)
  case (1 u)
  note idle = idle_call [where other = other and objs = objs and own = own and i = i, OF upd]
  have "objs (world u) (ns, om_Name (mt obj)) = Some old" using sel [of u] 1 old by simp
  from serves_objectsE(3) [OF serves this] obtain v where v:
    "api_Get api ns (om_Name (mt obj)) (world u) = (Inr old, v)" "objs v = objs (world u)"
    "other v = other (world u)" by blast
  have o2: "own i (u\<lparr>world := v\<rparr>) = o1" using idle [OF _ _ v(3,2)] 1 by simp
  have "assured (same_own own i) (same_others own i) Q
      (p_then (p_bind (p_wrap m2 (p_world (io_call (api_Update api ns (adopt old))))) fin) k) (u\<lparr>world := v\<rparr>)"
    unfolding p_forms
  proof (rule assured_act, rule o2, goal_cases)
    case (1 x)
    have "objs (world x) (ns, om_Name (mt (adopt old))) = Some old"
      using sel [of x] 1 old adopt(1) by simp
    from serves_objectsE(4) [OF serves this adopt(2)] obtain y z where z:
      "api_Update api ns (adopt old) (world x) = (Inr y, z)" "strip y = strip (adopt old)"
      "objs z = (objs (world x))((ns, om_Name (mt (adopt old))) \<mapsto> y)" "other z = other (world x)"
      by blast
    then show ?case using upd [OF z(4) z(3) [unfolded adopt(1)]] fin [of "x\<lparr>world := z\<rparr>" y] adopt(3) 1
      by (intro exI [of _ "Ok y"] exI [of _ "x\<lparr>world := z\<rparr>"]) (simp add: io_unfold)
  qed
  then show ?case using v(1) idle [OF _ _ v(3,2)]
    by (intro exI [of _ "Ok old"] exI [of _ "u\<lparr>world := v\<rparr>"]) (simp add: io_unfold p_forms)
qed

text \<open>
  The common shape of the three upserts as steps, against a healthy server: whatever the others
  do, the goroutine ends up with the object stored, created or updated.
\<close>

lemma assured_upsert_object:
  assumes serves: "serves_objects api exists missing mt strip objs other"
    and upd: "\<And>s w v. other w = other (world s) \<Longrightarrow> objs w = (objs (world s))((ns, om_Name (mt obj)) := v) \<Longrightarrow>
      own i (s\<lparr>world := w\<rparr>) = put v (own i s) \<and> (\<forall>j. j \<noteq> i \<longrightarrow> own j (s\<lparr>world := w\<rparr>) = own j s)"
    and sel: "\<And>s. objs (world s) (ns, om_Name (mt obj)) = sel (own i s)"
    and adopt: "\<And>old. om_Name (mt (adopt old)) = om_Name (mt obj)"
      "\<And>old. om_ResourceVersion (mt (adopt old)) = om_ResourceVersion (mt old)"
      "\<And>old. strip (adopt old) = strip obj"
    and start: "own i s = o1"
    and made: "\<And>x t. own i t = put (Some x) o1 \<Longrightarrow> strip x = strip obj \<Longrightarrow>
      assured (same_own own i) (same_others own i) Q (p_then (made x) k) t"
    and fin: "\<And>x t. own i t = put (Some x) o1 \<Longrightarrow> strip x = strip obj \<Longrightarrow>
      assured (same_own own i) (same_others own i) Q (p_then (fin x) k) t"
  shows "assured (same_own own i) (same_others own i) Q
    (p_then (p_bind (p_try (p_world (io_call (api_Create api ns obj)))) (\<lambda>r. case r of
        Inr x \<Rightarrow> made x
      | Inl e \<Rightarrow> if \<not> exists e then p_fail (WrapError m0 e)
          else p_bind (p_wrap m1 (p_world (io_call (api_Get api ns (om_Name (mt obj)))))) (\<lambda>old.
            p_bind (p_wrap m2 (p_world (io_call (api_Update api ns (adopt old))))) fin))) k) s"
proof -
  let ?k = "(ns, om_Name (mt obj))"
  note idle = idle_call [where other = other and objs = objs and own = own and i = i, OF upd]
  show ?thesis
    unfolding p_forms
  proof (rule assured_act, rule start, goal_cases)
    case (1 t)
    show ?case
    proof (cases "sel o1")
      case None
      have "objs (world t) ?k = None" using sel [of t] 1 None by simp
      from serves_objectsE(1) [OF serves this] obtain x w where w:
        "api_Create api ns obj (world t) = (Inr x, w)" "strip x = strip obj"
        "objs w = (objs (world t))(?k \<mapsto> x)" "other w = other (world t)" by blast
      then show ?thesis using upd [OF w(4,3)] made [of "t\<lparr>world := w\<rparr>" x] 1
        by (intro exI [of _ "Ok x"] exI [of _ "t\<lparr>world := w\<rparr>"]) (simp add: io_unfold)
    next
      case (Some old)
      have "objs (world t) ?k \<noteq> None" using sel [of t] 1 Some by simp
      from serves_objectsE(2) [OF serves this] obtain e w where w:
        "api_Create api ns obj (world t) = (Inl e, w)" "exists e" "objs w = objs (world t)"
        "other w = other (world t)" by blast
      have o1: "own i (t\<lparr>world := w\<rparr>) = o1" using idle [OF _ _ w(4,3)] 1 by simp
      have rest: "assured (same_own own i) (same_others own i) Q
          (p_then (p_bind (p_wrap m1 (p_world (io_call (api_Get api ns (om_Name (mt obj)))))) (\<lambda>old.
            p_bind (p_wrap m2 (p_world (io_call (api_Update api ns (adopt old))))) fin)) k)
          (t\<lparr>world := w\<rparr>)"
        by (rule assured_update_object [OF serves upd sel adopt o1 Some fin])
      then show ?thesis using w(1,2) idle [OF _ _ w(4,3)]
        by (intro exI [of _ "Fail e"] exI [of _ "t\<lparr>world := w\<rparr>"]) (simp add: io_unfold p_forms)
    qed
  qed
qed

section \<open>The part of the state that belongs to a ReplicaSet\<close>

record part =
  pt_service :: "kservice option"
  pt_ingress :: "kingress option"
  pt_filter :: "envoyfilter option"
  pt_entry :: "active_entry option"

definition part_of ::
    "('w \<Rightarrow> string \<times> string \<rightharpoonup> kservice) \<Rightarrow> ('w \<Rightarrow> string \<times> string \<rightharpoonup> kingress) \<Rightarrow>
     ('w \<Rightarrow> string \<times> string \<rightharpoonup> envoyfilter) \<Rightarrow> replicaset \<Rightarrow> 'w op_state \<Rightarrow> part" where
  "part_of sv ig ef rs s =
     \<lparr>pt_service = sv (world s) (rs_Namespace rs, rs_Name rs),
      pt_ingress = ig (world s) (rs_Namespace rs, rs_Name rs),
      pt_filter = ef (world s) (rs_Namespace rs, envoyFilterName rs),
      pt_entry = activeState s (deployKey rs)\<rparr>"

text \<open>Goroutine \<open>i\<close> processes the ReplicaSet \<open>rss ! i\<close>.\<close>

definition own_part ::
    "('w \<Rightarrow> string \<times> string \<rightharpoonup> kservice) \<Rightarrow> ('w \<Rightarrow> string \<times> string \<rightharpoonup> kingress) \<Rightarrow>
     ('w \<Rightarrow> string \<times> string \<rightharpoonup> envoyfilter) \<Rightarrow> replicaset list \<Rightarrow> nat \<Rightarrow> 'w op_state \<Rightarrow> part option" where
  "own_part sv ig ef rss i s = (if i < length rss then Some (part_of sv ig ef (rss ! i) s) else None)"

text \<open>
  ReplicaSets of different deployments: every one has an owner that is a deployment, as all queued
  ones have, no two have the same deployment key, and no two are the same object.
\<close>

definition independent :: "replicaset list \<Rightarrow> bool" where
  "independent rss \<longleftrightarrow> (\<forall>rs \<in> set rss. snd (getDeploymentKey rs)) \<and> distinct (map deployKey rss) \<and>
     distinct (map (\<lambda>rs. (rs_Namespace rs, rs_Name rs)) rss)"

lemma same_filter_same_key:
  assumes "snd (getDeploymentKey rs)" "snd (getDeploymentKey rs')"
    and "rs_Namespace rs = rs_Namespace rs'" "envoyFilterName rs = envoyFilterName rs'"
  shows "deployKey rs = deployKey rs'"
  using assms by (auto simp: getDeploymentKey_def envoyFilterName_def split: option.splits)

lemma independentD:
  assumes "independent rss" "i < length rss" "j < length rss" "i \<noteq> j"
  shows "deployKey (rss ! i) \<noteq> deployKey (rss ! j)"
    "(rs_Namespace (rss ! i), rs_Name (rss ! i)) \<noteq> (rs_Namespace (rss ! j), rs_Name (rss ! j))"
    "(rs_Namespace (rss ! i), envoyFilterName (rss ! i)) \<noteq> (rs_Namespace (rss ! j), envoyFilterName (rss ! j))"
proof -
  show k: "deployKey (rss ! i) \<noteq> deployKey (rss ! j)"
    using assms by (auto simp: independent_def distinct_conv_nth)
  show "(rs_Namespace (rss ! i), rs_Name (rss ! i)) \<noteq> (rs_Namespace (rss ! j), rs_Name (rss ! j))"
    using assms by (auto simp: independent_def distinct_conv_nth)
  have "snd (getDeploymentKey (rss ! i))" "snd (getDeploymentKey (rss ! j))"
    using assms by (auto simp: independent_def)
  then show "(rs_Namespace (rss ! i), envoyFilterName (rss ! i)) \<noteq> (rs_Namespace (rss ! j), envoyFilterName (rss ! j))"
    using same_filter_same_key k by blast
qed

text \<open>A change of an object of one ReplicaSet changes its part, and no other part.\<close>

lemma own_part_change:
  assumes "independent rss" "i < length rss"
  shows "(ig w, ef w) = (ig (world s), ef (world s)) \<Longrightarrow>
      sv w = (sv (world s))((rs_Namespace (rss ! i), rs_Name (rss ! i)) := v1) \<Longrightarrow>
      own_part sv ig ef rss i (s\<lparr>world := w\<rparr>) = map_option (pt_service_update (\<lambda>_. v1)) (own_part sv ig ef rss i s) \<and>
      (\<forall>j. j \<noteq> i \<longrightarrow> own_part sv ig ef rss j (s\<lparr>world := w\<rparr>) = own_part sv ig ef rss j s)"
    "(sv w, ef w) = (sv (world s), ef (world s)) \<Longrightarrow>
      ig w = (ig (world s))((rs_Namespace (rss ! i), rs_Name (rss ! i)) := v2) \<Longrightarrow>
      own_part sv ig ef rss i (s\<lparr>world := w\<rparr>) = map_option (pt_ingress_update (\<lambda>_. v2)) (own_part sv ig ef rss i s) \<and>
      (\<forall>j. j \<noteq> i \<longrightarrow> own_part sv ig ef rss j (s\<lparr>world := w\<rparr>) = own_part sv ig ef rss j s)"
    "(sv w, ig w) = (sv (world s), ig (world s)) \<Longrightarrow>
      ef w = (ef (world s))((rs_Namespace (rss ! i), envoyFilterName (rss ! i)) := v3) \<Longrightarrow>
      own_part sv ig ef rss i (s\<lparr>world := w\<rparr>) = map_option (pt_filter_update (\<lambda>_. v3)) (own_part sv ig ef rss i s) \<and>
      (\<forall>j. j \<noteq> i \<longrightarrow> own_part sv ig ef rss j (s\<lparr>world := w\<rparr>) = own_part sv ig ef rss j s)"
    "activeState t = (activeState s)(deployKey (rss ! i) := v4) \<Longrightarrow> world t = world s \<Longrightarrow>
      own_part sv ig ef rss i t = map_option (pt_entry_update (\<lambda>_. v4)) (own_part sv ig ef rss i s) \<and>
      (\<forall>j. j \<noteq> i \<longrightarrow> own_part sv ig ef rss j t = own_part sv ig ef rss j s)"
  using independentD [OF assms(1) _ assms(2)] assms(2) by (auto simp: own_part_def part_of_def)

lemma own_part_same:
  "sv (world t) = sv (world s) \<Longrightarrow> ig (world t) = ig (world s) \<Longrightarrow> ef (world t) = ef (world s) \<Longrightarrow>
     activeState t = activeState s \<Longrightarrow> own_part sv ig ef rss j t = own_part sv ig ef rss j s"
  by (simp add: own_part_def part_of_def)

section \<open>One goroutine\<close>

text \<open>What is left of a ReplicaSet's part when it has been processed.\<close>

definition processed_part :: "op_config \<Rightarrow> replicaset \<Rightarrow> part \<Rightarrow> part \<Rightarrow> bool" where
  "processed_part cfg rs before after \<longleftrightarrow>
     (if grpcPort rs = 0 then after = before\<lparr>pt_filter := None, pt_entry := None\<rparr>
      else
        \<exists>x b ss. strip_filter x = newEnvoyFilter rs (b64_encode b) ss (op_version cfg) \<and>
          after = \<lparr>pt_service = None, pt_ingress = if useIngress cfg then None else pt_ingress before,
                   pt_filter = Some x, pt_entry = Some (newActiveEntry rs)\<rparr>)"

abbreviation assured_part where
  "assured_part sv ig ef rss i Q p s \<equiv>
     assured (same_own (own_part sv ig ef rss) i) (same_others (own_part sv ig ef rss) i) Q p s"

lemmas part_step = assured_act [where own = "own_part sv ig ef rss" for sv ig ef rss]

lemma on_world_run: "on_world m s = (case m (world s) of None \<Rightarrow> None | Some (r, w) \<Rightarrow> Some (r, s\<lparr>world := w\<rparr>))"
  by (simp add: io_on_def)

text \<open>Creating and deleting the temporary objects, in a goroutine among others.\<close>

lemma createService_part:
  assumes "healthy cl sv ig ef" "independent rss" "i < length rss"
    and start: "own_part sv ig ef rss i s = Some o1"
    and cont: "\<And>x t. own_part sv ig ef rss i t = Some (o1\<lparr>pt_service := Some x\<rparr>) \<Longrightarrow>
      om_Namespace (sv_meta x) = rs_Namespace (rss ! i) \<Longrightarrow> om_Name (sv_meta x) = rs_Name (rss ! i) \<Longrightarrow>
      assured_part sv ig ef rss i Q (k (Ok x)) t"
  shows "assured_part sv ig ef rss i Q (p_then (createService_steps cl (rss ! i)) k) s"
proof -
  let ?rs = "rss ! i"
  have steps: "createService_steps cl ?rs =
      p_bind (p_try (p_world (io_call (api_Create (Services cl) (rs_Namespace ?rs) (newService ?rs))))) (\<lambda>r. case r of
        Inr x \<Rightarrow> p_return x
      | Inl e \<Rightarrow> if \<not> IsAlreadyExists cl e then p_fail (WrapError ''cannot create service'' e)
          else p_bind (p_wrap ''cannot get service to update''
              (p_world (io_call (api_Get (Services cl) (rs_Namespace ?rs) (om_Name (sv_meta (newService ?rs))))))) (\<lambda>old.
            p_bind (p_wrap ''cannot update service''
              (p_world (io_call (api_Update (Services cl) (rs_Namespace ?rs) (adopt_service ?rs old))))) p_return))"
    unfolding createService_steps_def Let_def adopt_service_def p_bind_return_right by (rule refl)
  show ?thesis unfolding steps
  proof (rule assured_upsert_object [where own = "own_part sv ig ef rss"
        and sel = "\<lambda>p. case p of None \<Rightarrow> None | Some q \<Rightarrow> pt_service q"
        and put = "\<lambda>v. map_option (pt_service_update (\<lambda>_. v))"
        and other = "\<lambda>w. (ig w, ef w)" and objs = sv and strip = strip_service and missing = "IsNotFound cl"])
    show "serves_objects (Services cl) (IsAlreadyExists cl) (IsNotFound cl) sv_meta strip_service sv
        (\<lambda>w. (ig w, ef w))" using assms(1) by (rule healthyD)
    show "own_part sv ig ef rss i s = Some o1" by (rule start)
    show "own_part sv ig ef rss i (u\<lparr>world := w\<rparr>) =
        map_option (pt_service_update (\<lambda>_. v)) (own_part sv ig ef rss i u) \<and>
        (\<forall>j. j \<noteq> i \<longrightarrow> own_part sv ig ef rss j (u\<lparr>world := w\<rparr>) = own_part sv ig ef rss j u)"
      if "(ig w, ef w) = (ig (world u), ef (world u))"
        "sv w = (sv (world u))((rs_Namespace ?rs, om_Name (sv_meta (newService ?rs))) := v)" for u w v
      using own_part_change(1) [OF assms(2,3) that(1)] that(2) unfolding meta_simps .
    show "sv (world u) (rs_Namespace ?rs, om_Name (sv_meta (newService ?rs))) =
        (case own_part sv ig ef rss i u of None \<Rightarrow> None | Some q \<Rightarrow> pt_service q)" for u
      using assms(3) by (simp add: own_part_def part_of_def)
    fix x t
    assume o: "own_part sv ig ef rss i t = map_option (pt_service_update (\<lambda>_. Some x)) (Some o1)"
      and "strip_service x = strip_service (newService ?rs)"
    then show "assured_part sv ig ef rss i Q (p_then (p_return x) k) t"
      "assured_part sv ig ef rss i Q (p_then (p_return x) k) t"
      using cont [of t x] strip_service_meta [of x "newService ?rs"] by (simp_all add: p_return_def)
  qed (simp_all add: strip_adopt, simp_all add: adopt_service_def)
qed

lemma createIngress_part:
  assumes "healthy cl sv ig ef" "independent rss" "i < length rss"
    and start: "own_part sv ig ef rss i s = Some o1"
    and cont: "\<And>x t. own_part sv ig ef rss i t = Some (o1\<lparr>pt_ingress := Some x\<rparr>) \<Longrightarrow>
      om_Namespace (in_meta x) = rs_Namespace (rss ! i) \<Longrightarrow> om_Name (in_meta x) = rs_Name (rss ! i) \<Longrightarrow>
      assured_part sv ig ef rss i Q (k (Ok x)) t"
  shows "assured_part sv ig ef rss i Q (p_then (createIngress_steps cl (rss ! i)) k) s"
proof -
  let ?rs = "rss ! i"
  have steps: "createIngress_steps cl ?rs =
      p_bind (p_try (p_world (io_call (api_Create (Ingresses cl) (rs_Namespace ?rs) (newIngress ?rs))))) (\<lambda>r. case r of
        Inr x \<Rightarrow> p_return x
      | Inl e \<Rightarrow> if \<not> IsAlreadyExists cl e then p_fail (WrapError ''cannot create ingress'' e)
          else p_bind (p_wrap ''Cannot get ingress to update''
              (p_world (io_call (api_Get (Ingresses cl) (rs_Namespace ?rs) (om_Name (in_meta (newIngress ?rs))))))) (\<lambda>old.
            p_bind (p_wrap ''Cannot update ingress to update''
              (p_world (io_call (api_Update (Ingresses cl) (rs_Namespace ?rs) (adopt_ingress ?rs old))))) p_return))"
    unfolding createIngress_steps_def Let_def adopt_ingress_def p_bind_return_right by (rule refl)
  show ?thesis unfolding steps
  proof (rule assured_upsert_object [where own = "own_part sv ig ef rss"
        and sel = "\<lambda>p. case p of None \<Rightarrow> None | Some q \<Rightarrow> pt_ingress q"
        and put = "\<lambda>v. map_option (pt_ingress_update (\<lambda>_. v))"
        and other = "\<lambda>w. (sv w, ef w)" and objs = ig and strip = strip_ingress and missing = "IsNotFound cl"])
    show "serves_objects (Ingresses cl) (IsAlreadyExists cl) (IsNotFound cl) in_meta strip_ingress ig
        (\<lambda>w. (sv w, ef w))" using assms(1) by (rule healthyD)
    show "own_part sv ig ef rss i s = Some o1" by (rule start)
    show "own_part sv ig ef rss i (u\<lparr>world := w\<rparr>) =
        map_option (pt_ingress_update (\<lambda>_. v)) (own_part sv ig ef rss i u) \<and>
        (\<forall>j. j \<noteq> i \<longrightarrow> own_part sv ig ef rss j (u\<lparr>world := w\<rparr>) = own_part sv ig ef rss j u)"
      if "(sv w, ef w) = (sv (world u), ef (world u))"
        "ig w = (ig (world u))((rs_Namespace ?rs, om_Name (in_meta (newIngress ?rs))) := v)" for u w v
      using own_part_change(2) [OF assms(2,3) that(1)] that(2) unfolding meta_simps .
    show "ig (world u) (rs_Namespace ?rs, om_Name (in_meta (newIngress ?rs))) =
        (case own_part sv ig ef rss i u of None \<Rightarrow> None | Some q \<Rightarrow> pt_ingress q)" for u
      using assms(3) by (simp add: own_part_def part_of_def)
    fix x t
    assume o: "own_part sv ig ef rss i t = map_option (pt_ingress_update (\<lambda>_. Some x)) (Some o1)"
      and "strip_ingress x = strip_ingress (newIngress ?rs)"
    then show "assured_part sv ig ef rss i Q (p_then (p_return x) k) t"
      "assured_part sv ig ef rss i Q (p_then (p_return x) k) t"
      using cont [of t x] strip_ingress_meta [of x "newIngress ?rs"] by (simp_all add: p_return_def)
  qed (simp_all add: strip_adopt, simp_all add: adopt_ingress_def)
qed

text \<open>The EnvoyFilter.\<close>

lemma upsert_encoded_part:
  assumes "healthy cl sv ig ef" "independent rss" "i < length rss"
    and start: "own_part sv ig ef rss i s = Some o1"
    and cont: "\<And>x t. own_part sv ig ef rss i t = Some (o1\<lparr>pt_filter := Some x\<rparr>) \<Longrightarrow>
      strip_filter x = newEnvoyFilter (rss ! i) b ss (op_version cfg) \<Longrightarrow>
      assured_part sv ig ef rss i Q (k (Ok ())) t"
  shows "assured_part sv ig ef rss i Q (p_then (upsert_encoded_steps cl cfg (rss ! i) b ss) k) s"
proof -
  let ?rs = "rss ! i" and ?new = "newEnvoyFilter (rss ! i) b ss (op_version cfg)"
  have steps: "upsert_encoded_steps cl cfg ?rs b ss =
      p_bind (p_try (p_world (io_call (api_Create (EnvoyFilters cl) (rs_Namespace ?rs) ?new)))) (\<lambda>r. case r of
        Inr x \<Rightarrow> p_act (filtersGauge_Add 1)
      | Inl e \<Rightarrow> if \<not> IsAlreadyExists cl e then p_fail (WrapError ''cannot upsert EnvoyFilter'' e)
          else p_bind (p_wrap ''cannot get EnvoyFilter to update''
              (p_world (io_call (api_Get (EnvoyFilters cl) (rs_Namespace ?rs) (om_Name (ef_meta ?new)))))) (\<lambda>old.
            p_bind (p_wrap ''cannot Update envoyFilter''
              (p_world (io_call (api_Update (EnvoyFilters cl) (rs_Namespace ?rs) (adopt_filter ?new old)))))
              (\<lambda>_. p_return ())))"
    unfolding upsert_encoded_steps_def Let_def adopt_filter_def by (rule refl)
  show ?thesis unfolding steps
  proof (rule assured_upsert_object [where own = "own_part sv ig ef rss"
        and sel = "\<lambda>p. case p of None \<Rightarrow> None | Some q \<Rightarrow> pt_filter q"
        and put = "\<lambda>v. map_option (pt_filter_update (\<lambda>_. v))"
        and other = "\<lambda>w. (sv w, ig w)" and objs = ef and strip = strip_filter and missing = "IsNotFound cl"])
    show "serves_objects (EnvoyFilters cl) (IsAlreadyExists cl) (IsNotFound cl) ef_meta strip_filter ef
        (\<lambda>w. (sv w, ig w))" using assms(1) by (rule healthyD)
    show "own_part sv ig ef rss i s = Some o1" by (rule start)
    show "own_part sv ig ef rss i (u\<lparr>world := w\<rparr>) =
        map_option (pt_filter_update (\<lambda>_. v)) (own_part sv ig ef rss i u) \<and>
        (\<forall>j. j \<noteq> i \<longrightarrow> own_part sv ig ef rss j (u\<lparr>world := w\<rparr>) = own_part sv ig ef rss j u)"
      if "(sv w, ig w) = (sv (world u), ig (world u))"
        "ef w = (ef (world u))((rs_Namespace ?rs, om_Name (ef_meta ?new)) := v)" for u w v
      using own_part_change(3) [OF assms(2,3) that(1)] that(2) unfolding meta_simps .
    show "ef (world u) (rs_Namespace ?rs, om_Name (ef_meta ?new)) =
        (case own_part sv ig ef rss i u of None \<Rightarrow> None | Some q \<Rightarrow> pt_filter q)" for u
      using assms(3) by (simp add: own_part_def part_of_def)
    fix x t
    assume o: "own_part sv ig ef rss i t = map_option (pt_filter_update (\<lambda>_. Some x)) (Some o1)"
      and "strip_filter x = strip_filter ?new"
    then have x: "strip_filter x = ?new" by (simp add: strip_new)
    show "assured_part sv ig ef rss i Q (p_then (p_return ()) k) t"
      using cont [of t x] o x by (simp add: p_return_def)
    show "assured_part sv ig ef rss i Q (p_then (p_act (filtersGauge_Add 1)) k) t"
    proof (rule assured_act, rule o, goal_cases)
      case (1 u)
      let ?u = "u\<lparr>counters := (counters u)\<lparr>filtersGauge := filtersGauge (counters u) + 1\<rparr>\<rparr>"
      have "own_part sv ig ef rss j ?u = own_part sv ig ef rss j u" for j by (rule own_part_same) simp_all
      then show ?case using cont [of ?u x] x 1
        by (intro exI [of _ "Ok ()"] exI [of _ ?u]) (simp add: filtersGauge_Add_def io_basic)
    qed
  qed (simp_all add: strip_adopt, simp_all add: adopt_filter_def)
qed

text \<open>An action on the world that leaves all objects alone.\<close>

lemma idle_part:
  assumes "own_part sv ig ef rss i s = Some o1"
    and "\<And>w. \<exists>r w'. m w = Some (r, w') \<and> sv w' = sv w \<and> ig w' = ig w \<and> ef w' = ef w \<and> P r"
    and "\<And>r t. P r \<Longrightarrow> own_part sv ig ef rss i t = Some o1 \<Longrightarrow> assured_part sv ig ef rss i Q (k r) t"
  shows "assured_part sv ig ef rss i Q (p_then (p_world m) k) s"
proof (rule assured_act, rule assms(1), goal_cases)
  case (1 t)
  obtain r w where w: "m (world t) = Some (r, w)" "sv w = sv (world t)" "ig w = ig (world t)"
    "ef w = ef (world t)" "P r" using assms(2) by blast
  have "own_part sv ig ef rss j (t\<lparr>world := w\<rparr>) = own_part sv ig ef rss j t" for j
    by (rule own_part_same) (simp_all add: w)
  then show ?case using w assms(3) [of r "t\<lparr>world := w\<rparr>"] 1
    by (intro exI [of _ r] exI [of _ "t\<lparr>world := w\<rparr>"]) (simp add: on_world_run)
qed

lemma query_and_upsert_part:
  assumes h: "healthy cl sv ig ef" "independent rss" "i < length rss"
    and u: "upsertable fuel cl cfg sv ig ef (rss ! i)"
    and start: "own_part sv ig ef rss i s = Some o1"
    and cont: "\<And>x b ss t. own_part sv ig ef rss i t = Some (o1\<lparr>pt_filter := Some x\<rparr>) \<Longrightarrow>
      strip_filter x = newEnvoyFilter (rss ! i) (b64_encode b) ss (op_version cfg) \<Longrightarrow>
      assured_part sv ig ef rss i Q (k (Ok ())) t"
  shows "assured_part sv ig ef rss i Q (p_then (query_and_upsert_steps fuel cl cfg (rss ! i)) k) s"
proof -
  let ?rs = "rss ! i"
  obtain fds services services' bytes where q: "query_gives fuel cl cfg ?rs fds services sv ig ef"
    and f: "filterGRPCServices services ?rs = Ok services'" and b: "Marshal cl fds = Inr bytes"
    using u unfolding upsertable_def by blast
  obtain addr opts where ao: "getAddrOpts cfg ?rs = (addr, opts)" by (cases "getAddrOpts cfg ?rs")
  let ?query = "GetFileDescriptorSet fuel (Backoff cl) (Hooks cl (replica_context ?rs)) (Net cl) addr
    (pathPrefix cfg ?rs) opts"
  have enc: "upsertEnvoyFilter_steps cl cfg ?rs fds services' =
      upsert_encoded_steps cl cfg ?rs (b64_encode bytes) services'"
    by (simp add: upsertEnvoyFilter_steps_def Base64Proto_def b)
  have steps: "query_and_upsert_steps fuel cl cfg ?rs = p_then (p_world ?query) (\<lambda>r.
      p_then (Done (case r of Fail e \<Rightarrow> Fail (WrapError (''cannot query Reflection API or create FileDescriptor for address '' @ op_address cfg) e) | _ \<Rightarrow> r))
        (\<lambda>r. case r of Ok (fds, services) \<Rightarrow>
            p_bind (Done (filterGRPCServices services ?rs)) (\<lambda>services'.
              p_wrap ''cannot upsert EnvoyFilter resource'' (upsertEnvoyFilter_steps cl cfg ?rs fds services'))
          | Fail e \<Rightarrow> Done (Fail e) | Panic s \<Rightarrow> Done (Panic s)))"
    unfolding query_and_upsert_steps_def ao prod.case p_bind_def p_wrap_def p_then_assoc by (rule refl)
  show ?thesis unfolding steps p_then_assoc
  proof (rule idle_part [where P = "\<lambda>r. r = Ok (fds, services)", OF start], goal_cases)
    case (1 w)
    show ?case using q unfolding query_gives_def ao by auto
  next
    case (2 r t)
    show ?case unfolding 2(1)
      by (simp add: p_bind_def p_wrap_def p_then_assoc f enc)
        (rule upsert_encoded_part [OF h 2(2)], simp add: cont)
  qed
qed

text \<open>The deferred removals.\<close>

lemma removal_part:
  assumes own: "own_part sv ig ef rss i s = Some o1"
    and removes: "\<And>t. own_part sv ig ef rss i t = Some o1 \<Longrightarrow>
      \<exists>u. c t = Some u \<and> own_part sv ig ef rss i u = Some o2 \<and>
        (\<forall>j. j \<noteq> i \<longrightarrow> own_part sv ig ef rss j u = own_part sv ig ef rss j t)"
    and cont: "\<And>u. own_part sv ig ef rss i u = Some o2 \<Longrightarrow> assured_part sv ig ef rss i Q (k r) u"
  shows "assured_part sv ig ef rss i Q (p_then (p_act (\<lambda>s. map_option (Pair (Ok ())) (c s))) (\<lambda>_. k r)) s"
proof (rule assured_act, rule own, goal_cases)
  case (1 t)
  from removes [OF 1] obtain u where "c t = Some u" "own_part sv ig ef rss i u = Some o2"
    "\<forall>j. j \<noteq> i \<longrightarrow> own_part sv ig ef rss j u = own_part sv ig ef rss j t" by blast
  then show ?case using cont by (intro exI [of _ "Ok ()"] exI [of _ u]) simp
qed

lemma deleteService_part:
  assumes "healthy cl sv ig ef" "independent rss" "i < length rss"
    and "om_Namespace (sv_meta x) = rs_Namespace (rss ! i)" "om_Name (sv_meta x) = rs_Name (rss ! i)"
    and "own_part sv ig ef rss i t = Some o1"
  shows "\<exists>u. deleteService cl x t = Some u \<and> own_part sv ig ef rss i u = Some (o1\<lparr>pt_service := None\<rparr>) \<and>
    (\<forall>j. j \<noteq> i \<longrightarrow> own_part sv ig ef rss j u = own_part sv ig ef rss j t)"
proof -
  let ?w = "snd (api_Delete (Services cl) (rs_Namespace (rss ! i)) (rs_Name (rss ! i)) (world t))"
  note del = serves_objects_delete [OF healthyD(1) [OF assms(1)]]
  show ?thesis
    using own_part_change(1) [OF assms(2,3), where sv = sv and ig = ig and ef = ef and s = t and w = ?w, OF del(2,1)] assms(4-6)
    by (intro exI [of _ "t\<lparr>world := ?w\<rparr>"]) (simp add: deleteService_def)
qed

lemma deleteIngress_part:
  assumes "healthy cl sv ig ef" "independent rss" "i < length rss"
    and "om_Namespace (in_meta x) = rs_Namespace (rss ! i)" "om_Name (in_meta x) = rs_Name (rss ! i)"
    and "own_part sv ig ef rss i t = Some o1"
  shows "\<exists>u. deleteIngress cl x t = Some u \<and> own_part sv ig ef rss i u = Some (o1\<lparr>pt_ingress := None\<rparr>) \<and>
    (\<forall>j. j \<noteq> i \<longrightarrow> own_part sv ig ef rss j u = own_part sv ig ef rss j t)"
proof -
  let ?w = "snd (api_Delete (Ingresses cl) (rs_Namespace (rss ! i)) (rs_Name (rss ! i)) (world t))"
  note del = serves_objects_delete [OF healthyD(2) [OF assms(1)]]
  show ?thesis
    using own_part_change(2) [OF assms(2,3), where sv = sv and ig = ig and ef = ef and s = t and w = ?w, OF del(2,1)] assms(4-6)
    by (intro exI [of _ "t\<lparr>world := ?w\<rparr>"]) (simp add: deleteIngress_def)
qed

lemma upsertFilter_part:
  assumes h: "healthy cl sv ig ef" "independent rss" "i < length rss"
    and u: "upsertable fuel cl cfg sv ig ef (rss ! i)"
    and start: "own_part sv ig ef rss i s = Some o1"
    and cont: "\<And>x b ss t. own_part sv ig ef rss i t = Some \<lparr>pt_service = None,
          pt_ingress = if useIngress cfg then None else pt_ingress o1, pt_filter = Some x, pt_entry = pt_entry o1\<rparr> \<Longrightarrow>
      strip_filter x = newEnvoyFilter (rss ! i) (b64_encode b) ss (op_version cfg) \<Longrightarrow>
      assured_part sv ig ef rss i Q (k (Ok ())) t"
  shows "assured_part sv ig ef rss i Q (p_then (upsertFilter_steps fuel cl cfg (rss ! i)) k) s"
  unfolding upsertFilter_steps_def p_bind_def p_wrap_def p_then_assoc
proof (rule createService_part [OF h start], goal_cases)
  case (1 x t)
  have service: "assured_part sv ig ef rss i Q
      (p_then (p_act (\<lambda>s. map_option (Pair (Ok ())) (deleteService cl x s))) (\<lambda>_. k (Ok ()))) v"
    if "own_part sv ig ef rss i v = Some (o1\<lparr>pt_service := Some x, pt_ingress := pg, pt_filter := Some y\<rparr>)"
      "pg = (if useIngress cfg then None else pt_ingress o1)"
      "strip_filter y = newEnvoyFilter (rss ! i) (b64_encode b) ss (op_version cfg)" for v y b ss pg
    by (rule removal_part [OF that(1)], erule deleteService_part [OF h 1(2,3)], rule cont) (use that in auto)
  show ?case
  proof (cases "useIngress cfg")
    case False
    show ?thesis
      using False
      by (simp add: p_defer_then p_then_assoc)
        (rule query_and_upsert_part [OF h u 1(1)], rule service [where pg = "pt_ingress o1"], simp_all)
  next
    case True
    show ?thesis
      using True
      apply (simp add: p_defer_then p_then_assoc)
      apply (rule createIngress_part [OF h 1(1)])
      apply (simp add: p_defer_then p_then_assoc)
      apply (rule query_and_upsert_part [OF h u], assumption)
      apply (rule removal_part, assumption, erule deleteIngress_part [OF h], assumption+)
      apply (rule service [where pg = None], simp_all)
      done
  qed
qed

text \<open>Counters and lock entries belong to no one's part.\<close>

lemma counter_part:
  assumes "own_part sv ig ef rss i s = Some o1"
    and "\<And>t. \<exists>u. m t = Some (Ok (), u) \<and> world u = world t \<and> activeState u = activeState t"
    and "\<And>t. own_part sv ig ef rss i t = Some o1 \<Longrightarrow> assured_part sv ig ef rss i Q (k (Ok ())) t"
  shows "assured_part sv ig ef rss i Q (p_then (p_act m) k) s"
proof (rule assured_act, rule assms(1), goal_cases)
  case (1 t)
  obtain u where u: "m t = Some (Ok (), u)" "world u = world t" "activeState u = activeState t"
    using assms(2) by blast
  have "own_part sv ig ef rss j u = own_part sv ig ef rss j t" for j by (rule own_part_same) (simp_all add: u)
  then show ?case using u(1) assms(3) 1 by (intro exI [of _ "Ok ()"] exI [of _ u]) simp
qed

text \<open>The active entry.\<close>

lemma entry_part:
  assumes "independent rss" "i < length rss" "own_part sv ig ef rss i s = Some o1"
    and "\<And>t. \<exists>u. m t = Some (Ok (), u) \<and> world u = world t \<and>
      activeState u = (activeState t)(deployKey (rss ! i) := v)"
    and "\<And>t. own_part sv ig ef rss i t = Some (o1\<lparr>pt_entry := v\<rparr>) \<Longrightarrow> assured_part sv ig ef rss i Q (k (Ok ())) t"
  shows "assured_part sv ig ef rss i Q (p_then (p_act m) k) s"
proof (rule assured_act, rule assms(3), goal_cases)
  case (1 t)
  obtain u where u: "m t = Some (Ok (), u)" "world u = world t"
    "activeState u = (activeState t)(deployKey (rss ! i) := v)" using assms(4) by blast
  note o = own_part_change(4) [OF assms(1,2) u(3,2), where sv = sv and ig = ig and ef = ef]
  then show ?case using u(1) assms(5) 1 by (intro exI [of _ "Ok ()"] exI [of _ u]) simp
qed

lemma deleteFilter_part:
  assumes h: "healthy cl sv ig ef" "independent rss" "i < length rss"
    and start: "own_part sv ig ef rss i s = Some o1"
    and cont: "\<And>t. own_part sv ig ef rss i t = Some (o1\<lparr>pt_filter := None\<rparr>) \<Longrightarrow>
      assured_part sv ig ef rss i Q (k (Ok ())) t"
  shows "assured_part sv ig ef rss i Q (p_then (deleteFilter_steps cl (rss ! i)) k) s"
  unfolding deleteFilter_steps_def Let_def p_bind_def p_try_def p_then_assoc
proof (rule assured_act, rule start, goal_cases)
  case (1 t)
  let ?ns = "rs_Namespace (rss ! i)" and ?nm = "envoyFilterName (rss ! i)"
  note server = healthyD(3) [OF h(1)]
  obtain err w where d: "api_Delete (EnvoyFilters cl) ?ns ?nm (world t) = (err, w)"
    "err = None \<or> (\<exists>e. err = Some e \<and> IsNotFound cl e)"
    using serves_objectsE(5,6) [OF server, where w = "world t" and ns = ?ns and nm = ?nm]
    by (cases "ef (world t) (?ns, ?nm)") force+
  have "(sv w, ig w) = (sv (world t), ig (world t))" "ef w = (ef (world t))((?ns, ?nm) := None)"
    using serves_objects_delete [OF server, of ?ns ?nm "world t"] by (simp_all add: d(1))
  then have o: "own_part sv ig ef rss i (t\<lparr>world := w\<rparr>) = Some (o1\<lparr>pt_filter := None\<rparr>)"
    "\<forall>j. j \<noteq> i \<longrightarrow> own_part sv ig ef rss j (t\<lparr>world := w\<rparr>) = own_part sv ig ef rss j t"
    using own_part_change(3) [OF h(2,3), where sv = sv and ig = ig and ef = ef and s = t] 1 by simp_all
  have gauge: "assured_part sv ig ef rss i Q (p_then (p_act (filtersGauge_Add (- 1))) k) (t\<lparr>world := w\<rparr>)"
    by (rule counter_part [OF o(1)]) (simp_all add: filtersGauge_Add_def io_basic cont)
  from d have "on_world (io_check (api_Delete (EnvoyFilters cl) ?ns ?nm)) t =
      Some (case err of None \<Rightarrow> Ok () | Some e \<Rightarrow> Fail e, t\<lparr>world := w\<rparr>)"
    by (auto simp: on_world_run io_check_cases)
  then show ?case using gauge o(2) d(2) by auto
qed

lemma processReplicaset_part:
  assumes h: "healthy cl sv ig ef" "independent rss" "i < length rss"
    and u: "grpcPort (rss ! i) = 0 \<or> upsertable fuel cl cfg sv ig ef (rss ! i)"
    and start: "own_part sv ig ef rss i s = Some o1"
    and cont: "\<And>t p. own_part sv ig ef rss i t = Some p \<Longrightarrow> processed_part cfg (rss ! i) o1 p \<Longrightarrow>
      assured_part sv ig ef rss i Q (k (Ok ())) t"
  shows "assured_part sv ig ef rss i Q
    (p_then (processReplicaset_steps fuel cl cfg (rss ! i) (deployKey (rss ! i))) k) s"
proof (cases "grpcPort (rss ! i) = 0")
  case True
  have finish: "assured_part sv ig ef rss i Q (k (Ok ())) t"
    if "own_part sv ig ef rss i t = Some (o1\<lparr>pt_filter := None, pt_entry := None\<rparr>)" for t
    by (rule cont, rule that) (simp add: processed_part_def True)
  show ?thesis
    unfolding processReplicaset_steps_def if_P [OF True] p_bind_def p_try_def p_then_assoc
    apply (rule deleteFilter_part [OF h start])
    apply (simp add: p_return_def p_then_assoc)
    apply (rule entry_part [OF h(2,3)], assumption, simp add: activeState_Delete_def io_basic)
    apply (simp add: p_then_assoc)
    apply (rule counter_part, assumption, simp add: locker_Remove_def io_basic)
    apply simp
    apply (rule counter_part, assumption, simp add: processed_Inc_def io_basic)
    apply (rule finish, simp)
    done
next
  case False
  have finish: "assured_part sv ig ef rss i Q (k (Ok ())) t"
    if "own_part sv ig ef rss i t = Some \<lparr>pt_service = None,
        pt_ingress = if useIngress cfg then None else pt_ingress o1, pt_filter = Some x,
        pt_entry = Some (newActiveEntry (rss ! i))\<rparr>"
      "strip_filter x = newEnvoyFilter (rss ! i) (b64_encode b) ss (op_version cfg)" for t x b ss
    by (rule cont, rule that(1)) (use that(2) False in \<open>auto simp: processed_part_def\<close>)
  have up: "upsertable fuel cl cfg sv ig ef (rss ! i)" using u False by simp
  show ?thesis
    unfolding processReplicaset_steps_def if_not_P [OF False] p_bind_def p_try_def p_then_assoc
    apply (rule upsertFilter_part [OF h up start])
    apply (simp add: p_then_assoc)
    apply (rule entry_part [OF h(2,3), where v = "Some (newActiveEntry (rss ! i))"], assumption,
        simp add: activeState_Store_def io_basic)
    apply simp
    apply (rule counter_part, assumption, simp add: processed_Inc_def io_basic)
    apply (rule finish, simp_all)
    done
qed

section \<open>Many goroutines\<close>

text \<open>One goroutine for each ReplicaSet of a list.\<close>

definition processing ::
    "nat \<Rightarrow> ('w, 'b, 'c, 's) cluster \<Rightarrow> op_config \<Rightarrow> replicaset list \<Rightarrow> 'w op_state \<Rightarrow> ('w op_state, unit) pool" where
  "processing fuel cl cfg rss s =
     (pool_of (length rss) (\<lambda>i. processReplicaset_steps fuel cl cfg (rss ! i) (deployKey (rss ! i))), s)"

text \<open>What each of them ends with; the ReplicaSets \<open>idle\<close> are not processed, and nothing of theirs changes.\<close>

definition processed_all where
  "processed_all sv ig ef cfg rss idle s i r t \<longleftrightarrow>
     (i < length rss \<longrightarrow> r = Ok () \<and>
        processed_part cfg (rss ! i) (part_of sv ig ef (rss ! i) s) (part_of sv ig ef (rss ! i) t)) \<and>
     (\<forall>j < length idle. i = length rss + j \<longrightarrow>
        part_of sv ig ef (idle ! j) t = part_of sv ig ef (idle ! j) s)"

abbreviation processing_inv where
  "processing_inv sv ig ef cfg rss idle s \<equiv>
     rely_guarantee.pool_inv (same_own (own_part sv ig ef (rss @ idle)))
       (same_others (own_part sv ig ef (rss @ idle))) (processed_all sv ig ef cfg rss idle s)"

lemma processing_assured:
  assumes "healthy cl sv ig ef" "independent (rss @ idle)"
    and "\<forall>rs \<in> set rss. grpcPort rs = 0 \<or> upsertable fuel cl cfg sv ig ef rs"
  shows "processing_inv sv ig ef cfg rss idle s (processing fuel cl cfg rss s)"
  unfolding owners.pool_inv_def processing_def fst_conv snd_conv pool_of_def
proof (intro allI)
  fix i
  show "assured_part sv ig ef (rss @ idle) i (processed_all sv ig ef cfg rss idle s i)
      (if i < length rss then processReplicaset_steps fuel cl cfg (rss ! i) (deployKey (rss ! i)) else Done (Ok ())) s"
  proof (cases "i < length rss")
    case True
    then have i: "i < length (rss @ idle)" "(rss @ idle) ! i = rss ! i" by (simp_all add: nth_append)
    have "assured_part sv ig ef (rss @ idle) i (processed_all sv ig ef cfg rss idle s i)
        (p_then (processReplicaset_steps fuel cl cfg ((rss @ idle) ! i) (deployKey ((rss @ idle) ! i))) Done) s"
      by (rule processReplicaset_part [OF assms(1,2) i(1), where ?o1.0 = "part_of sv ig ef (rss ! i) s"])
        (use assms(3) True i in \<open>auto simp: own_part_def processed_all_def intro!: assured_finished\<close>)
    then have "assured_part sv ig ef (rss @ idle) i (processed_all sv ig ef cfg rss idle s i)
        (processReplicaset_steps fuel cl cfg ((rss @ idle) ! i) (deployKey ((rss @ idle) ! i))) s"
      unfolding p_then_Done .
    then show ?thesis using True i(2) by simp
  next
    case False
    show ?thesis unfolding if_not_P [OF False]
      by (rule assured_finished, rule refl)
        (use False in \<open>auto simp: own_part_def processed_all_def nth_append split: if_splits\<close>)
  qed
qed

lemma processing_done: "\<forall>j \<ge> length rss. \<exists>r. fst (processing fuel cl cfg rss s) j = Done r"
  by (simp add: processing_def pool_of_def)

text \<open>
  C6. Different deployments do not interfere: when goroutines process ReplicaSets of different
  deployments at the same time against healthy API servers, each ReplicaSet one without a port or
  one whose services and files the query gives, with their calls of the API servers and their
  accesses to the operator's state interleaved in any way (a query is one access), then each that
  has ended has ended without an error and has left its ReplicaSet's objects and entry as if it
  had run alone: the filter made for it stored (or removed, for one without a port), its
  temporary objects gone, its entry recorded. The objects and the entry of every further
  deployment are as they were. From every state of a run all can go on to their ends. Run alone,
  such a goroutine is \<open>processReplicaset\<close> itself.
\<close>

theorem deployments_do_not_interfere:
  assumes "healthy cl sv ig ef" and "independent (rss @ idle)"
    and "\<forall>rs \<in> set rss. grpcPort rs = 0 \<or> upsertable fuel cl cfg sv ig ef rs"
    and "lrun pool_step (processing fuel cl cfg rss s) ls (ps, t)"
  shows "(\<forall>i < length rss. \<forall>r. ps i = Done r \<longrightarrow> r = Ok () \<and>
      processed_part cfg (rss ! i) (part_of sv ig ef (rss ! i) s) (part_of sv ig ef (rss ! i) t)) \<and>
    (\<forall>rs \<in> set idle. part_of sv ig ef rs t = part_of sv ig ef rs s) \<and>
    (\<exists>ms d. lrun pool_step (ps, t) ms d \<and> finished d) \<and>
    (\<forall>i < length rss. p_run (fst (processing fuel cl cfg rss s) i) =
      processReplicaset fuel cl cfg (rss ! i) (deployKey (rss ! i)))"
proof -
  have "p_run (fst (processing fuel cl cfg rss s) i) = processReplicaset fuel cl cfg (rss ! i) (deployKey (rss ! i))"
    if "i < length rss" for i
    using that by (simp add: processing_def pool_of_def steps_alone)
  moreover note ends = owners.run_ends [OF assms(4) processing_assured [OF assms(1-3)]]
  have "part_of sv ig ef rs t = part_of sv ig ef rs s" if mem: "rs \<in> set idle" for rs
  proof -
    obtain j where j: "j < length idle" "rs = idle ! j" using mem by (auto simp: in_set_conv_nth)
    have "ps (length rss + j) = Done (Ok ())"
      using stays_done [OF assms(4), of "length rss + j" "Ok ()"]
      unfolding processing_def pool_of_def fst_conv by simp
    from ends [OF this] have "\<forall>k < length idle. length rss + j = length rss + k \<longrightarrow>
        part_of sv ig ef (idle ! k) t = part_of sv ig ef (idle ! k) s"
      unfolding processed_all_def by (rule conjunct2)
    then show ?thesis unfolding j(2) using j(1) by blast
  qed
  moreover have "r = Ok () \<and> processed_part cfg (rss ! i) (part_of sv ig ef (rss ! i) s) (part_of sv ig ef (rss ! i) t)"
    if "i < length rss" "ps i = Done r" for i r
    using ends [OF that(2)] that(1) unfolding processed_all_def by blast
  moreover have "\<exists>ms d. lrun pool_step (ps, t) ms d \<and> finished d"
    by (rule owners.can_finish [OF owners.pool.run_inv [OF assms(4) processing_assured [OF assms(1-3)]]
          stay_done [OF assms(4) processing_done]]) simp
  ultimately show ?thesis by blast
qed

section \<open>Instances\<close>

text \<open>ReplicaSets of further deployments, with and without a port.\<close>

definition rs_of :: "string \<Rightarrow> replicaset" where
  "rs_of d = plain_rs\<lparr>rs_Name := d @ ''-1'', rs_OwnerReferences :=
     [\<lparr>or_APIVersion = ''apps/v1'', or_Kind = ''Deployment'', or_Name = d, or_UID = d, or_rest = []\<rparr>]\<rparr>"

definition portless_of :: "string \<Rightarrow> replicaset" where
  "portless_of d = (rs_of d)\<lparr>rs_Annotations := [revisionAnnotation \<mapsto> ''1'']\<rparr>"

lemma rs_of_facts:
  "getDeploymentKey (rs_of d) = (''ns/'' @ d, True)" "getDeploymentKey (portless_of d) = (''ns/'' @ d, True)"
  "rs_Name (rs_of d) = d @ ''-1''" "rs_Name (portless_of d) = d @ ''-1''"
  "grpcPort (rs_of d) = 8080" "grpcPort (portless_of d) = 0"
  by (simp_all add: rs_of_def portless_of_def plain_rs_def sample_rs_def getDeploymentKey_def getDeployment_def
      grpcPort_def grpcPortStr_def annotation_defs numerals)

lemma rs_of_upsertable: "upsertable 1 sample_cluster cfg kw_services kw_ingresses kw_filters (rs_of d)"
  unfolding upsertable_def
  by (intro exI conjI, rule sample_query_gives)
    (simp_all add: filterGRPCServices_def rs_of_def plain_rs_def annotation_defs mapFromString_def sample_cluster_def)

lemma samples_independent: "independent [rs_of ''d'', rs_of ''e'', portless_of ''f'', rs_of ''g'']"
  by (simp add: independent_def rs_of_facts)

theorem deployments_do_not_interfere_witness:
  "\<exists>ls ps t. lrun pool_step
      (processing 1 sample_cluster sample_config [rs_of ''d'', rs_of ''e'', portless_of ''f''] sample_state) ls (ps, t) \<and>
    (\<forall>i < 3. ps i = Done (Ok ())) \<and> filter_of sample_config (kw_filters (world t)) (rs_of ''d'') \<and>
    activeState t ''ns/e'' = Some (newActiveEntry (rs_of ''e'')) \<and>
    kw_services (world t) (rs_Namespace (rs_of ''e''), rs_Name (rs_of ''e'')) = None"
proof -
  let ?rss = "[rs_of ''d'', rs_of ''e'', portless_of ''f'']" and ?idle = "[rs_of ''g'']"
  let ?start = "processing 1 sample_cluster sample_config ?rss sample_state"
  have ind: "independent (?rss @ ?idle)" using samples_independent by simp
  have up: "\<forall>rs \<in> set ?rss. grpcPort rs = 0 \<or>
      upsertable 1 sample_cluster sample_config kw_services kw_ingresses kw_filters rs"
    by (simp add: rs_of_upsertable rs_of_facts del: One_nat_def)
  have "lrun pool_step ?start [] (fst ?start, snd ?start)" by (simp add: lrun_Nil)
  from deployments_do_not_interfere [OF sample_healthy ind up this]
  obtain ls c where run: "lrun pool_step ?start ls c" "finished c" unfolding prod.collapse by blast
  obtain ps t where c: "c = (ps, t)" by (cases c)
  note all = deployments_do_not_interfere [OF sample_healthy ind up run(1) [unfolded c], THEN conjunct1]
  have ended: "ps i = Done (Ok ()) \<and> processed_part sample_config (?rss ! i)
      (part_of kw_services kw_ingresses kw_filters (?rss ! i) sample_state)
      (part_of kw_services kw_ingresses kw_filters (?rss ! i) t)" if "i < 3" for i
  proof -
    obtain r where "ps i = Done r" using finishedD [OF run(2) [unfolded c], of i] by (elim exE)
    with all [rule_format, of i r] that show ?thesis by simp
  qed
  have "filter_of sample_config (kw_filters (world t)) (rs_of ''d'')"
    using ended [of 0] by (auto simp: processed_part_def part_of_def filter_of_def rs_of_facts)
  moreover have "activeState t ''ns/e'' = Some (newActiveEntry (rs_of ''e''))"
    "kw_services (world t) (rs_Namespace (rs_of ''e''), rs_Name (rs_of ''e'')) = None"
    using ended [of 1] by (auto simp: processed_part_def part_of_def rs_of_facts)
  ultimately show ?thesis using run(1) ended unfolding c by blast
qed

end
