(* ===== verification/Workers.thy ===== *)
theory Workers
  imports MutexMap Systems
begin

text \<open>
  The worker goroutines of the operator (\<open>runWorkers\<close> and \<open>next\<close>, operator.go) as they
  contend for the per-deployment locks of \<open>MutexMap\<close>. Each worker is outside its critical
  section, blocked in \<open>v.Lock()\<close> on the mutex at an address, or inside the section of a
  deployment. A step is one atomic action on the lock map; which worker moves is open.

  A \<open>Remove\<close> comes from the worker that is inside the section and deletes the EnvoyFilter
  (\<open>processReplicaset\<close>), or at any time from the informer goroutine (\<open>cleanupDeployment\<close>).
  Without removals the map gives mutual exclusion, no run-time error, and progress. The last
  section shows what a removal does to the workers that wait for, hold, or come for the lock.
\<close>

section \<open>The step relation\<close>

datatype worker_pc = Outside | Waiting string nat | Inside string

record workers =
  mutexes :: mutex_map
  pcs :: "nat \<Rightarrow> worker_pc"
  crashed :: bool

datatype wlabel =
    WStored nat string
  | WBlocked nat string
  | WAcquired nat
  | WUnlocked nat
  | WCrashed nat
  | WRemovedBy nat string
  | WCleanup string

definition workers_init :: workers where
  "workers_init = \<lparr>mutexes = mm_empty, pcs = (\<lambda>_. Outside), crashed = False\<rparr>"

inductive wstep :: "workers \<Rightarrow> wlabel \<Rightarrow> workers \<Rightarrow> bool" where
  stored: "\<not> crashed s \<Longrightarrow> pcs s i = Outside \<Longrightarrow> Lock_enter k (mutexes s) = (None, m) \<Longrightarrow>
    wstep s (WStored i k) (s\<lparr>mutexes := m, pcs := (pcs s)(i := Inside k)\<rparr>)"
| blocked: "\<not> crashed s \<Longrightarrow> pcs s i = Outside \<Longrightarrow> Lock_enter k (mutexes s) = (Some v, m) \<Longrightarrow>
    wstep s (WBlocked i k) (s\<lparr>mutexes := m, pcs := (pcs s)(i := Waiting k v)\<rparr>)"
| acquired: "\<not> crashed s \<Longrightarrow> pcs s i = Waiting k v \<Longrightarrow> mutex_Lock v (mutexes s) = Some m \<Longrightarrow>
    wstep s (WAcquired i) (s\<lparr>mutexes := m, pcs := (pcs s)(i := Inside k)\<rparr>)"
| unlocked: "\<not> crashed s \<Longrightarrow> pcs s i = Inside k \<Longrightarrow> Unlock k (mutexes s) = Some (Ok (), m) \<Longrightarrow>
    wstep s (WUnlocked i) (s\<lparr>mutexes := m, pcs := (pcs s)(i := Outside)\<rparr>)"
| crash: "\<not> crashed s \<Longrightarrow> pcs s i = Inside k \<Longrightarrow> Unlock k (mutexes s) = Some (Panic p, m) \<Longrightarrow>
    wstep s (WCrashed i) (s\<lparr>mutexes := m, crashed := True\<rparr>)"
| removed_by: "\<not> crashed s \<Longrightarrow> pcs s i = Inside k \<Longrightarrow>
    wstep s (WRemovedBy i k) (s\<lparr>mutexes := Remove k (mutexes s)\<rparr>)"
| cleanup: "\<not> crashed s \<Longrightarrow> wstep s (WCleanup k) (s\<lparr>mutexes := Remove k (mutexes s)\<rparr>)"

inductive_cases wstepE: "wstep s l t"

abbreviation wrun :: "workers \<Rightarrow> wlabel list \<Rightarrow> workers \<Rightarrow> bool" where
  "wrun \<equiv> lrun wstep"

fun removal :: "wlabel \<Rightarrow> bool" where
  "removal (WRemovedBy i k) = True"
| "removal (WCleanup k) = True"
| "removal _ = False"

section \<open>Runs without removals\<close>

text \<open>
  A worker inside a section holds the lock its deployment's entry leads to, it is the only one
  in there, a held entry has such a worker, and whoever waits does so on the current entry.
\<close>

definition winv :: "workers \<Rightarrow> bool" where
  "winv s \<longleftrightarrow> mm_wf (mutexes s) \<and> \<not> crashed s
     \<and> (\<forall>i k. pcs s i = Inside k \<longrightarrow> holds k (mutexes s))
     \<and> (\<forall>i j k. pcs s i = Inside k \<and> pcs s j = Inside k \<longrightarrow> i = j)
     \<and> (\<forall>k. holds k (mutexes s) \<longrightarrow> (\<exists>i. pcs s i = Inside k))
     \<and> (\<forall>i k v. pcs s i = Waiting k v \<longrightarrow> sm (mutexes s) k = Some v)"

lemma winv_init: "winv workers_init"
  by (simp add: winv_def workers_init_def)

lemma winvD:
  assumes "winv s"
  shows "mm_wf (mutexes s)" "\<not> crashed s"
    "pcs s i = Inside k \<Longrightarrow> holds k (mutexes s)"
    "pcs s i = Inside k \<Longrightarrow> pcs s j = Inside k \<Longrightarrow> i = j"
    "holds k (mutexes s) \<Longrightarrow> \<exists>i. pcs s i = Inside k"
    "pcs s i = Waiting k v \<Longrightarrow> sm (mutexes s) k = Some v"
  using assms unfolding winv_def by blast+

text \<open>What the three kinds of lock action do to the set of held names.\<close>

lemma Lock_enter_stored:
  assumes "mm_wf m" "Lock_enter k m = (None, m')"
  shows "sm m k = None" "\<not> holds k m" "holds j m' \<longleftrightarrow> j = k \<or> holds j m"
    "sm m' = (sm m)(k \<mapsto> fresh m)"
proof -
  show none: "sm m k = None" using assms(2) by (cases "sm m k") (simp_all add: Lock_enter_eqs)
  then show "\<not> holds k m" by (simp add: holds_def)
  have m': "m' = m\<lparr>sm := (sm m)(k \<mapsto> fresh m), locked := insert (fresh m) (locked m),
                   fresh := Suc (fresh m)\<rparr>"
    using assms(2) none by (simp add: Lock_enter_eqs)
  then show "sm m' = (sm m)(k \<mapsto> fresh m)" by simp
  show "holds j m' \<longleftrightarrow> j = k \<or> holds j m"
    using mm_wfD(1) [OF assms(1), of j]
    by (cases "sm m j") (auto simp: m' holds_def none)
qed

lemma Lock_enter_blocked:
  assumes "mm_wf m" "Lock_enter k m = (Some v, m')"
  shows "sm m k = Some v" "sm m' = sm m" "holds j m' = holds j m"
proof -
  show some: "sm m k = Some v"
    using assms(2) by (cases "sm m k") (simp_all add: Lock_enter_eqs)
  have m': "m' = m\<lparr>locked := insert (fresh m) (locked m), fresh := Suc (fresh m)\<rparr>"
    using assms(2) some by (simp add: Lock_enter_eqs)
  then show "sm m' = sm m" by simp
  show "holds j m' = holds j m"
    using mm_wfD(1) [OF assms(1), of j] by (cases "sm m j") (auto simp: m' holds_def)
qed

lemma mutex_Lock_entry:
  assumes "mm_wf m" "sm m k = Some v" "mutex_Lock v m = Some m'"
  shows "mm_wf m'" "sm m' = sm m" "\<not> holds k m" "holds j m' \<longleftrightarrow> j = k \<or> holds j m"
proof -
  have v: "v \<notin> locked m" and m': "m' = m\<lparr>locked := insert v (locked m)\<rparr>"
    using assms(3) by (auto simp: mutex_Lock_def split: if_splits)
  show "mm_wf m'" using assms(1,2) by (auto simp: mm_wf_def m')
  show "sm m' = sm m" by (simp add: m')
  show "\<not> holds k m" using v assms(2) by (simp add: holds_def)
  show "holds j m' \<longleftrightarrow> j = k \<or> holds j m"
    using mm_wfD(3) [OF assms(1), of j v k] assms(2)
    by (cases "sm m j") (auto simp: m' holds_def)
qed

lemma winvI:
  assumes "mm_wf (mutexes s)" "\<not> crashed s"
    and "\<And>i k. pcs s i = Inside k \<Longrightarrow> holds k (mutexes s)"
    and "\<And>i j k. pcs s i = Inside k \<Longrightarrow> pcs s j = Inside k \<Longrightarrow> i = j"
    and "\<And>k. holds k (mutexes s) \<Longrightarrow> \<exists>i. pcs s i = Inside k"
    and "\<And>i k v. pcs s i = Waiting k v \<Longrightarrow> sm (mutexes s) k = Some v"
  shows "winv s"
  using assms unfolding winv_def by blast

text \<open>A worker that takes the free lock of \<open>k\<close>, whichever way it got there.\<close>

lemma winv_enter:
  assumes w: "winv s" and pc: "\<forall>j. pcs s i \<noteq> Inside j"
    and m: "mm_wf m" "\<not> holds k (mutexes s)"
      "\<And>j. holds j m \<longleftrightarrow> j = k \<or> holds j (mutexes s)"
      "\<And>a j v. a \<noteq> i \<Longrightarrow> pcs s a = Waiting j v \<Longrightarrow> sm m j = Some v"
  shows "winv (s\<lparr>mutexes := m, pcs := (pcs s)(i := Inside k)\<rparr>)"
proof (rule winvI, goal_cases)
  case 1 show ?case by (simp add: m(1))
next
  case 2 show ?case by (simp add: winvD(2) [OF w])
next
  case (3 a j)
  then show ?case by (cases "a = i") (simp_all add: m(3) winvD(3) [OF w, of a])
next
  case (4 a b j)
  have free: "pcs s c \<noteq> Inside k" for c using winvD(3) [OF w, of c k] m(2) by blast
  from 4 free show ?case
    using winvD(4) [OF w, of a j b] by (cases "a = i"; cases "b = i") auto
next
  case (5 j)
  then consider "j = k" | "j \<noteq> k" "holds j (mutexes s)" by (auto simp: m(3))
  then show ?case
  proof cases
    case 1
    then show ?thesis by (intro exI [of _ i]) simp
  next
    case 2
    then obtain a where "pcs s a = Inside j" using winvD(5) [OF w] by blast
    with pc show ?thesis by (intro exI [of _ a]) auto
  qed
next
  case (6 a j v)
  then show ?case by (cases "a = i") (simp_all add: m(4))
qed

text \<open>A worker that finds an entry and goes to wait for its mutex.\<close>

lemma winv_wait:
  assumes w: "winv s" and pc: "\<forall>j. pcs s i \<noteq> Inside j"
    and m: "mm_wf m" "sm (mutexes s) k = Some v" "sm m = sm (mutexes s)" "\<And>j. holds j m = holds j (mutexes s)"
  shows "winv (s\<lparr>mutexes := m, pcs := (pcs s)(i := Waiting k v)\<rparr>)"
proof (rule winvI, goal_cases)
  case (3 a j)
  then show ?case by (cases "a = i") (simp_all add: m(4) winvD(3) [OF w, of a])
next
  case (4 a b j)
  then show ?case using winvD(4) [OF w, of a j b] by (cases "a = i"; cases "b = i") simp_all
next
  case (5 j)
  then obtain a where "pcs s a = Inside j" using winvD(5) [OF w] by (auto simp: m(4))
  with pc show ?case by (intro exI [of _ a]) auto
next
  case (6 a j u)
  show ?case
  proof (cases "a = i")
    case True
    with 6 have "j = k" "u = v" by simp_all
    then show ?thesis using m(2,3) by simp
  next
    case False
    with 6 show ?thesis using winvD(6) [OF w, of a j u] by (simp add: m(3))
  qed
qed (simp_all add: m(1) winvD(2) [OF w])

text \<open>A worker that releases the lock of \<open>k\<close>.\<close>

lemma winv_leave:
  assumes w: "winv s" and pc: "pcs s i = Inside k"
    and m: "mm_wf m" "sm m = sm (mutexes s)" "\<And>j. holds j m \<longleftrightarrow> j \<noteq> k \<and> holds j (mutexes s)"
  shows "winv (s\<lparr>mutexes := m, pcs := (pcs s)(i := Outside)\<rparr>)"
proof (rule winvI, goal_cases)
  case (3 a j)
  then show ?case using winvD(3) [OF w, of a j] winvD(4) [OF w pc, of a] by (cases "a = i") (auto simp: m(3))
next
  case (4 a b j)
  then show ?case using winvD(4) [OF w, of a j b] by (cases "a = i"; cases "b = i") simp_all
next
  case (5 j)
  then obtain a where "pcs s a = Inside j" "j \<noteq> k" using winvD(5) [OF w] by (auto simp: m(3))
  with pc show ?case by (intro exI [of _ a]) auto
next
  case (6 a j u)
  then show ?case using winvD(6) [OF w, of a j u] by (cases "a = i") (simp_all add: m(2))
qed (simp_all add: m(1) winvD(2) [OF w])

lemma wstep_winv:
  assumes "wstep s l t" "winv s" "\<not> removal l"
  shows "winv t"
  using assms
proof (induction rule: wstep.induct)
  case (stored s i k m)
  note w = winvD [OF stored(4)] and e = Lock_enter_stored [OF winvD(1) [OF stored(4)] stored(3)]
  have wf: "mm_wf m" using Lock_enter_wf [OF w(1), of k] stored(3) by simp
  have wait: "sm m j = Some v" if "pcs s a = Waiting j v" for a j v
    using w(6) [OF that] e(1,4) by auto
  show ?case
    using stored(2) by (intro winv_enter [OF stored(4) _ wf e(2,3) wait]) auto
next
  case (blocked s i k v m)
  note w = winvD [OF blocked(4)] and e = Lock_enter_blocked [OF winvD(1) [OF blocked(4)] blocked(3)]
  have wf: "mm_wf m" using Lock_enter_wf [OF w(1), of k] blocked(3) by simp
  show ?case using blocked(4) _ wf e by (rule winv_wait) (use blocked(2) in simp)
next
  case (acquired s i k v m)
  note w = winvD [OF acquired(4)]
  note e = mutex_Lock_entry [OF w(1) w(6) [OF acquired(2)] acquired(3)]
  have wait: "sm m j = Some u" if "pcs s a = Waiting j u" for a j u
    using w(6) [OF that] e(2) by simp
  show ?case
    using acquired(2) by (intro winv_enter [OF acquired(4) _ e(1) e(3,4) wait]) auto
next
  case (unlocked s i k m)
  note w = winvD [OF unlocked(4)]
  note e = Unlock_held [OF w(1) w(3) [OF unlocked(2)] unlocked(3)]
  have wf: "mm_wf m" using w(1) unlocked(3) by (rule Unlock_wf)
  show ?case using unlocked(4,2) wf e(2,3) by (rule winv_leave)
next
  case (crash s i k p m)
  note w = winvD [OF crash(4)]
  from Unlock_held(1) [OF w(1) w(3) [OF crash(2)] crash(3)] show ?case by simp
qed simp_all

interpretation lock_steps: label_system wstep "\<lambda>l. \<not> removal l" winv
  by unfold_locales (rule wstep_winv)

lemmas wrun_winv = lock_steps.run_inv

text \<open>
  C8. Mutual exclusion: in every run of the workers in which no lock entry is removed, no two
  workers are inside the critical section of one deployment, and no worker ever unlocks a mutex
  that is not locked.
\<close>

theorem workers_mutual_exclusion:
  assumes "wrun workers_init ls t" and "\<forall>l \<in> set ls. \<not> removal l"
  shows "\<not> (i \<noteq> j \<and> pcs t i = Inside k \<and> pcs t j = Inside k) \<and> \<not> crashed t"
proof -
  have "winv t" using assms wrun_winv winv_init by blast
  then show ?thesis using winvD(2,4) by blast
qed

text \<open>The run used as an instance: worker 0 holds the lock of \<open>k\<close>, worker 1 waits for it.\<close>

definition contended :: "string \<Rightarrow> workers" where
  "contended k =
     \<lparr>mutexes = \<lparr>sm = [k \<mapsto> 0], locked = {0, 1}, fresh = 2\<rparr>,
      pcs = (\<lambda>_. Outside)(0 := Inside k, 1 := Waiting k 0), crashed = False\<rparr>"

lemma contended_run: "wrun workers_init [WStored 0 k, WBlocked 1 k] (contended k)"
proof -
  define s1 where "s1 = \<lparr>mutexes = \<lparr>sm = [k \<mapsto> 0], locked = {0}, fresh = 1\<rparr>,
    pcs = (\<lambda>_. Outside)(0 := Inside k), crashed = False\<rparr>"
  have "wstep workers_init (WStored 0 k) s1"
    using wstep.stored [of workers_init 0 k "mutexes s1"]
    by (simp add: s1_def workers_init_def mm_empty_def Lock_enter_eqs)
  moreover have "wstep s1 (WBlocked 1 k) (contended k)"
    using wstep.blocked [of s1 1 k 0 "mutexes (contended k)"]
    by (simp add: s1_def contended_def Lock_enter_eqs insert_commute numeral_2_eq_2)
  ultimately show ?thesis by auto
qed

theorem workers_mutual_exclusion_witness:
  "wrun workers_init [WStored 0 ''ns/d'', WBlocked 1 ''ns/d''] (contended ''ns/d'') \<and>
   \<not> (pcs (contended ''ns/d'') 0 = Inside ''ns/d'' \<and> pcs (contended ''ns/d'') 1 = Inside ''ns/d'') \<and>
   \<not> crashed (contended ''ns/d'')"
  using contended_run [of "''ns/d''"]
    workers_mutual_exclusion [OF contended_run [of "''ns/d''"], of 0 1 "''ns/d''"] by simp

text \<open>
  Progress: a waiting worker can be let in. Either the mutex is free, or the worker inside can
  leave, and then it is.
\<close>

lemma wstep_acquire_enabled:
  assumes "winv s" "pcs s i = Waiting k v" "\<not> holds k (mutexes s)"
  shows "\<exists>t. wstep s (WAcquired i) t \<and> pcs t i = Inside k"
proof -
  have "v \<notin> locked (mutexes s)"
    using winvD(6) [OF assms(1,2)] assms(3) by (simp add: holds_def)
  then have "mutex_Lock v (mutexes s) = Some ((mutexes s)\<lparr>locked := insert v (locked (mutexes s))\<rparr>)"
    by (simp add: mutex_Lock_def)
  from wstep.acquired [OF winvD(2) [OF assms(1)] assms(2) this] show ?thesis
    by (intro exI conjI) auto
qed

lemma wstep_unlock_enabled:
  assumes "winv s" "pcs s j = Inside k"
  shows "\<exists>t. wstep s (WUnlocked j) t \<and> \<not> holds k (mutexes t) \<and> pcs t = (pcs s)(j := Outside)"
proof -
  obtain m where "Unlock k (mutexes s) = Some (Ok (), m)" "\<not> holds k m"
    using Unlock_releases winvD(3) [OF assms] by blast
  with wstep.unlocked [OF winvD(2) [OF assms(1)] assms(2)] show ?thesis
    by (intro exI conjI) auto
qed

text \<open>
  C14. Progress: in every state that a run without removals reaches, a worker that waits for the
  lock of a deployment can get inside its section in at most two further steps, the release by
  the worker inside and its own acquisition.
\<close>

theorem waiting_worker_progress:
  assumes "wrun workers_init ls s" and "\<forall>l \<in> set ls. \<not> removal l" and "pcs s i = Waiting k v"
  shows "\<exists>ms t. wrun s ms t \<and> length ms \<le> 2 \<and> (\<forall>l \<in> set ms. \<not> removal l) \<and> pcs t i = Inside k"
proof (cases "holds k (mutexes s)")
  case False
  have "winv s" using assms wrun_winv winv_init by blast
  from wstep_acquire_enabled [OF this assms(3) False] obtain t
    where "wstep s (WAcquired i) t" "pcs t i = Inside k" by blast
  then show ?thesis by (intro exI [of _ "[WAcquired i]"]) auto
next
  case True
  have w: "winv s" using assms wrun_winv winv_init by blast
  obtain j where j: "pcs s j = Inside k" using winvD(5) [OF w True] by blast
  obtain u where u: "wstep s (WUnlocked j) u" "\<not> holds k (mutexes u)"
      "pcs u = (pcs s)(j := Outside)"
    using wstep_unlock_enabled [OF w j] by blast
  have "winv u" using wstep_winv [OF u(1) w] by simp
  moreover have "pcs u i = Waiting k v" using u(3) assms(3) j by auto
  ultimately obtain t where "wstep u (WAcquired i) t" "pcs t i = Inside k"
    using wstep_acquire_enabled u(2) by blast
  with u(1) show ?thesis by (intro exI [of _ "[WUnlocked j, WAcquired i]"]) auto
qed

theorem waiting_worker_progress_witness:
  "\<exists>ms t. wrun (contended ''ns/d'') ms t \<and> length ms \<le> 2 \<and> (\<forall>l \<in> set ms. \<not> removal l)
     \<and> pcs t 1 = Inside ''ns/d''"
  by (rule waiting_worker_progress [OF contended_run, of "''ns/d''" 1 _ 0])
    (simp_all add: contended_def)

section \<open>What a removal does\<close>

text \<open>
  A mutex that is held and that no entry leads to stays so for ever: \<open>Unlock\<close> finds mutexes
  through the map, and only new ones are stored in it.
\<close>

definition orphaned :: "nat \<Rightarrow> workers \<Rightarrow> bool" where
  "orphaned v s \<longleftrightarrow> v \<in> locked (mutexes s) \<and> v < fresh (mutexes s)
     \<and> (\<forall>k. sm (mutexes s) k \<noteq> Some v)"

lemma orphaned_step:
  assumes "wstep s l t" "orphaned v s"
  shows "orphaned v t"
  using assms
proof (induction rule: wstep.induct)
  case (stored s i k m)
  then show ?case by (cases "sm (mutexes s) k") (auto simp: orphaned_def Lock_enter_eqs split: if_splits)
next
  case (blocked s i k u m)
  then show ?case by (cases "sm (mutexes s) k") (auto simp: orphaned_def Lock_enter_eqs)
next
  case (acquired s i k u m)
  then show ?case by (auto simp: orphaned_def mutex_Lock_def split: if_splits)
next
  case (unlocked s i k m)
  from unlocked(3,4) show ?case by (cases rule: Unlock_cases) (auto simp: orphaned_def)
next
  case (crash s i k p m)
  from crash(3,4) show ?case by (cases rule: Unlock_cases) (auto simp: orphaned_def)
qed (simp_all add: orphaned_def Remove_def)

lemma orphaned_waiter_stuck:
  assumes "wstep s l t" "orphaned v s" "pcs s j = Waiting k v"
  shows "pcs t j = Waiting k v"
  using assms by (induction rule: wstep.induct) (auto simp: orphaned_def mutex_Lock_def)

lemma orphaned_for_ever:
  "wrun s ls t \<Longrightarrow> orphaned v s \<Longrightarrow> pcs s j = Waiting k v \<Longrightarrow> pcs t j = Waiting k v"
  by (induction rule: lrun.induct) (auto intro: orphaned_step orphaned_waiter_stuck)

text \<open>
  C33. A removal strands the waiting workers: when the worker inside a deployment's section
  removes the lock entry and then unlocks, as \<open>processReplicaset\<close> and the deferred \<open>Unlock\<close> do
  after deleting a filter, its \<open>Unlock\<close> releases nothing, and a worker that was waiting for the
  lock stays blocked in every continuation, whatever the other goroutines do.
\<close>

theorem removal_strands_waiters:
  assumes "wrun workers_init ls s" and "\<forall>l \<in> set ls. \<not> removal l"
    and "pcs s i = Inside k" and "pcs s j = Waiting k v"
  shows "\<exists>t. wrun s [WRemovedBy i k, WUnlocked i] t \<and> pcs t i = Outside \<and>
    (\<forall>ms u. wrun t ms u \<longrightarrow> pcs u j = Waiting k v)"
proof -
  have w: "winv s" using assms wrun_winv winv_init by blast
  define s1 where "s1 = s\<lparr>mutexes := Remove k (mutexes s)\<rparr>"
  define t where "t = s1\<lparr>pcs := (pcs s1)(i := Outside)\<rparr>"
  have "wstep s (WRemovedBy i k) s1"
    unfolding s1_def using winvD(2) [OF w] assms(3) by (rule wstep.removed_by)
  moreover have "wstep s1 (WUnlocked i) t"
    using wstep.unlocked [of s1 i k "mutexes s1"] winvD(2) [OF w] assms(3)
    by (simp add: s1_def t_def)
  ultimately have run: "wrun s [WRemovedBy i k, WUnlocked i] t" by auto
  have "sm (mutexes s) k = Some v" using winvD(6) [OF w assms(4)] .
  moreover have "v \<in> locked (mutexes s)"
    using winvD(3) [OF w assms(3)] calculation by (simp add: holds_def)
  ultimately have "orphaned v t"
    using mm_wfD [OF winvD(1) [OF w]]
    by (auto simp: orphaned_def t_def s1_def Remove_def)
  moreover have "pcs t j = Waiting k v" using assms(3,4) by (auto simp: t_def s1_def)
  ultimately have "\<forall>ms u. wrun t ms u \<longrightarrow> pcs u j = Waiting k v"
    using orphaned_for_ever by blast
  with run show ?thesis by (intro exI [of _ t]) (simp add: t_def)
qed

theorem removal_strands_waiters_witness:
  "\<exists>t. wrun (contended ''ns/d'') [WRemovedBy 0 ''ns/d'', WUnlocked 0] t \<and> pcs t 0 = Outside \<and>
    (\<forall>ms u. wrun t ms u \<longrightarrow> pcs u 1 = Waiting ''ns/d'' 0)"
  by (rule removal_strands_waiters [OF contended_run]) (simp_all add: contended_def)

text \<open>
  C34. A removal breaks mutual exclusion: when the entry of a deployment is removed while worker
  \<open>0\<close> is inside its section, worker \<open>1\<close> can enter the section too, and once worker \<open>0\<close> has left,
  the \<open>Unlock\<close> of worker \<open>1\<close> is the fatal unlock of a mutex that is not locked.
\<close>

theorem removal_breaks_exclusion:
  "\<exists>s t. wrun workers_init [WStored 0 k, WCleanup k, WStored 1 k] s
     \<and> pcs s 0 = Inside k \<and> pcs s 1 = Inside k
     \<and> wrun s [WUnlocked 0, WCrashed 1] t \<and> crashed t"
proof -
  define s1 where "s1 = \<lparr>mutexes = \<lparr>sm = [k \<mapsto> 0], locked = {0}, fresh = 1\<rparr>,
    pcs = (\<lambda>_. Outside)(0 := Inside k), crashed = False\<rparr>"
  define s2 where "s2 = s1\<lparr>mutexes := \<lparr>sm = Map.empty, locked = {0}, fresh = 1\<rparr>\<rparr>"
  define s3 where "s3 = \<lparr>mutexes = \<lparr>sm = [k \<mapsto> 1], locked = {0, 1}, fresh = 2\<rparr>,
    pcs = (\<lambda>_. Outside)(0 := Inside k, 1 := Inside k), crashed = False\<rparr>"
  define s4 where "s4 = s3\<lparr>mutexes := \<lparr>sm = [k \<mapsto> 1], locked = {0}, fresh = 2\<rparr>,
    pcs := (pcs s3)(0 := Outside)\<rparr>"
  have a: "wstep workers_init (WStored 0 k) s1"
    using wstep.stored [of workers_init 0 k "mutexes s1"]
    by (simp add: s1_def workers_init_def mm_empty_def Lock_enter_eqs)
  have b: "wstep s1 (WCleanup k) s2"
    using wstep.cleanup [of s1 k] by (simp add: s1_def s2_def Remove_def)
  have c: "wstep s2 (WStored 1 k) s3"
    using wstep.stored [of s2 1 k "mutexes s3"]
    by (simp add: s1_def s2_def s3_def Lock_enter_eqs insert_commute numeral_2_eq_2)
  have pair: "{0, Suc 0} - {Suc 0} = {0::nat}" by auto
  have d: "wstep s3 (WUnlocked 0) s4"
    using wstep.unlocked [of s3 0 k "mutexes s4"]
    by (simp add: s3_def s4_def Unlock_def mutex_Unlock_def pair)
  have e: "wstep s4 (WCrashed 1) (s4\<lparr>crashed := True\<rparr>)"
    using wstep.crash [of s4 1 k _ "mutexes s4"]
    by (simp add: s3_def s4_def Unlock_def mutex_Unlock_def)
  have "wrun workers_init [WStored 0 k, WCleanup k, WStored 1 k] s3"
    by (rule lrun_Nil lrun_Cons a b c)+
  moreover have "wrun s3 [WUnlocked 0, WCrashed 1] (s4\<lparr>crashed := True\<rparr>)"
    by (rule lrun_Nil lrun_Cons d e)+
  moreover have "pcs s3 0 = Inside k" "pcs s3 1 = Inside k" by (simp_all add: s3_def)
  ultimately show ?thesis
    by (intro exI [of _ s3] exI [of _ "s4\<lparr>crashed := True\<rparr>"]) simp
qed

end
