(* ===== verification/Concurrent.thy ===== *)
theory Concurrent
  imports Reconcile Workers
begin

text \<open>
  The workers of the operator running concurrently (operator.go): \<open>handle_replicaset\<close> cut at each
  access to the state the goroutines share, and \<open>cleanupDeployment\<close> on the informer's goroutine.
  A worker's program counter says where in \<open>next\<close>, \<open>shouldProcessReplicaset\<close> and
  \<open>processReplicaset\<close> it is and for which ReplicaSet. One step runs one part of the code on the
  shared state; a query with its upsert is one step (the theory ApiRuns is about its calls), and
  the outside world may change between any two steps. The counters are updated together with the step they count.

  The lock actions are those of the theory Workers, of which this system is a refinement, so its
  mutual exclusion carries over. On top of it the concurrent runs are serial: the active state
  is what the abstract reconciler makes of the ReplicaSets, one after the other.
\<close>

section \<open>The step relation\<close>

datatype cpc =
    CIdle
  | CWaiting replicaset nat
  | CEntered replicaset
  | CUpserting replicaset
  | CStoring replicaset
  | CDeleting replicaset
  | CForgetting replicaset
  | CRemoving replicaset
  | CLeaving replicaset

record 'w operators =
  shared :: "'w op_state"
  at_pc :: "nat \<Rightarrow> cpc"
  cleaning :: "string option"
  dead :: bool

datatype clabel =
    CTook nat replicaset
  | CBlocked nat replicaset
  | CAcquired nat
  | CIgnored nat replicaset
  | CDecided nat replicaset
  | CUpserted nat replicaset
  | CFailed nat replicaset
  | CStored nat replicaset
  | CDeleted nat replicaset
  | CForgot nat replicaset
  | CRemoved nat replicaset
  | CLeft nat
  | CPanicked nat
  | CCleanup string
  | CCleaned string
  | COutside

text \<open>The new state of the shared part and of worker \<open>i\<close>.\<close>

definition go_on :: "'w operators \<Rightarrow> nat \<Rightarrow> 'w op_state \<Rightarrow> cpc \<Rightarrow> 'w operators" where
  "go_on s i u pc = s\<lparr>shared := u, at_pc := (at_pc s)(i := pc)\<rparr>"

lemma go_on_simps [simp]:
  "shared (go_on s i u pc) = u" "at_pc (go_on s i u pc) = (at_pc s)(i := pc)"
  "cleaning (go_on s i u pc) = cleaning s" "dead (go_on s i u pc) = dead s"
  by (simp_all add: go_on_def)

abbreviation lock_map :: "'w operators \<Rightarrow> mutex_map" where
  "lock_map s \<equiv> deploymentLocker (shared s)"

abbreviation with_locks :: "mutex_map \<Rightarrow> 'w operators \<Rightarrow> 'w op_state" where
  "with_locks m s \<equiv> (shared s)\<lparr>deploymentLocker := m\<rparr>"

inductive cstep ::
    "nat \<Rightarrow> ('w, 'b, 'c, 's) cluster \<Rightarrow> op_config \<Rightarrow> 'w operators \<Rightarrow> clabel \<Rightarrow> 'w operators \<Rightarrow> bool"
  for fuel cl cfg where
  c_took: "\<not> dead s \<Longrightarrow> at_pc s i = CIdle \<Longrightarrow> Lock_enter (deployKey rs) (lock_map s) = (None, m) \<Longrightarrow>
    cstep fuel cl cfg s (CTook i rs) (go_on s i (with_locks m s) (CEntered rs))"
| c_blocked: "\<not> dead s \<Longrightarrow> at_pc s i = CIdle \<Longrightarrow> Lock_enter (deployKey rs) (lock_map s) = (Some v, m) \<Longrightarrow>
    cstep fuel cl cfg s (CBlocked i rs) (go_on s i (with_locks m s) (CWaiting rs v))"
| c_acquired: "\<not> dead s \<Longrightarrow> at_pc s i = CWaiting rs v \<Longrightarrow> mutex_Lock v (lock_map s) = Some m \<Longrightarrow>
    cstep fuel cl cfg s (CAcquired i) (go_on s i (with_locks m s) (CEntered rs))"
| c_ignored: "\<not> dead s \<Longrightarrow> at_pc s i = CEntered rs \<Longrightarrow>
    \<not> shouldProcessReplicaset (shared s) rs (deployKey rs) \<Longrightarrow>
    ignored_Inc (shared s) = Some (Ok (), u) \<Longrightarrow>
    cstep fuel cl cfg s (CIgnored i rs) (go_on s i u (CLeaving rs))"
| c_decided: "\<not> dead s \<Longrightarrow> at_pc s i = CEntered rs \<Longrightarrow>
    shouldProcessReplicaset (shared s) rs (deployKey rs) \<Longrightarrow>
    cstep fuel cl cfg s (CDecided i rs)
      (go_on s i (shared s) (if grpcPort rs = 0 then CDeleting rs else CUpserting rs))"
| c_upserted: "\<not> dead s \<Longrightarrow> at_pc s i = CUpserting rs \<Longrightarrow>
    upsertFilter fuel cl cfg rs (shared s) = Some (Ok (), u) \<Longrightarrow>
    cstep fuel cl cfg s (CUpserted i rs) (go_on s i u (CStoring rs))"
| c_failed: "\<not> dead s \<Longrightarrow> at_pc s i = CUpserting rs \<Longrightarrow>
    upsertFilter fuel cl cfg rs (shared s) = Some (Fail err, u) \<Longrightarrow>
    processed_Inc ''error'' ''upsert'' u = Some (Ok (), u') \<Longrightarrow>
    cstep fuel cl cfg s (CFailed i rs) (go_on s i u' (CLeaving rs))"
| c_panicked: "\<not> dead s \<Longrightarrow> at_pc s i = CUpserting rs \<Longrightarrow>
    upsertFilter fuel cl cfg rs (shared s) = Some (Panic p, u) \<Longrightarrow>
    cstep fuel cl cfg s (CPanicked i) (s\<lparr>shared := u, dead := True\<rparr>)"
| c_stored: "\<not> dead s \<Longrightarrow> at_pc s i = CStoring rs \<Longrightarrow>
    io_bind (activeState_Store (deployKey rs) (newActiveEntry rs))
      (\<lambda>_. processed_Inc ''success'' ''upsert'') (shared s) = Some (Ok (), u) \<Longrightarrow>
    cstep fuel cl cfg s (CStored i rs) (go_on s i u (CLeaving rs))"
| c_deleted: "\<not> dead s \<Longrightarrow> at_pc s i = CDeleting rs \<Longrightarrow>
    io_bind (io_try (deleteFilter cl rs))
      (\<lambda>r. case r of Inl err \<Rightarrow> processed_Inc ''error'' ''delete'' | Inr _ \<Rightarrow> io_return ()) (shared s) =
        Some (Ok (), u) \<Longrightarrow>
    cstep fuel cl cfg s (CDeleted i rs) (go_on s i u (CForgetting rs))"
| c_forgot: "\<not> dead s \<Longrightarrow> at_pc s i = CForgetting rs \<Longrightarrow>
    activeState_Delete (deployKey rs) (shared s) = Some (Ok (), u) \<Longrightarrow>
    cstep fuel cl cfg s (CForgot i rs) (go_on s i u (CRemoving rs))"
| c_removed: "\<not> dead s \<Longrightarrow> at_pc s i = CRemoving rs \<Longrightarrow>
    io_bind (locker_Remove (deployKey rs)) (\<lambda>_. processed_Inc ''success'' ''delete'') (shared s) =
      Some (Ok (), u) \<Longrightarrow>
    cstep fuel cl cfg s (CRemoved i rs) (go_on s i u (CLeaving rs))"
| c_left: "\<not> dead s \<Longrightarrow> at_pc s i = CLeaving rs \<Longrightarrow>
    locker_Unlock (deployKey rs) (shared s) = Some (Ok (), u) \<Longrightarrow>
    cstep fuel cl cfg s (CLeft i) (go_on s i u CIdle)"
| c_fatal: "\<not> dead s \<Longrightarrow> at_pc s i = CLeaving rs \<Longrightarrow>
    locker_Unlock (deployKey rs) (shared s) = Some (Panic p, u) \<Longrightarrow>
    cstep fuel cl cfg s (CPanicked i) (s\<lparr>shared := u, dead := True\<rparr>)"
| c_cleanup: "\<not> dead s \<Longrightarrow> cleaning s = None \<Longrightarrow>
    activeState_Delete k (shared s) = Some (Ok (), u) \<Longrightarrow>
    cstep fuel cl cfg s (CCleanup k) (s\<lparr>shared := u, cleaning := Some k\<rparr>)"
| c_cleaned: "\<not> dead s \<Longrightarrow> cleaning s = Some k \<Longrightarrow> locker_Remove k (shared s) = Some (Ok (), u) \<Longrightarrow>
    cstep fuel cl cfg s (CCleaned k) (s\<lparr>shared := u, cleaning := None\<rparr>)"
| c_outside: "\<not> dead s \<Longrightarrow> cstep fuel cl cfg s COutside (s\<lparr>shared := (shared s)\<lparr>world := w\<rparr>\<rparr>)"

inductive_cases cstepE: "cstep fuel cl cfg s l t"

text \<open>The removals of lock entries, and the cleanup of the active state, that no lock guards.\<close>

fun unguarded :: "clabel \<Rightarrow> bool" where
  "unguarded (CRemoved i rs) = True"
| "unguarded (CCleanup k) = True"
| "unguarded (CCleaned k) = True"
| "unguarded _ = False"

section \<open>The locks\<close>

text \<open>What the lock system of Workers sees of a state.\<close>

fun pc_of :: "cpc \<Rightarrow> worker_pc" where
  "pc_of CIdle = Outside"
| "pc_of (CWaiting rs v) = Waiting (deployKey rs) v"
| "pc_of (CEntered rs) = Inside (deployKey rs)"
| "pc_of (CUpserting rs) = Inside (deployKey rs)"
| "pc_of (CStoring rs) = Inside (deployKey rs)"
| "pc_of (CDeleting rs) = Inside (deployKey rs)"
| "pc_of (CForgetting rs) = Inside (deployKey rs)"
| "pc_of (CRemoving rs) = Inside (deployKey rs)"
| "pc_of (CLeaving rs) = Inside (deployKey rs)"

definition locks_of :: "'w operators \<Rightarrow> workers" where
  "locks_of s = \<lparr>mutexes = lock_map s, pcs = (\<lambda>i. pc_of (at_pc s i)), crashed = False\<rparr>"

lemma locks_of_simps [simp]:
  "mutexes (locks_of s) = lock_map s" "pcs (locks_of s) i = pc_of (at_pc s i)"
  "crashed (locks_of s) = False"
  by (simp_all add: locks_of_def)

lemma locks_of_go_on:
  "locks_of (go_on s i u pc) =
     (locks_of s)\<lparr>mutexes := deploymentLocker u, pcs := (pcs (locks_of s))(i := pc_of pc)\<rparr>"
  by (auto simp: locks_of_def)

lemma locks_of_same:
  assumes "deploymentLocker u = lock_map s" "pc_of pc = pc_of (at_pc s i)"
  shows "locks_of (go_on s i u pc) = locks_of s"
  using assms by (auto simp: locks_of_def)

lemma deleting_keeps:
  assumes "io_bind (io_try (deleteFilter cl rs))
      (\<lambda>r. case r of Inl err \<Rightarrow> processed_Inc st ty | Inr _ \<Rightarrow> io_return ()) s = Some (Ok (), u)"
  shows "deploymentLocker u = deploymentLocker s \<and> activeState u = activeState s"
proof -
  obtain d t where d: "deleteFilter cl rs s = Some (d, t)" using deleteFilter_total by (rule io_totalE)
  have "activeState t = activeState s" "deploymentLocker t = deploymentLocker s"
    using io_keepsD [OF deleteFilter_keeps [OF internal_fields(1)] d]
      io_keepsD [OF deleteFilter_keeps [OF internal_fields(2)] d] by simp_all
  then show ?thesis using assms d
    by (cases d) (auto simp: io_bind_def io_try_def io_return_def processed_Inc_def io_modify_def)
qed

lemma upsert_keeps:
  assumes "upsertFilter fuel cl cfg rs s = Some (r, u)"
  shows "deploymentLocker u = deploymentLocker s \<and> activeState u = activeState s"
  using io_keepsD [OF upsertFilter_keeps [OF internal_fields(1)] assms]
    io_keepsD [OF upsertFilter_keeps [OF internal_fields(2)] assms] by simp

lemma count_keeps:
  "processed_Inc st ty s = Some (r, u) \<Longrightarrow> deploymentLocker u = deploymentLocker s \<and> activeState u = activeState s"
  by (auto simp: processed_Inc_def io_modify_def)

lemma locker_Unlock_Ok:
  "locker_Unlock k s = Some (r, u) \<longleftrightarrow>
     (\<exists>m. Unlock k (deploymentLocker s) = Some (r, m) \<and> u = s\<lparr>deploymentLocker := m\<rparr>)"
  by (auto simp: locker_Unlock_def io_on_def split: option.splits)

lemma locker_Unlock_not_Fail: "locker_Unlock k s \<noteq> Some (Fail err, u)"
  by (auto simp: locker_Unlock_def io_on_def Unlock_def mutex_Unlock_def split: option.splits if_splits)

text \<open>Every step that is not a removal is a lock action of one worker, or none.\<close>

lemma cstep_locks:
  assumes "cstep fuel cl cfg s l t" "\<not> unguarded l"
  shows "locks_of t = locks_of s \<or> (\<exists>wl. wstep (locks_of s) wl (locks_of t) \<and> \<not> removal wl) \<or> dead t"
  using assms
proof (induction rule: cstep.induct)
  case (c_took s i rs m)
  have "wstep (locks_of s) (WStored i (deployKey rs)) (locks_of (go_on s i (with_locks m s) (CEntered rs)))"
    using wstep.stored [of "locks_of s" i "deployKey rs" m] c_took by (simp add: locks_of_go_on)
  then show ?case by (metis removal.simps(3))
next
  case (c_blocked s i rs v m)
  have "wstep (locks_of s) (WBlocked i (deployKey rs)) (locks_of (go_on s i (with_locks m s) (CWaiting rs v)))"
    using wstep.blocked [of "locks_of s" i "deployKey rs" v m] c_blocked by (simp add: locks_of_go_on)
  then show ?case by (metis removal.simps(4))
next
  case (c_acquired s i rs v m)
  have "wstep (locks_of s) (WAcquired i) (locks_of (go_on s i (with_locks m s) (CEntered rs)))"
    using wstep.acquired [of "locks_of s" i "deployKey rs" v m] c_acquired by (simp add: locks_of_go_on)
  then show ?case by (metis removal.simps(5))
next
  case (c_left s i rs u)
  then obtain m where m: "Unlock (deployKey rs) (lock_map s) = Some (Ok (), m)" "u = with_locks m s"
    by (auto simp: locker_Unlock_Ok)
  have "wstep (locks_of s) (WUnlocked i) (locks_of (go_on s i u CIdle))"
    using wstep.unlocked [of "locks_of s" i "deployKey rs" m] c_left m by (simp add: locks_of_go_on)
  then show ?case by (metis removal.simps(6))
next
  case (c_upserted s i rs u)
  then show ?case using upsert_keeps [OF c_upserted(3)] by (simp add: locks_of_same)
next
  case (c_failed s i rs err u u')
  then show ?case using upsert_keeps [OF c_failed(3)] count_keeps [OF c_failed(4)]
    by (simp add: locks_of_same)
next
  case (c_deleted s i rs u)
  then show ?case using deleting_keeps [OF c_deleted(3)] by (simp add: locks_of_same)
qed (auto simp: locks_of_same step_defs io_modify_def io_bind_def, simp add: locks_of_def)

section \<open>The invariant\<close>

text \<open>
  What a worker has decided still holds until it acts: no other worker can be in the section of
  the same deployment.
\<close>

fun decided :: "cpc \<Rightarrow> (replicaset \<times> bool) option" where
  "decided (CUpserting rs) = Some (rs, True)"
| "decided (CStoring rs) = Some (rs, True)"
| "decided (CDeleting rs) = Some (rs, False)"
| "decided (CForgetting rs) = Some (rs, False)"
| "decided _ = None"

definition valid_decision :: "'w op_state \<Rightarrow> cpc \<Rightarrow> bool" where
  "valid_decision u pc \<longleftrightarrow>
     (case decided pc of
        None \<Rightarrow> True
      | Some (rs, b) \<Rightarrow> shouldProcessReplicaset u rs (deployKey rs) \<and> b = (grpcPort rs \<noteq> 0))"

definition cinv :: "'w operators \<Rightarrow> bool" where
  "cinv s \<longleftrightarrow> (dead s \<or> winv (locks_of s)) \<and> (\<forall>i. valid_decision (shared s) (at_pc s i))"

lemma cinvD:
  assumes "cinv s"
  shows "\<not> dead s \<Longrightarrow> winv (locks_of s)" "valid_decision (shared s) (at_pc s i)"
  using assms unfolding cinv_def by blast+

lemma decided_key: "decided pc = Some (rs, b) \<Longrightarrow> pc_of pc = Inside (deployKey rs)"
  by (cases pc) auto

text \<open>A decision depends on the deployment's own entry only.\<close>

lemma valid_decision_cong:
  assumes "\<And>k. pc_of pc = Inside k \<Longrightarrow> activeState u k = activeState s k"
  shows "valid_decision u pc = valid_decision s pc"
proof (cases "decided pc")
  case None
  then show ?thesis by (simp add: valid_decision_def)
next
  case (Some d)
  then obtain rs b where "decided pc = Some (rs, b)" by (cases d) auto
  with assms [OF decided_key [OF this]] show ?thesis
    by (simp add: valid_decision_def shouldProcess_iff)
qed

lemma valid_decision_None [simp]: "decided pc = None \<Longrightarrow> valid_decision u pc"
  by (simp add: valid_decision_def)

text \<open>The active state a step leaves, by its label.\<close>

fun commit :: "clabel \<Rightarrow> replicaset list" where
  "commit (CIgnored i rs) = [rs]"
| "commit (CStored i rs) = [rs]"
| "commit (CForgot i rs) = [rs]"
| "commit _ = []"

lemma fold_reconcile_key: "j \<noteq> deployKey rs \<Longrightarrow> reconcile rs A j = A j"
  by (simp add: reconcile_def Let_def)

lemma cstep_active:
  assumes "cinv s" "cstep fuel cl cfg s l t" "\<not> unguarded l"
  shows "activeState (shared t) = fold reconcile (commit l) (activeState (shared s))"
  using assms(2,1,3)
proof (induction rule: cstep.induct)
  case (c_ignored s i rs u)
  then show ?case by (auto simp: reconcile_should ignored_Inc_def io_modify_def)
next
  case (c_upserted s i rs u)
  then show ?case using upsert_keeps [OF c_upserted(3)] by simp
next
  case (c_failed s i rs err u u')
  then show ?case using upsert_keeps [OF c_failed(3)] count_keeps [OF c_failed(4)] by simp
next
  case (c_panicked s i rs p u)
  then show ?case using upsert_keeps [OF c_panicked(3)] by simp
next
  case (c_deleted s i rs u)
  then show ?case using deleting_keeps [OF c_deleted(3)] by simp
next
  case (c_stored s i rs u)
  have "valid_decision (shared s) (CStoring rs)" using cinvD(2) [OF c_stored(4), of i] c_stored(2) by simp
  then show ?case using c_stored(3)
    by (auto simp: valid_decision_def reconcile_should step_defs io_modify_def io_bind_def)
next
  case (c_forgot s i rs u)
  have "valid_decision (shared s) (CForgetting rs)" using cinvD(2) [OF c_forgot(4), of i] c_forgot(2) by simp
  then show ?case using c_forgot(3)
    by (auto simp: valid_decision_def reconcile_should step_defs io_modify_def)
qed (auto simp: locker_Unlock_Ok)

text \<open>The worker a label belongs to, and the deployments whose entry its step may change.\<close>

lemma cstep_others:
  assumes "cinv s" "cstep fuel cl cfg s l t" "\<not> unguarded l"
  obtains i where "\<And>j. j \<noteq> i \<Longrightarrow> at_pc t j = at_pc s j" "valid_decision (shared t) (at_pc t i)"
    "\<And>k. activeState (shared t) k \<noteq> activeState (shared s) k \<Longrightarrow> pc_of (at_pc s i) = Inside k"
proof -
  have "\<exists>i. (\<forall>j. j \<noteq> i \<longrightarrow> at_pc t j = at_pc s j) \<and> valid_decision (shared t) (at_pc t i) \<and>
      (\<forall>k. activeState (shared t) k \<noteq> activeState (shared s) k \<longrightarrow> pc_of (at_pc s i) = Inside k)"
    using assms(2,1,3)
  proof (cases rule: cstep.cases)
    case (c_upserted i rs u)
    show ?thesis
      using cinvD(2) [OF assms(1), of i] c_upserted upsert_keeps [OF c_upserted(5)]
      by (intro exI [of _ i]) (simp add: valid_decision_def shouldProcess_iff)
  next
    case (c_deleted i rs u)
    show ?thesis
      using cinvD(2) [OF assms(1), of i] c_deleted deleting_keeps [OF c_deleted(5)]
      by (intro exI [of _ i]) (simp add: valid_decision_def shouldProcess_iff)
  next
    case (c_decided i rs)
    then show ?thesis by (intro exI [of _ i]) (simp add: valid_decision_def)
  next
    case (c_failed i rs err u u')
    then show ?thesis using upsert_keeps [OF c_failed(5)] count_keeps [OF c_failed(6)]
      by (intro exI [of _ i]) simp
  next
    case (c_panicked i rs p u)
    then show ?thesis using cinvD(2) [OF assms(1), of i] upsert_keeps [OF c_panicked(5)]
      by (intro exI [of _ i]) (simp add: valid_decision_def shouldProcess_iff)
  next
    case (c_fatal i rs p u)
    then show ?thesis by (intro exI [of _ i]) (auto simp: locker_Unlock_Ok)
  next
    case (c_left i rs u)
    then show ?thesis by (intro exI [of _ i]) (auto simp: locker_Unlock_Ok)
  next
    case (c_stored i rs u)
    then show ?thesis
      by (intro exI [of _ i]) (auto simp: step_defs io_modify_def io_bind_def split: if_splits)
  next
    case (c_forgot i rs u)
    then show ?thesis by (intro exI [of _ i]) (auto simp: step_defs io_modify_def split: if_splits)
  next
    case (c_outside w)
    have "valid_decision (shared t) pc = valid_decision (shared s) pc" for pc
      by (rule valid_decision_cong) (simp add: c_outside)
    then show ?thesis using cinvD(2) [OF assms(1), of 0] c_outside by (intro exI [of _ 0]) simp
  next
    case (c_ignored i rs u)
    then show ?thesis by (intro exI [of _ i]) (auto simp: step_defs io_modify_def)
  next
    case (c_took i rs m)
    then show ?thesis by (intro exI [of _ i]) simp
  next
    case (c_blocked i rs v m)
    then show ?thesis by (intro exI [of _ i]) simp
  next
    case (c_acquired i rs v m)
    then show ?thesis by (intro exI [of _ i]) simp
  qed simp_all
  then show thesis using that by blast
qed

lemma cstep_inv:
  assumes "cinv s" "cstep fuel cl cfg s l t" "\<not> unguarded l"
  shows "cinv t"
proof -
  have alive: "\<not> dead s" using assms(2) by (cases rule: cstep.cases)
  then have w: "winv (locks_of s)" using assms(1) by (rule cinvD(1) [rotated])
  have "dead t \<or> winv (locks_of t)"
    using cstep_locks [OF assms(2,3)] w by (auto intro: wstep_winv)
  moreover have "valid_decision (shared t) (at_pc t j)" for j
  proof -
    obtain i where i: "\<And>j. j \<noteq> i \<Longrightarrow> at_pc t j = at_pc s j" "valid_decision (shared t) (at_pc t i)"
      "\<And>k. activeState (shared t) k \<noteq> activeState (shared s) k \<Longrightarrow> pc_of (at_pc s i) = Inside k"
      using cstep_others [OF assms] by blast
    show ?thesis
    proof (cases "j = i")
      case True
      then show ?thesis using i(2) by simp
    next
      case False
      have "activeState (shared t) k = activeState (shared s) k" if "pc_of (at_pc s j) = Inside k" for k
        using winvD(4) [OF w, of i k j] i(3) [of k] that False by auto
      then have "valid_decision (shared t) (at_pc s j) = valid_decision (shared s) (at_pc s j)"
        by (rule valid_decision_cong)
      then show ?thesis using cinvD(2) [OF assms(1), of j] i(1) [OF False] by simp
    qed
  qed
  ultimately show ?thesis by (simp add: cinv_def)
qed

interpretation worker_runs: label_system "cstep fuel cl cfg" "\<lambda>l. \<not> unguarded l" cinv
  by unfold_locales (rule cstep_inv)

text \<open>Workers that start together: all idle, with the lock map well-formed and no lock held.\<close>

definition all_idle :: "'w operators \<Rightarrow> bool" where
  "all_idle s \<longleftrightarrow> \<not> dead s \<and> cleaning s = None \<and> (\<forall>i. at_pc s i = CIdle) \<and>
     mm_wf (lock_map s) \<and> (\<forall>k. \<not> holds k (lock_map s))"

lemma all_idle_inv: "all_idle s \<Longrightarrow> cinv s"
  by (simp add: all_idle_def cinv_def winv_def)

lemma fold_commits: "fold (\<lambda>l. fold reconcile (commit l)) ls A = fold reconcile (concat (map commit ls)) A"
  by (induction ls arbitrary: A) simp_all

text \<open>No entry is lost or replaced by a lower revision.\<close>

definition entries_grow :: "(string \<rightharpoonup> active_entry) \<Rightarrow> (string \<rightharpoonup> active_entry) \<Rightarrow> bool" where
  "entries_grow A B \<longleftrightarrow> (\<forall>k a. A k = Some a \<longrightarrow> (\<exists>b. B k = Some b \<and> ae_revision a \<le> ae_revision b))"

lemma entries_grow_order: "reflp entries_grow" "transp entries_grow"
  unfolding entries_grow_def by (auto intro!: reflpI transpI) (meson order_trans)

fun forgets :: "clabel \<Rightarrow> bool" where
  "forgets (CForgot i rs) = True"
| "forgets _ = False"

lemma stored_entry_grows:
  assumes "shouldProcessReplicaset u rs (deployKey rs)"
  shows "entries_grow (activeState u) ((activeState u)(deployKey rs \<mapsto> newActiveEntry rs))"
  using assms by (auto simp: entries_grow_def shouldProcess_iff)

lemma cstep_grows:
  assumes "cinv s" "cstep fuel cl cfg s l t" "\<not> unguarded l \<and> \<not> forgets l"
  shows "entries_grow (activeState (shared s)) (activeState (shared t))"
  using assms(2,1,3)
proof (cases rule: cstep.cases)
  case (c_stored i rs u)
  have "valid_decision (shared s) (CStoring rs)" using cinvD(2) [OF assms(1), of i] c_stored(4) by simp
  then have "shouldProcessReplicaset (shared s) rs (deployKey rs)" by (simp add: valid_decision_def)
  from stored_entry_grows [OF this] show ?thesis using c_stored
    by (auto simp: step_defs io_modify_def io_bind_def)
next
  case (c_ignored i rs u)
  then have "activeState (shared t) = activeState (shared s)" by (auto simp: step_defs io_modify_def)
  then show ?thesis using entries_grow_order(1) by (simp add: reflpD)
qed (use cstep_active [OF assms(1,2)] assms(3) entries_grow_order(1) in \<open>simp_all add: reflpD\<close>)

interpretation growing_runs: label_system "cstep fuel cl cfg" "\<lambda>l. \<not> unguarded l \<and> \<not> forgets l" cinv
  by unfold_locales (simp add: cstep_inv)

lemma active_serial:
  assumes "cinv s" "lrun (cstep fuel cl cfg) s ls t" "\<forall>l \<in> set ls. \<not> unguarded l"
  shows "activeState (shared t) = fold reconcile (concat (map commit ls)) (activeState (shared s))"
proof -
  note f = worker_runs.run_fold [where obs = "\<lambda>s. activeState (shared s)" and
      upd = "\<lambda>l. fold reconcile (commit l)"]
  have "activeState (shared t) = fold (\<lambda>l. fold reconcile (commit l)) ls (activeState (shared s))"
    by (rule f [OF _ assms(2,1,3)]) (rule cstep_active)
  then show ?thesis by (simp only: fold_commits)
qed

lemma active_grows:
  assumes "cinv s" "lrun (cstep fuel cl cfg) s ls t" "\<forall>l \<in> set ls. \<not> unguarded l \<and> \<not> forgets l"
  shows "entries_grow (activeState (shared s)) (activeState (shared t))"
proof -
  note f = growing_runs.run_rel [where obs = "\<lambda>s. activeState (shared s)" and R = entries_grow]
  show ?thesis by (rule f [OF _ entries_grow_order assms(2,1,3)]) (rule cstep_grows)
qed

section \<open>Concurrent runs are serial\<close>

text \<open>
  C7. Workers are serialised: when idle workers run concurrently, interleaved in any way with each
  other and with changes of the outside world, and no lock entry is removed, the active state is
  at every moment the one that the abstract reconciler makes of the ReplicaSets one after the
  other, in the order in which the workers ignored them or recorded their result. An upsert that
  failed leaves no trace in it. As long as no ReplicaSet without a port is processed, no entry is
  lost or replaced by one with a lower revision.
\<close>

theorem concurrent_runs_are_serial:
  assumes "all_idle s" and "lrun (cstep fuel cl cfg) s ls t" and "\<forall>l \<in> set ls. \<not> unguarded l"
  shows "activeState (shared t) = fold reconcile (concat (map commit ls)) (activeState (shared s)) \<and>
    ((\<forall>l \<in> set ls. \<not> forgets l) \<longrightarrow> entries_grow (activeState (shared s)) (activeState (shared t)))"
  using active_serial [OF all_idle_inv [OF assms(1)] assms(2,3)]
    active_grows [OF all_idle_inv [OF assms(1)] assms(2)] assms(3) by blast

section \<open>One worker alone\<close>

lemma go_on_again [simp]: "go_on (go_on s i u pc) i u' pc' = go_on s i u' pc'"
  by (simp add: go_on_def)

lemma lock_run:
  assumes "\<not> dead s" "at_pc s i = CIdle" "Lock (deployKey rs) (lock_map s) = Some m"
  obtains ls where "lrun (cstep fuel cl cfg) s ls (go_on s i (with_locks m s) (CEntered rs))"
proof (cases "Lock_enter (deployKey rs) (lock_map s)")
  case e: (Pair v m1)
  show thesis
  proof (cases v)
    case None
    then have "Lock_enter (deployKey rs) (lock_map s) = (None, m)"
      using assms(3) e by (simp add: Lock_def)
    from c_took [OF assms(1,2) this] show thesis by (intro that [of "[CTook i rs]"]) auto
  next
    case (Some a)
    let ?b = "go_on s i (with_locks m1 s) (CWaiting rs a)"
    have "mutex_Lock a m1 = Some m" using assms(3) e Some by (simp add: Lock_def)
    then have "cstep fuel cl cfg ?b (CAcquired i) (go_on s i (with_locks m s) (CEntered rs))"
      using c_acquired [of ?b i rs a m fuel cl cfg] assms(1) by simp
    moreover have "cstep fuel cl cfg s (CBlocked i rs) ?b"
      using e Some by (intro c_blocked assms) simp
    ultimately show thesis by (intro that [of "[CBlocked i rs, CAcquired i]"]) auto
  qed
qed

text \<open>From the decision to the deferred \<open>Unlock\<close>.\<close>

lemma deletion_runs:
  obtains t where "io_bind (io_try (deleteFilter cl rs))
      (\<lambda>r. case r of Inl err \<Rightarrow> processed_Inc ''error'' ''delete'' | Inr _ \<Rightarrow> io_return ()) s = Some (Ok (), t)"
    "grpcPort rs = 0 \<Longrightarrow> processReplicaset fuel cl cfg rs key s =
      io_bind (activeState_Delete key) (\<lambda>_. io_bind (locker_Remove key)
        (\<lambda>_. processed_Inc ''success'' ''delete'')) t"
proof -
  obtain d v where d: "deleteFilter cl rs s = Some (d, v)" using deleteFilter_total by (rule io_totalE)
  from deleteFilter_outcome [OF d] show thesis
  proof (elim disjE exE)
    assume "d = Ok ()"
    then show thesis using that [of v] d
      by (simp add: processReplicaset_def io_bind_def io_try_def io_return_def)
  next
    fix err
    assume "d = Fail err"
    then show thesis using d
      by (intro that) (simp_all add: processReplicaset_def io_bind_def io_try_def processed_Inc_def io_modify_def)
  qed
qed

lemma deletion_run:
  assumes "\<not> dead s" "at_pc s i = CDeleting rs" "grpcPort rs = 0"
    and "processReplicaset fuel cl cfg rs (deployKey rs) (shared s) = Some (q, u)"
  shows "lrun (cstep fuel cl cfg) s [CDeleted i rs, CForgot i rs, CRemoved i rs] (go_on s i u (CLeaving rs))"
proof -
  let ?k = "deployKey rs"
  obtain t where t: "io_bind (io_try (deleteFilter cl rs))
      (\<lambda>r. case r of Inl err \<Rightarrow> processed_Inc ''error'' ''delete'' | Inr _ \<Rightarrow> io_return ()) (shared s) =
        Some (Ok (), t)"
    "processReplicaset fuel cl cfg rs ?k (shared s) =
      io_bind (activeState_Delete ?k) (\<lambda>_. io_bind (locker_Remove ?k)
        (\<lambda>_. processed_Inc ''success'' ''delete'')) t"
    using deletion_runs [of cl rs "shared s" fuel cfg ?k] assms(3) by blast
  obtain v where v: "activeState_Delete ?k t = Some (Ok (), v)"
    by (simp add: activeState_Delete_def io_modify_def)
  have u: "io_bind (locker_Remove ?k) (\<lambda>_. processed_Inc ''success'' ''delete'') v = Some (Ok (), u)"
  proof -
    have "io_bind (locker_Remove ?k) (\<lambda>_. processed_Inc ''success'' ''delete'') v = Some (q, u)"
      using assms(4) unfolding t(2) by (simp only: io_bind_cases(2) [where m = "activeState_Delete ?k", OF v])
    then show ?thesis by (auto simp: io_bind_def locker_Remove_def processed_Inc_def io_modify_def)
  qed
  let ?a = "go_on s i t (CForgetting rs)"
  let ?b = "go_on s i v (CRemoving rs)"
  have "cstep fuel cl cfg s (CDeleted i rs) ?a" using assms(1,2) t(1) by (rule c_deleted)
  moreover have "cstep fuel cl cfg ?a (CForgot i rs) ?b"
    using c_forgot [of ?a i rs v fuel cl cfg] assms(1) v by simp
  moreover have "cstep fuel cl cfg ?b (CRemoved i rs) (go_on s i u (CLeaving rs))"
    using c_removed [of ?b i rs u fuel cl cfg] assms(1) u by simp
  ultimately show ?thesis by auto
qed

lemma process_run:
  assumes "\<not> dead s" "at_pc s i = CEntered rs" "shouldProcessReplicaset (shared s) rs (deployKey rs)"
    and "processReplicaset fuel cl cfg rs (deployKey rs) (shared s) = Some (q, u)" "\<forall>p. q \<noteq> Panic p"
  obtains ls where "lrun (cstep fuel cl cfg) s ls (go_on s i u (CLeaving rs))"
proof (cases "grpcPort rs = 0")
  case True
  let ?a = "go_on s i (shared s) (CDeleting rs)"
  have "cstep fuel cl cfg s (CDecided i rs) ?a" using c_decided [OF assms(1-3), of fuel cl cfg] True by simp
  moreover have "lrun (cstep fuel cl cfg) ?a [CDeleted i rs, CForgot i rs, CRemoved i rs] (go_on s i u (CLeaving rs))"
    using deletion_run [of ?a i rs fuel cl cfg q u] assms(1,4) True by (simp del: lrun_simps)
  ultimately show thesis by (intro that [OF lrun_Cons])
next
  case False
  let ?a = "go_on s i (shared s) (CUpserting rs)"
  have a: "cstep fuel cl cfg s (CDecided i rs) ?a" using c_decided [OF assms(1-3), of fuel cl cfg] False by simp
  obtain r t where t: "upsertFilter fuel cl cfg rs (shared s) = Some (r, t)"
    using assms(4) False by (auto simp: processReplicaset_def io_unfold split: option.splits)
  show thesis
  proof (cases r)
    case (Ok x)
    let ?b = "go_on s i t (CStoring rs)"
    have "cstep fuel cl cfg ?a (CUpserted i rs) ?b"
      using c_upserted [of ?a i rs fuel cl cfg t] assms(1) t Ok by simp
    moreover have "cstep fuel cl cfg ?b (CStored i rs) (go_on s i u (CLeaving rs))"
      using c_stored [of ?b i rs u fuel cl cfg] assms(1,4) t Ok False
      by (simp add: processReplicaset_def io_bind_def io_try_def step_defs io_modify_def)
    ultimately show thesis using a by (intro that [of "[CDecided i rs, CUpserted i rs, CStored i rs]"]) auto
  next
    case (Fail err)
    have "cstep fuel cl cfg ?a (CFailed i rs) (go_on s i u (CLeaving rs))"
      using c_failed [of ?a i rs fuel cl cfg err t u] assms(1,4) t Fail False
      by (simp add: processReplicaset_def io_bind_def io_try_def processed_Inc_def io_modify_def io_fail_def)
    then show thesis using a by (intro that [of "[CDecided i rs, CFailed i rs]"]) auto
  next
    case (Panic p)
    then show thesis using assms(4,5) t False by (auto simp: processReplicaset_def io_bind_def io_try_def)
  qed
qed

text \<open>
  The pieces make up the whole: when a call of \<open>handle_replicaset\<close> returns a value, a worker of the
  concurrent system can do it in steps while the others stand still, and it ends in exactly the
  same state of the operator and the world.
\<close>

lemma handle_is_a_run:
  assumes "\<not> dead s" and "at_pc s i = CIdle"
    and "handle_replicaset fuel cl cfg rs (shared s) = Some (Ok b, u)"
  shows "\<exists>ls. lrun (cstep fuel cl cfg) s ls (go_on s i u CIdle)"
proof -
  let ?k = "deployKey rs"
  obtain m where m: "Lock ?k (lock_map s) = Some m"
    using assms(3) by (auto simp: handle_replicaset_def locker_Lock_def io_bind_def Let_def split: option.splits)
  obtain ls where ls: "lrun (cstep fuel cl cfg) s ls (go_on s i (with_locks m s) (CEntered rs))"
    using assms(1,2) m by (rule lock_run)
  let ?s = "go_on s i (with_locks m s) (CEntered rs)"
  have run: "io_finally (locker_Unlock ?k) (\<lambda>s.
        if \<not> shouldProcessReplicaset s rs ?k then io_bind ignored_Inc (\<lambda>_. io_return True) s
        else io_bind (io_try (processReplicaset fuel cl cfg rs ?k)) (\<lambda>_. io_return True) s) (with_locks m s) =
      Some (Ok b, u)"
    using assms(3) m by (simp add: handle_replicaset_def locker_Lock_def io_bind_def Let_def)
  obtain v ms where v: "lrun (cstep fuel cl cfg) ?s ms (go_on s i v (CLeaving rs))"
    "locker_Unlock ?k v = Some (Ok (), u)"
  proof (cases "shouldProcessReplicaset (with_locks m s) rs ?k")
    case False
    obtain v where v: "ignored_Inc (with_locks m s) = Some (Ok (), v)"
      by (simp add: ignored_Inc_def io_modify_def)
    have "cstep fuel cl cfg ?s (CIgnored i rs) (go_on s i v (CLeaving rs))"
      using c_ignored [of ?s i rs v fuel cl cfg] assms(1) False v by simp
    moreover have "locker_Unlock ?k v = Some (Ok (), u)"
      using run False v
      by (auto simp: io_finally_def io_bind_def io_return_def locker_Unlock_not_Fail split: option.splits outcome.splits)
    ultimately show thesis by (intro that [of "[CIgnored i rs]"]) auto
  next
    case True
    obtain q v where q: "processReplicaset fuel cl cfg rs ?k (with_locks m s) = Some (q, v)"
      using run True by (auto simp: io_finally_def io_unfold split: option.splits)
    have "(\<forall>p. q \<noteq> Panic p) \<and> locker_Unlock ?k v = Some (Ok (), u)"
      using run True q
      by (cases q) (auto simp: io_finally_def io_bind_def io_try_def io_return_def locker_Unlock_not_Fail
          split: option.splits outcome.splits)
    moreover obtain ms where "lrun (cstep fuel cl cfg) ?s ms (go_on s i v (CLeaving rs))"
      using process_run [of ?s i rs fuel cl cfg q v] assms(1) True q calculation by auto
    ultimately show thesis using that by blast
  qed
  have "cstep fuel cl cfg (go_on s i v (CLeaving rs)) (CLeft i) (go_on s i u CIdle)"
    using c_left [of "go_on s i v (CLeaving rs)" i rs u fuel cl cfg] assms(1) v(2) by simp
  with v(1) have "lrun (cstep fuel cl cfg) ?s (ms @ [CLeft i]) (go_on s i u CIdle)" by (rule lrun_snoc)
  with ls have "lrun (cstep fuel cl cfg) s (ls @ ms @ [CLeft i]) (go_on s i u CIdle)"
    unfolding lrun_append by blast
  then show ?thesis ..
qed

section \<open>What a cleanup does to a running update\<close>

lemma upsert_run:
  assumes "healthy cl sv ig ef" "upsertable fuel cl cfg sv ig ef rs"
    and "\<not> dead s" "at_pc s i = CUpserting rs"
  obtains u where "lrun (cstep fuel cl cfg) s [CUpserted i rs, CStored i rs] (go_on s i u (CLeaving rs))"
    "activeState u = (activeState (shared s))(deployKey rs \<mapsto> newActiveEntry rs)"
    "filter_of cfg (ef (world u)) rs" "deploymentLocker u = lock_map s"
proof -
  obtain t where t: "upsertFilter fuel cl cfg rs (shared s) = Some (Ok (), t)" "filter_of cfg (ef (world t)) rs"
    using assms(1,2) by (rule upsert_succeeds)
  obtain u where u: "io_bind (activeState_Store (deployKey rs) (newActiveEntry rs))
      (\<lambda>_. processed_Inc ''success'' ''upsert'') t = Some (Ok (), u)"
    "activeState u = (activeState t)(deployKey rs \<mapsto> newActiveEntry rs)" "world u = world t"
    "deploymentLocker u = deploymentLocker t"
    by (simp add: io_bind_def activeState_Store_def processed_Inc_def io_modify_def)
  let ?b = "go_on s i t (CStoring rs)"
  have "cstep fuel cl cfg s (CUpserted i rs) ?b" using assms(3,4) t(1) by (rule c_upserted)
  moreover have "cstep fuel cl cfg ?b (CStored i rs) (go_on s i u (CLeaving rs))"
    using c_stored [of ?b i rs u fuel cl cfg] assms(3) u(1) by simp
  ultimately show thesis using upsert_keeps [OF t(1)] t(2) u(2-4) by (intro that [of u]) auto
qed

lemma enter_run:
  assumes "\<not> dead s" "at_pc s i = CIdle" "sm (lock_map s) (deployKey rs) = None"
    and "rs_ReadyReplicas rs \<noteq> 0" "grpcPort rs \<noteq> 0" "activeState (shared s) (deployKey rs) = None"
  obtains m where "lrun (cstep fuel cl cfg) s [CTook i rs, CDecided i rs] (go_on s i (with_locks m s) (CUpserting rs))"
proof -
  obtain m where m: "Lock_enter (deployKey rs) (lock_map s) = (None, m)"
    using assms(3) by (simp add: Lock_enter_eqs)
  let ?b = "go_on s i (with_locks m s) (CEntered rs)"
  have "cstep fuel cl cfg s (CTook i rs) ?b" using assms(1,2) m by (rule c_took)
  moreover have "cstep fuel cl cfg ?b (CDecided i rs) (go_on s i (with_locks m s) (CUpserting rs))"
    using c_decided [of ?b i rs fuel cl cfg] assms by (simp add: shouldProcess_iff)
  ultimately show thesis by (intro that [of m]) auto
qed

lemma cleanup_run:
  assumes "\<not> dead s" "cleaning s = None"
  shows "lrun (cstep fuel cl cfg) s [CCleanup k, CCleaned k]
    (s\<lparr>shared := (shared s)\<lparr>activeState := (activeState (shared s))(k := None),
                           deploymentLocker := Remove k (lock_map s)\<rparr>, cleaning := None\<rparr>)"
proof -
  let ?u = "(shared s)\<lparr>activeState := (activeState (shared s))(k := None)\<rparr>"
  have "cstep fuel cl cfg s (CCleanup k) (s\<lparr>shared := ?u, cleaning := Some k\<rparr>)"
    using assms by (intro c_cleanup) (simp_all add: activeState_Delete_def io_modify_def)
  moreover have "cstep fuel cl cfg (s\<lparr>shared := ?u, cleaning := Some k\<rparr>) (CCleaned k)
      (s\<lparr>shared := ?u\<lparr>deploymentLocker := Remove k (lock_map s)\<rparr>, cleaning := None\<rparr>)"
    using c_cleaned [of "s\<lparr>shared := ?u, cleaning := Some k\<rparr>" k "?u\<lparr>deploymentLocker := Remove k (lock_map s)\<rparr>"
        fuel cl cfg] assms by (simp add: locker_Remove_def io_modify_def)
  ultimately show ?thesis by auto
qed

text \<open>
  C35. A cleanup lets an update go back: while a worker creates the filter of a deployment, the
  deployment is deleted and created again, and the cleanup drops its entry and its lock. A second
  worker then enters and stores a newer revision, and after it the first worker, still under way,
  overwrites the newer filter and the newer entry with the older. So the removal of the lock
  undoes what the lock is there for, and the operator believes in the old revision until the newer
  ReplicaSet is queued again.
\<close>

theorem cleanup_lets_update_go_back:
  assumes "healthy cl sv ig ef" and "all_idle s"
    and "activeState (shared s) k = None" and "sm (lock_map s) k = None"
    and "candidate fuel cl cfg sv ig ef k old" and "candidate fuel cl cfg sv ig ef k new"
    and "deployRevision old < deployRevision new"
  shows "\<exists>u t. lrun (cstep fuel cl cfg) s
        [CTook 0 old, CDecided 0 old, CCleanup k, CCleaned k,
         CTook 1 new, CDecided 1 new, CUpserted 1 new, CStored 1 new] u \<and>
      activeState (shared u) k = Some (newActiveEntry new) \<and> filter_of cfg (ef (world (shared u))) new \<and>
    lrun (cstep fuel cl cfg) u [CUpserted 0 old, CStored 0 old] t \<and>
      activeState (shared t) k = Some (newActiveEntry old) \<and> filter_of cfg (ef (world (shared t))) old \<and>
      shouldProcessReplicaset (shared t) new k"
proof -
  note c = assms(5,6) [unfolded candidate_def]
  have idle: "\<not> dead s" "cleaning s = None" "at_pc s 0 = CIdle" "at_pc s 1 = CIdle"
    using assms(2) by (simp_all add: all_idle_def)
  obtain m where a: "lrun (cstep fuel cl cfg) s [CTook 0 old, CDecided 0 old]
      (go_on s 0 (with_locks m s) (CUpserting old))"
    by (rule enter_run [of s 0 old]) (use assms(3,4) idle c in simp_all)
  let ?a = "go_on s 0 (with_locks m s) (CUpserting old)"
  let ?b = "?a\<lparr>shared := (shared ?a)\<lparr>activeState := (activeState (shared ?a))(k := None),
                                       deploymentLocker := Remove k (lock_map ?a)\<rparr>, cleaning := None\<rparr>"
  have b: "lrun (cstep fuel cl cfg) ?a [CCleanup k, CCleaned k] ?b"
    using idle by (intro cleanup_run) simp_all
  obtain m2 where d: "lrun (cstep fuel cl cfg) ?b [CTook 1 new, CDecided 1 new]
      (go_on ?b 1 (with_locks m2 ?b) (CUpserting new))"
    by (rule enter_run [of ?b 1 new]) (use idle c in \<open>simp_all add: Remove_def\<close>)
  let ?d = "go_on ?b 1 (with_locks m2 ?b) (CUpserting new)"
  obtain v where e: "lrun (cstep fuel cl cfg) ?d [CUpserted 1 new, CStored 1 new] (go_on ?d 1 v (CLeaving new))"
    "activeState v = (activeState (shared ?d))(deployKey new \<mapsto> newActiveEntry new)"
    "filter_of cfg (ef (world v)) new"
    by (rule upsert_run [OF assms(1), of fuel cfg new ?d 1]) (use idle c in simp_all)
  let ?e = "go_on ?d 1 v (CLeaving new)"
  obtain w where f: "lrun (cstep fuel cl cfg) ?e [CUpserted 0 old, CStored 0 old] (go_on ?e 0 w (CLeaving old))"
    "activeState w = (activeState (shared ?e))(deployKey old \<mapsto> newActiveEntry old)"
    "filter_of cfg (ef (world w)) old"
    by (rule upsert_run [OF assms(1), of fuel cfg old ?e 0]) (use idle c in simp_all)
  have "lrun (cstep fuel cl cfg) s ([CTook 0 old, CDecided 0 old] @ [CCleanup k, CCleaned k] @
      [CTook 1 new, CDecided 1 new] @ [CUpserted 1 new, CStored 1 new]) ?e"
    unfolding lrun_append using a b d e(1) by blast
  moreover have "shouldProcessReplicaset w new k"
    using f(2) c assms(7) by (auto simp: shouldProcess_iff dest: arg_cong [where f = ae_revision])
  ultimately show ?thesis using e(2,3) f c
    by (intro exI [of _ ?e] exI [of _ "go_on ?e 0 w (CLeaving old)"]) simp
qed

section \<open>Instances\<close>

definition idle_workers :: "kworld operators" where
  "idle_workers = \<lparr>shared = sample_state, at_pc = (\<lambda>_. CIdle), cleaning = None, dead = False\<rparr>"

lemma idle_workers_idle: "all_idle idle_workers"
  by (simp add: all_idle_def idle_workers_def sample_state_def)

lemma idle_workers_simps:
  "activeState (shared idle_workers) = Map.empty" "lock_map idle_workers = mm_empty"
  "at_pc idle_workers i = CIdle" "\<not> dead idle_workers" "shared idle_workers = sample_state"
  "activeState sample_state = Map.empty" "deploymentLocker sample_state = mm_empty" "sm mm_empty k = None"
  by (simp_all add: idle_workers_def sample_state_def mm_empty_def)

lemma sample_update:
  obtains t where "lrun (cstep 1 sample_cluster sample_config) idle_workers
    [CTook 0 plain_rs, CDecided 0 plain_rs, CUpserted 0 plain_rs, CStored 0 plain_rs] t"
proof -
  obtain m where a: "lrun (cstep 1 sample_cluster sample_config) idle_workers [CTook 0 plain_rs, CDecided 0 plain_rs]
      (go_on idle_workers 0 (with_locks m idle_workers) (CUpserting plain_rs))"
    by (rule enter_run [of idle_workers 0 plain_rs])
      (simp_all add: idle_workers_simps sample_facts del: One_nat_def lrun_simps)
  let ?a = "go_on idle_workers 0 (with_locks m idle_workers) (CUpserting plain_rs)"
  obtain u where "lrun (cstep 1 sample_cluster sample_config) ?a [CUpserted 0 plain_rs, CStored 0 plain_rs]
      (go_on ?a 0 u (CLeaving plain_rs))"
    by (rule upsert_run [OF sample_healthy sample_upsertable(1), where s = ?a and i = 0 and cfg = sample_config])
      (simp_all add: idle_workers_simps del: One_nat_def lrun_simps)
  with a have "lrun (cstep 1 sample_cluster sample_config) idle_workers
      ([CTook 0 plain_rs, CDecided 0 plain_rs] @ [CUpserted 0 plain_rs, CStored 0 plain_rs])
      (go_on ?a 0 u (CLeaving plain_rs))" unfolding lrun_append by blast
  then show thesis by (intro that) simp
qed

theorem concurrent_runs_are_serial_witness:
  "\<exists>t. lrun (cstep 1 sample_cluster sample_config) idle_workers
      [CTook 0 plain_rs, CDecided 0 plain_rs, CUpserted 0 plain_rs, CStored 0 plain_rs] t \<and>
    activeState (shared t) = reconcile plain_rs Map.empty \<and> entries_grow Map.empty (activeState (shared t))"
proof -
  obtain t where t: "lrun (cstep 1 sample_cluster sample_config) idle_workers
    [CTook 0 plain_rs, CDecided 0 plain_rs, CUpserted 0 plain_rs, CStored 0 plain_rs] t" by (rule sample_update)
  then show ?thesis using concurrent_runs_are_serial [OF idle_workers_idle t]
    by (intro exI [of _ t]) (simp add: idle_workers_simps entries_grow_def)
qed

theorem cleanup_lets_update_go_back_witness:
  "\<exists>u t. lrun (cstep 1 sample_cluster sample_config) idle_workers
        [CTook 0 plain_rs, CDecided 0 plain_rs, CCleanup ''ns/d'', CCleaned ''ns/d'',
         CTook 1 second_rs, CDecided 1 second_rs, CUpserted 1 second_rs, CStored 1 second_rs] u \<and>
      activeState (shared u) ''ns/d'' = Some (newActiveEntry second_rs) \<and>
      filter_of sample_config (kw_filters (world (shared u))) second_rs \<and>
    lrun (cstep 1 sample_cluster sample_config) u [CUpserted 0 plain_rs, CStored 0 plain_rs] t \<and>
      activeState (shared t) ''ns/d'' = Some (newActiveEntry plain_rs) \<and>
      filter_of sample_config (kw_filters (world (shared t))) plain_rs \<and>
      shouldProcessReplicaset (shared t) second_rs ''ns/d''"
  by (rule cleanup_lets_update_go_back [OF sample_healthy idle_workers_idle])
    (simp_all add: idle_workers_simps candidate_def sample_facts sample_upsertable del: One_nat_def)

end
