(* ===== verification/Fleet.thy ===== *)
theory Fleet
  imports ApiRuns Concurrent
begin

text \<open>
  The operator's workers at the finest grain: each takes the lock of a deployment, runs the section
  of \<open>next\<close> (operator.go) one access at a time, every call of an API server (envoyfilter.go) being
  one, and releases the lock; beside them \<open>cleanupDeployment\<close> runs on the goroutine of the informer.
  Workers on one deployment wait for each other, workers on different deployments interleave
  freely. The locks of MutexMap and the independence of deployments of
  ApiRuns together give what the operator is for: whatever the schedule, each deployment that
  keeps its port and is not cleaned up ends with the filter of its latest revision.
\<close>

section \<open>The section of a deployment\<close>

text \<open>What \<open>next\<close> does between taking the lock and the deferred release of it.\<close>

definition section_steps ::
    "nat \<Rightarrow> ('w, 'b, 'c, 's) cluster \<Rightarrow> op_config \<Rightarrow> replicaset \<Rightarrow> ('w op_state, bool) prog" where
  "section_steps fuel cl cfg rs =
     (let key = deployKey rs in
      p_bind (p_act (\<lambda>s. Some (Ok (shouldProcessReplicaset s rs key), s))) (\<lambda>should.
        if \<not> should then p_bind (p_act ignored_Inc) (\<lambda>_. p_return True)
        else p_bind (p_try (processReplicaset_steps fuel cl cfg rs key)) (\<lambda>_. p_return True)))"

text \<open>Alone, between \<open>Lock\<close> and \<open>Unlock\<close>, it is \<open>handle_replicaset\<close>.\<close>

lemma section_alone:
  "io_bind (locker_Lock (deployKey rs)) (\<lambda>_.
     io_finally (locker_Unlock (deployKey rs)) (p_run (section_steps fuel cl cfg rs))) =
   handle_replicaset fuel cl cfg rs"
proof -
  have "p_run (section_steps fuel cl cfg rs) = (\<lambda>s.
      if \<not> shouldProcessReplicaset s rs (deployKey rs)
      then io_bind ignored_Inc (\<lambda>_. io_return True) s
      else io_bind (io_try (processReplicaset fuel cl cfg rs (deployKey rs))) (\<lambda>_. io_return True) s)"
    unfolding section_steps_def Let_def prog_run steps_alone
    by (rule ext) (simp add: io_bind_def)
  then show ?thesis by (simp add: handle_replicaset_def Let_def)
qed

section \<open>The step relation\<close>

datatype 'w fpc =
    FIdle
  | FWaiting replicaset nat
  | FInside replicaset "('w op_state, bool) prog"

record 'w fleet =
  fl_shared :: "'w op_state"
  fl_pc :: "nat \<Rightarrow> 'w fpc"
  fl_cleaning :: "string option"
  fl_dead :: bool

datatype flabel =
    FTook nat replicaset
  | FBlocked nat replicaset
  | FAcquired nat
  | FAct nat
  | FLeft nat replicaset
  | FPanicked nat
  | FCleanup string
  | FCleaned string

definition fl_go :: "'w fleet \<Rightarrow> nat \<Rightarrow> 'w op_state \<Rightarrow> 'w fpc \<Rightarrow> 'w fleet" where
  "fl_go s i u pc = s\<lparr>fl_shared := u, fl_pc := (fl_pc s)(i := pc)\<rparr>"

lemma fl_go_simps [simp]:
  "fl_shared (fl_go s i u pc) = u" "fl_pc (fl_go s i u pc) = (fl_pc s)(i := pc)"
  "fl_cleaning (fl_go s i u pc) = fl_cleaning s" "fl_dead (fl_go s i u pc) = fl_dead s"
  by (simp_all add: fl_go_def)

abbreviation fl_locks :: "'w fleet \<Rightarrow> mutex_map" where
  "fl_locks s \<equiv> deploymentLocker (fl_shared s)"

abbreviation fl_locked :: "mutex_map \<Rightarrow> 'w fleet \<Rightarrow> 'w op_state" where
  "fl_locked m s \<equiv> (fl_shared s)\<lparr>deploymentLocker := m\<rparr>"

inductive fstep ::
    "nat \<Rightarrow> ('w, 'b, 'c, 's) cluster \<Rightarrow> op_config \<Rightarrow> 'w fleet \<Rightarrow> flabel \<Rightarrow> 'w fleet \<Rightarrow> bool"
  for fuel cl cfg where
  f_took: "\<not> fl_dead s \<Longrightarrow> fl_pc s i = FIdle \<Longrightarrow> Lock_enter (deployKey rs) (fl_locks s) = (None, m) \<Longrightarrow>
    fstep fuel cl cfg s (FTook i rs) (fl_go s i (fl_locked m s) (FInside rs (section_steps fuel cl cfg rs)))"
| f_blocked: "\<not> fl_dead s \<Longrightarrow> fl_pc s i = FIdle \<Longrightarrow> Lock_enter (deployKey rs) (fl_locks s) = (Some v, m) \<Longrightarrow>
    fstep fuel cl cfg s (FBlocked i rs) (fl_go s i (fl_locked m s) (FWaiting rs v))"
| f_acquired: "\<not> fl_dead s \<Longrightarrow> fl_pc s i = FWaiting rs v \<Longrightarrow> mutex_Lock v (fl_locks s) = Some m \<Longrightarrow>
    fstep fuel cl cfg s (FAcquired i) (fl_go s i (fl_locked m s) (FInside rs (section_steps fuel cl cfg rs)))"
| f_act: "\<not> fl_dead s \<Longrightarrow> fl_pc s i = FInside rs (Act a) \<Longrightarrow> a (fl_shared s) = Some (p, u) \<Longrightarrow>
    fstep fuel cl cfg s (FAct i) (fl_go s i u (FInside rs p))"
| f_left: "\<not> fl_dead s \<Longrightarrow> fl_pc s i = FInside rs (Done r) \<Longrightarrow> \<forall>e. r \<noteq> Panic e \<Longrightarrow>
    locker_Unlock (deployKey rs) (fl_shared s) = Some (Ok (), u) \<Longrightarrow>
    fstep fuel cl cfg s (FLeft i rs) (fl_go s i u FIdle)"
| f_panicked: "\<not> fl_dead s \<Longrightarrow> fl_pc s i = FInside rs (Done (Panic e)) \<Longrightarrow>
    locker_Unlock (deployKey rs) (fl_shared s) = Some (r, u) \<Longrightarrow>
    fstep fuel cl cfg s (FPanicked i) (s\<lparr>fl_shared := u, fl_dead := True\<rparr>)"
| f_fatal: "\<not> fl_dead s \<Longrightarrow> fl_pc s i = FInside rs (Done r) \<Longrightarrow>
    locker_Unlock (deployKey rs) (fl_shared s) = Some (Panic e, u) \<Longrightarrow>
    fstep fuel cl cfg s (FPanicked i) (s\<lparr>fl_shared := u, fl_dead := True\<rparr>)"
| f_cleanup: "\<not> fl_dead s \<Longrightarrow> fl_cleaning s = None \<Longrightarrow> activeState_Delete k (fl_shared s) = Some (Ok (), u) \<Longrightarrow>
    fstep fuel cl cfg s (FCleanup k) (s\<lparr>fl_shared := u, fl_cleaning := Some k\<rparr>)"
| f_cleaned: "\<not> fl_dead s \<Longrightarrow> fl_cleaning s = Some k \<Longrightarrow> locker_Remove k (fl_shared s) = Some (Ok (), u) \<Longrightarrow>
    fstep fuel cl cfg s (FCleaned k) (s\<lparr>fl_shared := u, fl_cleaning := None\<rparr>)"

inductive_cases fstepE: "fstep fuel cl cfg s l t"

text \<open>
  The ReplicaSets that a label hands out, the deployments that it cleans up, and the labels that do
  neither.
\<close>

fun given :: "flabel \<Rightarrow> replicaset set" where
  "given (FTook i rs) = {rs}"
| "given (FBlocked i rs) = {rs}"
| "given _ = {}"

fun cleans :: "flabel \<Rightarrow> string set" where
  "cleans (FCleanup k) = {k}"
| "cleans (FCleaned k) = {k}"
| "cleans _ = {}"

definition quiet :: "flabel \<Rightarrow> bool" where
  "quiet l \<longleftrightarrow> given l = {} \<and> cleans l = {}"

lemma quiet_simps [simp]:
  "quiet (FAcquired i)" "quiet (FAct i)" "quiet (FLeft i rs)" "quiet (FPanicked i)"
  "\<not> quiet (FTook i rs)" "\<not> quiet (FBlocked i rs)" "\<not> quiet (FCleanup k)" "\<not> quiet (FCleaned k)"
  by (simp_all add: quiet_def)

section \<open>The locks\<close>

fun fl_at :: "'w fpc \<Rightarrow> worker_pc" where
  "fl_at FIdle = Outside"
| "fl_at (FWaiting rs v) = Waiting (deployKey rs) v"
| "fl_at (FInside rs p) = Inside (deployKey rs)"

lemma fl_at_simps:
  "fl_at pc = Inside k \<longleftrightarrow> (\<exists>rs p. pc = FInside rs p \<and> k = deployKey rs)"
  "fl_at pc = Waiting k v \<longleftrightarrow> (\<exists>rs. pc = FWaiting rs v \<and> k = deployKey rs)"
  "fl_at pc = Outside \<longleftrightarrow> pc = FIdle"
  by (cases pc; auto)+

definition fleet_locks :: "'w fleet \<Rightarrow> workers" where
  "fleet_locks s = \<lparr>mutexes = fl_locks s, pcs = (\<lambda>i. fl_at (fl_pc s i)), crashed = False\<rparr>"

lemma fleet_locks_simps [simp]:
  "mutexes (fleet_locks s) = fl_locks s" "pcs (fleet_locks s) i = fl_at (fl_pc s i)"
  "crashed (fleet_locks s) = False"
  by (simp_all add: fleet_locks_def)

lemma fleet_locks_go:
  "fleet_locks (fl_go s i u pc) =
     (fleet_locks s)\<lparr>mutexes := deploymentLocker u, pcs := (pcs (fleet_locks s))(i := fl_at pc)\<rparr>"
  by (auto simp: fleet_locks_def)

text \<open>Removing the entry of a deployment that no worker is at does no harm.\<close>

lemma winv_Remove:
  assumes "winv w" "\<And>i. pcs w i \<noteq> Inside k" "\<And>i v. pcs w i \<noteq> Waiting k v"
  shows "winv (w\<lparr>mutexes := Remove k (mutexes w)\<rparr>)"
proof (rule winvI, goal_cases)
  case 1
  show ?case using Remove_wf [OF winvD(1) [OF assms(1)]] by simp
next
  case 2
  show ?case using winvD(2) [OF assms(1)] by simp
next
  case (3 i j)
  then show ?case using winvD(3) [OF assms(1), of i j] assms(2) by auto
next
  case (4 i j k)
  then show ?case using winvD(4) [OF assms(1), of i k j] by simp
next
  case (5 j)
  then show ?case using winvD(5) [OF assms(1), of j] by simp
next
  case (6 i j v)
  then show ?case using winvD(6) [OF assms(1), of i j v] assms(3) by (auto simp: Remove_def)
qed

text \<open>Every step is a lock action of Workers, or none, if the actions of the sections leave the locks alone.\<close>

lemma fstep_winv:
  assumes step: "fstep fuel cl cfg s l t" and w: "winv (fleet_locks s)"
    and act: "\<And>i rs a p u. fl_pc s i = FInside rs (Act a) \<Longrightarrow> a (fl_shared s) = Some (p, u) \<Longrightarrow>
      deploymentLocker u = fl_locks s"
    and clean: "\<And>k i v. k \<in> cleans l \<Longrightarrow> fl_at (fl_pc s i) \<noteq> Inside k \<and> fl_at (fl_pc s i) \<noteq> Waiting k v"
  shows "fl_dead t \<or> winv (fleet_locks t)"
  using step
proof (cases rule: fstep.cases)
  case (f_took i rs m)
  have "wstep (fleet_locks s) (WStored i (deployKey rs)) (fleet_locks t)"
    using wstep.stored [of "fleet_locks s" i "deployKey rs" m] f_took by (simp add: fleet_locks_go)
  from wstep_winv [OF this w] show ?thesis by simp
next
  case (f_blocked i rs v m)
  have "wstep (fleet_locks s) (WBlocked i (deployKey rs)) (fleet_locks t)"
    using wstep.blocked [of "fleet_locks s" i "deployKey rs" v m] f_blocked by (simp add: fleet_locks_go)
  from wstep_winv [OF this w] show ?thesis by simp
next
  case (f_acquired i rs v m)
  have "wstep (fleet_locks s) (WAcquired i) (fleet_locks t)"
    using wstep.acquired [of "fleet_locks s" i "deployKey rs" v m] f_acquired by (simp add: fleet_locks_go)
  from wstep_winv [OF this w] show ?thesis by simp
next
  case (f_act i rs a p u)
  then have "fleet_locks t = fleet_locks s" using act [OF f_act(4,5)] by (auto simp: fleet_locks_def)
  then show ?thesis using w by simp
next
  case (f_left i rs r u)
  obtain m where m: "Unlock (deployKey rs) (fl_locks s) = Some (Ok (), m)" "u = fl_locked m s"
    using f_left(6) by (auto simp: locker_Unlock_Ok)
  have "wstep (fleet_locks s) (WUnlocked i) (fleet_locks t)"
    using wstep.unlocked [of "fleet_locks s" i "deployKey rs" m] f_left m by (simp add: fleet_locks_go)
  from wstep_winv [OF this w] show ?thesis by simp
next
  case (f_cleanup k u)
  then have "fleet_locks t = fleet_locks s" by (auto simp: fleet_locks_def activeState_Delete_def io_modify_def)
  then show ?thesis using w by simp
next
  case (f_cleaned k u)
  have "winv ((fleet_locks s)\<lparr>mutexes := Remove k (mutexes (fleet_locks s))\<rparr>)"
    using w by (rule winv_Remove) (use clean [of k] f_cleaned(1) in auto)
  moreover have "fleet_locks t = (fleet_locks s)\<lparr>mutexes := Remove k (mutexes (fleet_locks s))\<rparr>"
    using f_cleaned by (auto simp: fleet_locks_def locker_Remove_def io_modify_def)
  ultimately show ?thesis by simp
qed simp_all

text \<open>
  The actions of a section for a ReplicaSet with a port leave the locks alone, and the active
  entries of all other deployments.
\<close>

definition outside_view :: "replicaset \<Rightarrow> 'w op_state \<Rightarrow> mutex_map \<times> (string \<rightharpoonup> active_entry)" where
  "outside_view rs s = (deploymentLocker s, (activeState s)(deployKey rs := None))"

lemma internal_view: "internal (outside_view rs)"
  by (simp add: internal_def outside_view_def)

lemma upsert_object_frames:
  assumes "internal f"
  shows "p_keeps f (createService_steps cl rs)" "p_keeps f (createIngress_steps cl rs)"
    "p_keeps f (upsert_encoded_steps cl cfg rs b ss)"
  unfolding createService_steps_def createIngress_steps_def upsert_encoded_steps_def Let_def
  using assms by (auto intro!: prog_frames io_frames split: sum.split)

lemma upsertFilter_frame:
  assumes "internal f"
  shows "p_keeps f (upsertFilter_steps fuel cl cfg rs)"
proof -
  have "p_keeps f (upsertEnvoyFilter_steps cl cfg rs fds ss)" for fds ss
    using upsert_object_frames(3) [OF assms] unfolding upsertEnvoyFilter_steps_def
    by (auto intro!: prog_frames split: sum.split)
  then have "p_keeps f (query_and_upsert_steps fuel cl cfg rs)"
    unfolding query_and_upsert_steps_def using assms
    by (auto intro!: prog_frames io_frames split: prod.split)
  then show ?thesis
    unfolding upsertFilter_steps_def using assms upsert_object_frames(1,2) [OF assms]
    by (auto intro!: prog_frames simp: deleteService_def deleteIngress_def internalD)
qed

lemma section_frame:
  assumes "grpcPort rs \<noteq> 0"
  shows "p_keeps (outside_view rs) (section_steps fuel cl cfg rs)"
proof -
  have view: "outside_view rs (s\<lparr>counters := c\<rparr>) = outside_view rs s"
    "outside_view rs (s\<lparr>activeState := (activeState s)(deployKey rs \<mapsto> x)\<rparr>) = outside_view rs s" for s c x
    by (simp_all add: outside_view_def)
  have "p_keeps (outside_view rs) (processReplicaset_steps fuel cl cfg rs (deployKey rs))"
    unfolding processReplicaset_steps_def using assms upsertFilter_frame [OF internal_view]
    by (auto intro!: prog_frames io_frames simp: step_defs view split: sum.split)
  then show ?thesis
    unfolding section_steps_def Let_def
    by (auto intro!: prog_frames io_frames simp: step_defs view io_keeps_def)
qed

section \<open>The work\<close>

text \<open>
  The ReplicaSets that the workers are given: their names and those of their deployments have no
  slash, as Kubernetes requires, each is a candidate of its deployment in the sense of Reconcile,
  and one object belongs to one deployment. One deployment may have any number of them.
\<close>

definition well_named :: "replicaset \<Rightarrow> bool" where
  "well_named rs \<longleftrightarrow> CHR ''/'' \<notin> set (rs_Namespace rs) \<and>
     (case getDeployment rs of None \<Rightarrow> False | Some d \<Rightarrow> CHR ''/'' \<notin> set (or_Name d))"

definition fleet_work where
  "fleet_work fuel cl cfg sv ig ef U \<longleftrightarrow>
     (\<forall>rs \<in> U. well_named rs \<and> candidate fuel cl cfg sv ig ef (deployKey rs) rs) \<and>
     (\<forall>rs \<in> U. \<forall>x \<in> U. deployKey rs \<noteq> deployKey x \<longrightarrow>
        (rs_Namespace rs, rs_Name rs) \<noteq> (rs_Namespace x, rs_Name x))"

lemma append_slash_eq:
  "CHR ''/'' \<notin> set a \<Longrightarrow> CHR ''/'' \<notin> set b \<Longrightarrow> a @ CHR ''/'' # c = b @ CHR ''/'' # d \<Longrightarrow> a = b \<and> c = d"
proof (induction a arbitrary: b)
  case Nil
  then show ?case by (cases b) auto
next
  case (Cons x a)
  then show ?case by (cases b) auto
qed

lemma well_named_key: "well_named rs \<Longrightarrow> snd (getDeploymentKey rs)"
  by (auto simp: well_named_def getDeploymentKey_def split: option.splits)

lemma same_key_same_filter:
  assumes "well_named rs" "well_named x" "deployKey rs = deployKey x"
  shows "rs_Namespace rs = rs_Namespace x" "envoyFilterName rs = envoyFilterName x"
proof -
  obtain d where d: "getDeployment rs = Some d" "CHR ''/'' \<notin> set (or_Name d)"
    using assms(1) by (auto simp: well_named_def split: option.splits)
  obtain e where e: "getDeployment x = Some e" "CHR ''/'' \<notin> set (or_Name e)"
    using assms(2) by (auto simp: well_named_def split: option.splits)
  note ns = assms(1,2) [unfolded well_named_def, THEN conjunct1]
  have eq: "(if rs_Namespace rs = [] then or_Name d else rs_Namespace rs @ CHR ''/'' # or_Name d) =
      (if rs_Namespace x = [] then or_Name e else rs_Namespace x @ CHR ''/'' # or_Name e)"
    using assms(3) by (simp add: getDeploymentKey_def d(1) e(1) split: if_splits)
  have "rs_Namespace rs = rs_Namespace x \<and> or_Name d = or_Name e"
  proof (cases "rs_Namespace rs = [] \<or> rs_Namespace x = []")
    case True
    then show ?thesis using eq d(2) e(2)
      by (cases "rs_Namespace rs = []"; cases "rs_Namespace x = []"; simp; metis in_set_conv_decomp)
  next
    case False
    then show ?thesis using eq append_slash_eq [OF ns, of "or_Name d" "or_Name e"] by simp
  qed
  then show "rs_Namespace rs = rs_Namespace x" "envoyFilterName rs = envoyFilterName x"
    by (simp_all add: envoyFilterName_def d(1) e(1))
qed

lemma fleet_workD:
  assumes "fleet_work fuel cl cfg sv ig ef U" "rs \<in> U"
  shows "well_named rs" "rs_ReadyReplicas rs \<noteq> 0" "grpcPort rs \<noteq> 0" "deployRevision rs > 0"
    "upsertable fuel cl cfg sv ig ef rs"
  using assms unfolding fleet_work_def candidate_def by auto

text \<open>Two ReplicaSets of the work are independent when their deployments are different.\<close>

lemma fleet_independent:
  assumes "fleet_work fuel cl cfg sv ig ef U" "rs \<in> U" "x \<in> U" "deployKey rs \<noteq> deployKey x"
  shows "independent [rs, x]"
  using assms fleet_workD(1) [OF assms(1)] unfolding independent_def fleet_work_def
  by (auto simp: well_named_key)

text \<open>
  The state of a deployment once the ReplicaSets in \<open>H\<close> were handled for it: entry and stored filter
  are those of one with a highest revision, and without any there is no entry.
\<close>

definition latest ::
    "op_config \<Rightarrow> ('w \<Rightarrow> string \<times> string \<rightharpoonup> envoyfilter) \<Rightarrow> replicaset set \<Rightarrow> string \<Rightarrow> 'w op_state \<Rightarrow> bool" where
  "latest cfg ef H k s \<longleftrightarrow>
     (if H = {} then activeState s k = None
      else \<exists>rs \<in> H. (\<forall>x \<in> H. deployRevision x \<le> deployRevision rs) \<and>
        activeState s k = Some (newActiveEntry rs) \<and> filter_of cfg (ef (world s)) rs)"

lemma latest_cong:
  assumes "activeState t k = activeState s k"
    and "\<And>x. x \<in> H \<Longrightarrow> filter_of cfg (ef (world t)) x = filter_of cfg (ef (world s)) x"
  shows "latest cfg ef H k t = latest cfg ef H k s"
  unfolding latest_def assms(1) using assms(2) by auto

text \<open>It depends on what belongs to any one ReplicaSet of the deployment.\<close>

lemma latest_part:
  assumes "well_named rs" "\<forall>x \<in> H. well_named x \<and> deployKey x = deployKey rs"
    and "part_of sv ig ef rs t = part_of sv ig ef rs s"
  shows "latest cfg ef H (deployKey rs) t = latest cfg ef H (deployKey rs) s"
proof (rule latest_cong)
  show "activeState t (deployKey rs) = activeState s (deployKey rs)"
    using assms(3) by (simp add: part_of_def)
  fix x
  assume "x \<in> H"
  then have "rs_Namespace x = rs_Namespace rs" "envoyFilterName x = envoyFilterName rs"
    using same_key_same_filter assms(1,2) by metis+
  then show "filter_of cfg (ef (world t)) x = filter_of cfg (ef (world s)) x"
    using assms(3) by (simp add: filter_of_def part_of_def)
qed

lemma latest_ignored:
  assumes "latest cfg ef H (deployKey rs) s" "\<not> shouldProcessReplicaset s rs (deployKey rs)"
    and "rs_ReadyReplicas rs \<noteq> 0" "grpcPort rs \<noteq> 0" "deployRevision rs > 0"
  shows "latest cfg ef (insert rs H) (deployKey rs) s"
proof -
  have "H \<noteq> {}" using assms by (auto simp: latest_def shouldProcess_iff)
  then obtain r where r: "r \<in> H" "\<forall>x \<in> H. deployRevision x \<le> deployRevision r"
    "activeState s (deployKey rs) = Some (newActiveEntry r)" "filter_of cfg (ef (world s)) r"
    using assms(1) by (auto simp: latest_def)
  have "deployRevision rs \<le> deployRevision r"
    using assms(2-5) r(3) by (auto simp: shouldProcess_iff dest: arg_cong [where f = ae_revision])
  then show ?thesis using r unfolding latest_def by auto
qed

lemma latest_processed:
  assumes "latest cfg ef H (deployKey rs) s" "shouldProcessReplicaset s rs (deployKey rs)"
    and "activeState t (deployKey rs) = Some (newActiveEntry rs)" "filter_of cfg (ef (world t)) rs"
  shows "latest cfg ef (insert rs H) (deployKey rs) t"
proof -
  have "\<forall>x \<in> H. deployRevision x \<le> deployRevision rs"
  proof (cases "H = {}")
    case False
    then obtain r where r: "\<forall>x \<in> H. deployRevision x \<le> deployRevision r"
      "activeState s (deployKey rs) = Some (newActiveEntry r)"
      using assms(1) by (auto simp: latest_def)
    then have "deployRevision r \<le> deployRevision rs" using assms(2) by (simp add: shouldProcess_iff)
    then show ?thesis using r(1) by force
  qed simp
  then show ?thesis using assms(3,4) unfolding latest_def by auto
qed

text \<open>A section among other sections, of other deployments.\<close>

definition section_ends where
  "section_ends cfg ef H rs r t \<longleftrightarrow> r = Ok True \<and> latest cfg ef (insert rs H) (deployKey rs) t"

lemma own_first: "own_part sv ig ef (rs # rss) 0 u = Some (part_of sv ig ef rs u)"
  by (simp add: own_part_def)

lemma section_ends_finished:
  assumes "\<And>t. own_part sv ig ef (rs # rss) 0 t = Some p \<Longrightarrow> latest cfg ef (insert rs H) (deployKey rs) t"
    and "own_part sv ig ef (rs # rss) 0 s = Some p"
  shows "assured_part sv ig ef (rs # rss) 0 (section_ends cfg ef H rs) (Done (Ok True)) s"
  using assms(2) by (rule assured_finished) (simp add: section_ends_def assms(1))

lemma ignored_part:
  assumes "fleet_work fuel cl cfg sv ig ef U" "rs \<in> U"
    and H: "\<forall>x \<in> insert rs H. well_named x \<and> deployKey x = deployKey rs"
    and "latest cfg ef H (deployKey rs) s" "\<not> shouldProcessReplicaset s rs (deployKey rs)"
  shows "assured_part sv ig ef (rs # rss) 0 (section_ends cfg ef H rs)
    (p_then (p_act ignored_Inc) (\<lambda>r. case r of Ok _ \<Rightarrow> Done (Ok True) | Fail e \<Rightarrow> Done (Fail e) | Panic s \<Rightarrow> Done (Panic s))) s"
proof (rule counter_part [OF own_first], goal_cases)
  case (2 t)
  note c = fleet_workD [OF assms(1,2)]
  have "latest cfg ef (insert rs H) (deployKey rs) u" if "own_part sv ig ef (rs # rss) 0 u = Some (part_of sv ig ef rs s)" for u
  proof -
    have "part_of sv ig ef rs u = part_of sv ig ef rs s" using that by (simp add: own_first)
    from latest_part [OF c(1) H this, of cfg] latest_ignored [OF assms(4,5) c(2-4)] show ?thesis by simp
  qed
  from section_ends_finished [OF this 2] show ?case by simp
qed (simp add: ignored_Inc_def io_basic)

lemma processed_latest:
  assumes "healthy cl sv ig ef" "independent (rs # rss)" "fleet_work fuel cl cfg sv ig ef U" "rs \<in> U"
    and "latest cfg ef H (deployKey rs) s" "shouldProcessReplicaset s rs (deployKey rs)"
  shows "assured_part sv ig ef (rs # rss) 0 (section_ends cfg ef H rs)
    (p_then (processReplicaset_steps fuel cl cfg rs (deployKey rs))
      (\<lambda>r. case (case r of Ok a \<Rightarrow> Ok (Inr a) | Fail e \<Rightarrow> Ok (Inl e) | Panic s \<Rightarrow> Panic s) of
         Ok _ \<Rightarrow> Done (Ok True) | Fail e \<Rightarrow> Done (Fail e) | Panic s \<Rightarrow> Done (Panic s))) s"
proof -
  note c = fleet_workD [OF assms(3,4)]
  have "assured_part sv ig ef (rs # rss) 0 (section_ends cfg ef H rs)
    (p_then (processReplicaset_steps fuel cl cfg ((rs # rss) ! 0) (deployKey ((rs # rss) ! 0)))
      (\<lambda>r. case (case r of Ok a \<Rightarrow> Ok (Inr a) | Fail e \<Rightarrow> Ok (Inl e) | Panic s \<Rightarrow> Panic s) of
         Ok _ \<Rightarrow> Done (Ok True) | Fail e \<Rightarrow> Done (Fail e) | Panic s \<Rightarrow> Done (Panic s))) s"
  proof (rule processReplicaset_part [OF assms(1,2), where ?o1.0 = "part_of sv ig ef rs s"], goal_cases)
    case (4 t q)
    have "latest cfg ef (insert rs H) (deployKey rs) u" if u: "own_part sv ig ef (rs # rss) 0 u = Some q" for u
    proof -
      have "processed_part cfg rs (part_of sv ig ef rs s) (part_of sv ig ef rs u)" using 4(2) u by (simp add: own_first)
      then have "activeState u (deployKey rs) = Some (newActiveEntry rs)" "filter_of cfg (ef (world u)) rs"
        using c(3) by (auto simp: processed_part_def part_of_def filter_of_def)
      then show ?thesis by (rule latest_processed [OF assms(5,6)])
    qed
    from section_ends_finished [OF this 4(1)] show ?case by simp
  qed (simp_all add: c(5) own_first)
  then show ?thesis by simp
qed

lemma section_part:
  assumes h: "healthy cl sv ig ef" "independent (rs # rss)"
    and work: "fleet_work fuel cl cfg sv ig ef U" "rs \<in> U" "H \<subseteq> U" "\<forall>x \<in> H. deployKey x = deployKey rs"
    and start: "latest cfg ef H (deployKey rs) s"
  shows "assured_part sv ig ef (rs # rss) 0 (section_ends cfg ef H rs) (section_steps fuel cl cfg rs) s"
  unfolding section_steps_def Let_def p_bind_def p_try_def p_then_assoc
proof (rule assured_act, rule own_first, goal_cases)
  case (1 t)
  have H: "\<forall>x \<in> insert rs H. well_named x \<and> deployKey x = deployKey rs"
    using work fleet_workD(1) [OF work(1)] by auto
  then have Hw: "\<forall>x \<in> H. well_named x \<and> deployKey x = deployKey rs" by blast
  have same: "part_of sv ig ef rs t = part_of sv ig ef rs s" using 1 by (simp add: own_first)
  have lt: "latest cfg ef H (deployKey rs) t"
    using start by (simp only: latest_part [OF fleet_workD(1) [OF work(1,2)] Hw same])
  show ?case
  proof (cases "shouldProcessReplicaset t rs (deployKey rs)")
    case False
    show ?thesis using False ignored_part [OF work(1,2) H lt False, of rss]
      by (intro exI [of _ "Ok False"] exI [of _ t]) (simp add: p_return_def p_then_Done)
  next
    case True
    show ?thesis using True processed_latest [OF h work(1,2) lt True]
      by (intro exI [of _ "Ok True"] exI [of _ t]) (simp add: p_return_def p_then_assoc)
  qed
qed

section \<open>The invariant\<close>

definition of_key :: "string \<Rightarrow> replicaset set \<Rightarrow> replicaset set" where
  "of_key k H = {x \<in> H. deployKey x = k}"

lemma of_key_insert: "of_key k (insert rs H) = (if deployKey rs = k then insert rs (of_key k H) else of_key k H)"
  by (auto simp: of_key_def)

text \<open>A worker in the section of \<open>rs\<close> with \<open>p\<close> left to run, when \<open>H\<close> was handled before.\<close>

definition safe_inside where
  "safe_inside cfg sv ig ef H rs p u \<longleftrightarrow> p_keeps (outside_view rs) p \<and>
     (\<forall>rss. independent (rs # rss) \<longrightarrow>
        assured_part sv ig ef (rs # rss) 0 (section_ends cfg ef (of_key (deployKey rs) H) rs) p u)"

lemma safe_inside_enter:
  assumes "healthy cl sv ig ef" "fleet_work fuel cl cfg sv ig ef U" "rs \<in> U" "H \<subseteq> U"
    and "latest cfg ef (of_key (deployKey rs) H) (deployKey rs) u"
  shows "safe_inside cfg sv ig ef H rs (section_steps fuel cl cfg rs) u"
  unfolding safe_inside_def
proof (intro conjI allI impI)
  show "p_keeps (outside_view rs) (section_steps fuel cl cfg rs)"
    by (rule section_frame) (rule fleet_workD(3) [OF assms(2,3)])
  have H: "of_key (deployKey rs) H \<subseteq> U" "\<forall>x \<in> of_key (deployKey rs) H. deployKey x = deployKey rs"
    using assms(4) unfolding of_key_def by blast+
  fix rss
  assume "independent (rs # rss)"
  from section_part [OF assms(1) this assms(2,3) H assms(5)]
  show "assured_part sv ig ef (rs # rss) 0 (section_ends cfg ef (of_key (deployKey rs) H) rs) (section_steps fuel cl cfg rs) u" .
qed

lemma safe_inside_stable:
  assumes "safe_inside cfg sv ig ef H rs p u" "part_of sv ig ef rs v = part_of sv ig ef rs u"
    and "of_key (deployKey rs) G = of_key (deployKey rs) H"
  shows "safe_inside cfg sv ig ef G rs p v"
  unfolding safe_inside_def assms(3)
proof (intro conjI allI impI)
  note safe = assms(1) [unfolded safe_inside_def]
  show "p_keeps (outside_view rs) p" using safe by (rule conjunct1)
  fix rss
  assume "independent (rs # rss)"
  then have "assured_part sv ig ef (rs # rss) 0 (section_ends cfg ef (of_key (deployKey rs) H) rs) p u"
    using safe by blast
  then show "assured_part sv ig ef (rs # rss) 0 (section_ends cfg ef (of_key (deployKey rs) H) rs) p v"
    by (rule owners.one.assured_stable) (simp add: same_own_def own_first assms(2))
qed

lemma safe_inside_act:
  assumes "safe_inside cfg sv ig ef H rs (Act a) u" "a u = Some (p, v)"
  shows "safe_inside cfg sv ig ef H rs p v" "outside_view rs v = outside_view rs u"
    "independent [rs, x] \<Longrightarrow> part_of sv ig ef x v = part_of sv ig ef x u"
proof -
  have a: "assured_part sv ig ef (rs # rss) 0 (section_ends cfg ef (of_key (deployKey rs) H) rs) (Act a) u"
    if "independent (rs # rss)" for rss using assms(1) that by (simp add: safe_inside_def)
  note f = p_keepsD [OF conjunct1 [OF assms(1) [unfolded safe_inside_def]] assms(2)]
  show "safe_inside cfg sv ig ef H rs p v"
    using f owners.one.assured_step(2) [OF a assms(2)] by (simp add: safe_inside_def)
  show "outside_view rs v = outside_view rs u" using f by blast
  assume "independent [rs, x]"
  from owners.one.assured_step(1) [OF a [OF this] assms(2)]
  have "own_part sv ig ef [rs, x] 1 v = own_part sv ig ef [rs, x] 1 u" by (simp add: same_others_def)
  then show "part_of sv ig ef x v = part_of sv ig ef x u" by (simp add: own_part_def)
qed

lemma safe_inside_done:
  assumes "safe_inside cfg sv ig ef H rs (Done r) u" "well_named rs"
  shows "r = Ok True" "latest cfg ef (insert rs (of_key (deployKey rs) H)) (deployKey rs) u"
proof -
  have "independent [rs]" using assms(2) by (simp add: independent_def well_named_key)
  then have "assured_part sv ig ef [rs] 0 (section_ends cfg ef (of_key (deployKey rs) H) rs) (Done r) u"
    using assms(1) by (simp add: safe_inside_def)
  then have "section_ends cfg ef (of_key (deployKey rs) H) rs r u" by (rule owners.one.assured_end)
  then show "r = Ok True" "latest cfg ef (insert rs (of_key (deployKey rs) H)) (deployKey rs) u"
    by (simp_all add: section_ends_def)
qed

text \<open>
  The locks are as in Workers; whoever is in or before a section was given work; who is inside is
  safe there; and a deployment that nobody is inside of is in the state of its latest revision.
\<close>

definition fleet_inv where
  "fleet_inv cfg sv ig ef U H s \<longleftrightarrow> winv (fleet_locks s) \<and> \<not> fl_dead s \<and> H \<subseteq> U \<and>
     (\<forall>i rs v. fl_pc s i = FWaiting rs v \<longrightarrow> rs \<in> U) \<and>
     (\<forall>i rs p. fl_pc s i = FInside rs p \<longrightarrow> rs \<in> U \<and> safe_inside cfg sv ig ef H rs p (fl_shared s)) \<and>
     (\<forall>k. (\<forall>i. fl_at (fl_pc s i) \<noteq> Inside k) \<longrightarrow> latest cfg ef (of_key k H) k (fl_shared s))"

lemma fleet_invD:
  assumes "fleet_inv cfg sv ig ef U H s"
  shows "winv (fleet_locks s)" "\<not> fl_dead s" "H \<subseteq> U"
    "fl_pc s i = FWaiting rs v \<Longrightarrow> rs \<in> U"
    "fl_pc s i = FInside rs p \<Longrightarrow> rs \<in> U" "fl_pc s i = FInside rs p \<Longrightarrow> safe_inside cfg sv ig ef H rs p (fl_shared s)"
    "\<forall>i. fl_at (fl_pc s i) \<noteq> Inside k \<Longrightarrow> latest cfg ef (of_key k H) k (fl_shared s)"
  using assms unfolding fleet_inv_def by blast+

lemma fleet_one_inside:
  assumes "winv (fleet_locks s)" "fl_pc s i = FInside rs p" "fl_pc s j = FInside x q" "i \<noteq> j"
  shows "deployKey rs \<noteq> deployKey x"
  using winvD(4) [OF assms(1), of i "deployKey rs" j] assms(2-4) by auto

lemma filter_of_part:
  "part_of sv ig ef x u = part_of sv ig ef x v \<Longrightarrow>
     filter_of cfg (ef (world u)) x = filter_of cfg (ef (world v)) x"
  by (simp add: part_of_def filter_of_def)

text \<open>The locks are not part of what belongs to a ReplicaSet.\<close>

lemma locked_part [simp]: "part_of sv ig ef rs (u\<lparr>deploymentLocker := m\<rparr>) = part_of sv ig ef rs u"
  by (simp add: part_of_def)

lemma locked_latest [simp]: "latest cfg ef H k (u\<lparr>deploymentLocker := m\<rparr>) = latest cfg ef H k u"
  by (rule latest_cong) simp_all

lemma locked_safe [simp]:
  "safe_inside cfg sv ig ef H rs p (u\<lparr>deploymentLocker := m\<rparr>) = safe_inside cfg sv ig ef H rs p u"
proof
  show "safe_inside cfg sv ig ef H rs p u" if "safe_inside cfg sv ig ef H rs p (u\<lparr>deploymentLocker := m\<rparr>)"
    using that by (rule safe_inside_stable) simp_all
  show "safe_inside cfg sv ig ef H rs p (u\<lparr>deploymentLocker := m\<rparr>)" if "safe_inside cfg sv ig ef H rs p u"
    using that by (rule safe_inside_stable) simp_all
qed

text \<open>Taking a lock.\<close>

lemma fleet_enter:
  assumes inv: "fleet_inv cfg sv ig ef U H s" and h: "healthy cl sv ig ef"
    and work: "fleet_work fuel cl cfg sv ig ef U" "rs \<in> U"
    and w: "winv (fleet_locks (fl_go s i (fl_locked m s) (FInside rs (section_steps fuel cl cfg rs))))"
    and pc: "\<forall>k. fl_at (fl_pc s i) \<noteq> Inside k"
  shows "fleet_inv cfg sv ig ef U H (fl_go s i (fl_locked m s) (FInside rs (section_steps fuel cl cfg rs)))"
proof -
  note I = fleet_invD [OF inv]
  have free: "\<forall>j. fl_at (fl_pc s j) \<noteq> Inside (deployKey rs)"
  proof
    fix j
    show "fl_at (fl_pc s j) \<noteq> Inside (deployKey rs)"
      using winvD(4) [OF w, of i "deployKey rs" j] pc by (cases "j = i") auto
  qed
  have safe: "safe_inside cfg sv ig ef H rs (section_steps fuel cl cfg rs) (fl_shared s)"
    using h work I(3) I(7) [OF free] by (rule safe_inside_enter)
  have others: "latest cfg ef (of_key k H) k (fl_shared s)"
    if "\<forall>j. fl_at (((fl_pc s)(i := FInside rs (section_steps fuel cl cfg rs))) j) \<noteq> Inside k" for k
  proof (rule I(7), rule allI)
    fix j
    show "fl_at (fl_pc s j) \<noteq> Inside k" using that [rule_format, of j] pc by (cases "j = i") auto
  qed
  show ?thesis
    unfolding fleet_inv_def using w I(2,3) work(2) safe others
    by (auto intro: I(4,5) I(6))
qed

text \<open>One action inside a section.\<close>

lemma fleet_act:
  assumes inv: "fleet_inv cfg sv ig ef U H s" and work: "fleet_work fuel cl cfg sv ig ef U"
    and pc: "fl_pc s i = FInside rs (Act a)" and a: "a (fl_shared s) = Some (p, u)"
  shows "fleet_inv cfg sv ig ef U H (fl_go s i u (FInside rs p))"
proof -
  note I = fleet_invD [OF inv]
  have rs: "rs \<in> U" using I(5) pc by blast
  note step = safe_inside_act [OF I(6) [OF pc] a]
  have same: "part_of sv ig ef x u = part_of sv ig ef x (fl_shared s)" if "x \<in> U" "deployKey rs \<noteq> deployKey x" for x
    using fleet_independent [OF work rs that] by (rule step(3))
  have view: "deploymentLocker u = fl_locks s" "k \<noteq> deployKey rs \<Longrightarrow> activeState u k = activeState (fl_shared s) k" for k
    using step(2) by (simp_all add: outside_view_def) (metis fun_upd_other)
  have locks: "fleet_locks (fl_go s i u (FInside rs p)) = fleet_locks s"
    using view(1) pc by (auto simp: fleet_locks_def)
  have inside: "x \<in> U \<and> safe_inside cfg sv ig ef H x q u" if "fl_pc s j = FInside x q" "j \<noteq> i" for j x q
  proof -
    have x: "x \<in> U" using that(1) by (rule I(5))
    have "deployKey rs \<noteq> deployKey x" using fleet_one_inside [OF I(1) pc that(1)] that(2) by blast
    from safe_inside_stable [OF I(6) [OF that(1)] same [OF x this] refl] x show ?thesis by blast
  qed
  have free: "latest cfg ef (of_key k H) k u" if "\<forall>j. fl_at (((fl_pc s)(i := FInside rs p)) j) \<noteq> Inside k" for k
  proof -
    have k: "k \<noteq> deployKey rs" using that [rule_format, of i] by simp
    have f: "filter_of cfg (ef (world u)) x = filter_of cfg (ef (world (fl_shared s))) x" if "x \<in> of_key k H" for x
    proof (rule filter_of_part, rule same)
      show "x \<in> U" "deployKey rs \<noteq> deployKey x" using that k I(3) by (auto simp: of_key_def)
    qed
    have "\<forall>j. fl_at (fl_pc s j) \<noteq> Inside k"
    proof
      fix j
      show "fl_at (fl_pc s j) \<noteq> Inside k" using that [rule_format, of j] pc k by (cases "j = i") auto
    qed
    then have "latest cfg ef (of_key k H) k (fl_shared s)" by (rule I(7))
    then show ?thesis using latest_cong [OF view(2) [OF k] f] by blast
  qed
  show ?thesis
    unfolding fleet_inv_def using locks I(1,2,3) rs step(1) inside free
    by (auto intro: I(4))
qed

text \<open>The release of the lock.\<close>

lemma fleet_leave:
  assumes inv: "fleet_inv cfg sv ig ef U H s" and work: "fleet_work fuel cl cfg sv ig ef U"
    and pc: "fl_pc s i = FInside rs (Done r)"
    and w: "winv (fleet_locks (fl_go s i (fl_locked m s) FIdle))"
  shows "fleet_inv cfg sv ig ef U (insert rs H) (fl_go s i (fl_locked m s) FIdle)"
proof -
  note I = fleet_invD [OF inv]
  have rs: "rs \<in> U" using I(5) pc by blast
  note ends = safe_inside_done [OF I(6) [OF pc] fleet_workD(1) [OF work rs]]
  have inside: "x \<in> U \<and> safe_inside cfg sv ig ef (insert rs H) x q (fl_shared s)"
    if "fl_pc s j = FInside x q" "j \<noteq> i" for j x q
  proof -
    have "deployKey rs \<noteq> deployKey x" using fleet_one_inside [OF I(1) pc that(1)] that(2) by blast
    then have "of_key (deployKey x) (insert rs H) = of_key (deployKey x) H" by (simp add: of_key_insert)
    from safe_inside_stable [OF I(6) [OF that(1)] refl this] I(5) [OF that(1)] show ?thesis by blast
  qed
  have free: "latest cfg ef (of_key k (insert rs H)) k (fl_shared s)"
    if "\<forall>j. fl_at (((fl_pc s)(i := FIdle)) j) \<noteq> Inside k" for k
  proof (cases "k = deployKey rs")
    case True
    then show ?thesis using ends(2) by (simp add: of_key_insert)
  next
    case False
    have "\<forall>j. fl_at (fl_pc s j) \<noteq> Inside k"
    proof
      fix j
      show "fl_at (fl_pc s j) \<noteq> Inside k" using that [rule_format, of j] pc False by (cases "j = i") auto
    qed
    from I(7) [OF this] show ?thesis using False by (simp add: of_key_insert)
  qed
  show ?thesis
    unfolding fleet_inv_def using w I(2,3) rs inside free
    by (auto intro: I(4))
qed

text \<open>Forgetting the entry of a deployment without work.\<close>

lemma fleet_forget:
  assumes inv: "fleet_inv cfg sv ig ef U H s" and k: "k \<notin> deployKey ` U"
    and w: "winv (fleet_locks (s\<lparr>fl_shared := (fl_shared s)\<lparr>activeState := (activeState (fl_shared s))(k := None)\<rparr>,
      fl_cleaning := c\<rparr>))" (is "winv (fleet_locks ?t)")
  shows "fleet_inv cfg sv ig ef U H ?t"
proof -
  note I = fleet_invD [OF inv]
  have part: "part_of sv ig ef x (fl_shared ?t) = part_of sv ig ef x (fl_shared s)" if "x \<in> U" for x
    using k that by (auto simp: part_of_def)
  have inside: "safe_inside cfg sv ig ef H x q (fl_shared ?t)" if "fl_pc s j = FInside x q" for j x q
    using safe_inside_stable [OF I(6) [OF that] part [OF I(5) [OF that]] refl] .
  have "latest cfg ef (of_key j H) j (fl_shared ?t)" if "\<forall>i. fl_at (fl_pc s i) \<noteq> Inside j" for j
  proof (cases "j = k")
    case True
    then have "of_key j H = {}" using k I(3) by (auto simp: of_key_def)
    then show ?thesis using True by (simp add: latest_def)
  next
    case False
    then have "latest cfg ef (of_key j H) j (fl_shared ?t) = latest cfg ef (of_key j H) j (fl_shared s)"
      by (intro latest_cong) simp_all
    with I(7) [OF that] show ?thesis by simp
  qed
  then show ?thesis
    unfolding fleet_inv_def using w I(2,3) inside by (auto intro: I(4,5))
qed

section \<open>The runs\<close>

text \<open>The ReplicaSets that have been handled.\<close>

fun settle :: "flabel \<Rightarrow> replicaset set \<Rightarrow> replicaset set" where
  "settle (FLeft i rs) H = insert rs H"
| "settle _ H = H"

lemma fleet_step:
  assumes h: "healthy cl sv ig ef" and work: "fleet_work fuel cl cfg sv ig ef U"
    and inv: "fleet_inv cfg sv ig ef U H s" and step: "fstep fuel cl cfg s l t" and "given l \<subseteq> U"
    and clean: "cleans l \<inter> deployKey ` U = {}"
  shows "fleet_inv cfg sv ig ef U (settle l H) t"
proof -
  note I = fleet_invD [OF inv]
  have "deploymentLocker u = fl_locks s"
    if "fl_pc s i = FInside rs (Act a)" "a (fl_shared s) = Some (p, u)" for i rs a p u
    using safe_inside_act(2) [OF I(6) [OF that(1)] that(2)] by (simp add: outside_view_def)
  moreover have "fl_at (fl_pc s i) \<noteq> Inside k \<and> fl_at (fl_pc s i) \<noteq> Waiting k v" if "k \<in> cleans l" for k i v
    using that clean I(4,5) [of i] by (auto simp: fl_at_simps)
  ultimately have w: "fl_dead t \<or> winv (fleet_locks t)" by (rule fstep_winv [OF step I(1)])
  show ?thesis using step
  proof (cases rule: fstep.cases)
    case (f_took i rs m)
    then show ?thesis using fleet_enter [OF inv h work, of rs i m] w I(2) assms(5) by simp
  next
    case (f_acquired i rs v m)
    then show ?thesis using fleet_enter [OF inv h work I(4) [OF f_acquired(4)], of i m] w I(2) by simp
  next
    case (f_blocked i rs v m)
    have "\<forall>j. fl_at (fl_pc s j) \<noteq> Inside k" if "\<forall>j. fl_at (fl_pc t j) \<noteq> Inside k" for k
    proof
      fix j
      show "fl_at (fl_pc s j) \<noteq> Inside k" using that [rule_format, of j] f_blocked by (cases "j = i") auto
    qed
    moreover have "winv (fleet_locks t)" using w f_blocked(2,3) by simp
    ultimately show ?thesis
      unfolding fleet_inv_def using I(2,3,7) f_blocked assms(5) by (auto intro: I(4,5) I(6))
  next
    case (f_act i rs a p u)
    then show ?thesis using fleet_act [OF inv work f_act(4,5)] by simp
  next
    case (f_left i rs r u)
    obtain m where "Unlock (deployKey rs) (fl_locks s) = Some (Ok (), m)" "u = fl_locked m s"
      using f_left(6) by (auto simp: locker_Unlock_Ok)
    then show ?thesis using fleet_leave [OF inv work f_left(4), of m] f_left(1-3) w by simp
  next
    case (f_panicked i rs e r u)
    from safe_inside_done(1) [OF I(6) [OF f_panicked(4)] fleet_workD(1) [OF work I(5) [OF f_panicked(4)]]]
    show ?thesis by simp
  next
    case (f_fatal i rs r e u)
    have "holds (deployKey rs) (fl_locks s)" using winvD(3) [OF I(1), of i "deployKey rs"] f_fatal(4) by simp
    from Unlock_held(1) [OF _ this] winvD(1) [OF I(1)] f_fatal(5)
    show ?thesis by (auto simp: locker_Unlock_Ok)
  next
    case (f_cleanup k u)
    have t: "t = s\<lparr>fl_shared := (fl_shared s)\<lparr>activeState := (activeState (fl_shared s))(k := None)\<rparr>, fl_cleaning := Some k\<rparr>"
      using f_cleanup(2,5) by (simp add: activeState_Delete_def io_modify_def)
    have k: "k \<notin> deployKey ` U" using clean f_cleanup(1) by simp
    from fleet_forget [OF inv k] show ?thesis using w I(2) f_cleanup(1) unfolding t by simp
  next
    case (f_cleaned k u)
    have "u = fl_locked (Remove k (fl_locks s)) s" using f_cleaned(5) by (simp add: locker_Remove_def io_modify_def)
    moreover have "winv (fleet_locks t)" using w I(2) f_cleaned(2) by simp
    ultimately show ?thesis
      unfolding fleet_inv_def using I(2,3,7) f_cleaned(1,2) by (auto intro: I(4,5) I(6))
  qed
qed

interpretation fleet_runs: history_system "fstep fuel cl cfg"
    "\<lambda>l. given l \<subseteq> U \<and> cleans l \<inter> deployKey ` U = {} \<and> healthy cl sv ig ef \<and> fleet_work fuel cl cfg sv ig ef U" settle "fleet_inv cfg sv ig ef U"
  for fuel :: nat and cl :: "('w, 'b, 'c, 's) cluster" and cfg U sv ig ef
  by unfold_locales (blast intro: fleet_step)

definition fleet_idle :: "'w fleet \<Rightarrow> bool" where
  "fleet_idle s \<longleftrightarrow> \<not> fl_dead s \<and> (\<forall>i. fl_pc s i = FIdle) \<and> mm_wf (fl_locks s) \<and>
     (\<forall>k. \<not> holds k (fl_locks s))"

lemma fleet_start:
  assumes "fleet_idle s" "activeState (fl_shared s) = Map.empty"
  shows "fleet_inv cfg sv ig ef U {} s"
  using assms by (auto simp: fleet_idle_def fleet_inv_def winv_def latest_def of_key_def)

lemma fold_settle: "fold settle ls H = H \<union> {rs. \<exists>i. FLeft i rs \<in> set ls}"
proof (induction ls arbitrary: H)
  case (Cons l ls)
  then show ?case by (cases l) auto
qed simp

text \<open>Nothing that was handed out is lost: it has been handled, or a worker has it.\<close>

fun at_work :: "'w fpc \<Rightarrow> replicaset set" where
  "at_work FIdle = {}"
| "at_work (FWaiting rs v) = {rs}"
| "at_work (FInside rs p) = {rs}"

definition in_hands :: "'w fleet \<Rightarrow> replicaset set" where
  "in_hands s = (\<Union>i. at_work (fl_pc s i))"

lemma in_hands_go: "in_hands (fl_go s i u pc) \<union> at_work (fl_pc s i) = in_hands s \<union> at_work pc"
  unfolding in_hands_def by (auto split: if_splits)

lemma in_hands_at: "fl_pc s i = pc \<Longrightarrow> at_work pc \<subseteq> in_hands s"
  by (auto simp: in_hands_def)

lemma fstep_hands:
  assumes "fstep fuel cl cfg s l t"
  shows "in_hands s \<union> given l = settle l {} \<union> in_hands t"
  using assms
proof (cases rule: fstep.cases)
  case (f_took i rs m)
  then show ?thesis using in_hands_go [of s i "fl_locked m s" "FInside rs (section_steps fuel cl cfg rs)"] by auto
next
  case (f_blocked i rs v m)
  then show ?thesis using in_hands_go [of s i "fl_locked m s" "FWaiting rs v"] by auto
next
  case (f_acquired i rs v m)
  then show ?thesis
    using in_hands_go [of s i "fl_locked m s" "FInside rs (section_steps fuel cl cfg rs)"] in_hands_at [of s i] in_hands_at [of t i]
    by auto
next
  case (f_act i rs a p u)
  then show ?thesis using in_hands_go [of s i u "FInside rs p"] in_hands_at [of s i] in_hands_at [of t i] by auto
next
  case (f_left i rs r u)
  then show ?thesis using in_hands_go [of s i u FIdle] in_hands_at [of s i] by auto
qed (simp_all add: in_hands_def)

lemma lrun_hands:
  "lrun (fstep fuel cl cfg) s ls t \<Longrightarrow>
     in_hands s \<union> (\<Union>l \<in> set ls. given l) = fold settle ls {} \<union> in_hands t"
proof (induction rule: lrun.induct)
  case (lrun_Cons s l t ls u)
  have "fold settle (l # ls) {} = settle l {} \<union> fold settle ls {}" by (simp add: fold_settle)
  then show ?case using fstep_hands [OF lrun_Cons.hyps(1)] lrun_Cons.IH unfolding list.set UN_insert by blast
qed simp

text \<open>Only finitely many workers are busy.\<close>

definition busy :: "'w fleet \<Rightarrow> nat set" where
  "busy s = {i. fl_pc s i \<noteq> FIdle}"

lemma fstep_worker: "fstep fuel cl cfg s l t \<Longrightarrow> \<exists>i. \<forall>j. j \<noteq> i \<longrightarrow> fl_pc t j = fl_pc s j"
  by (erule fstep.cases) (auto simp: fl_go_def)

lemma fstep_busy:
  assumes "fstep fuel cl cfg s l t" "finite (busy s)"
  shows "finite (busy t)"
proof -
  obtain i where "\<forall>j. j \<noteq> i \<longrightarrow> fl_pc t j = fl_pc s j" using fstep_worker [OF assms(1)] by blast
  then have "busy t \<subseteq> insert i (busy s)" by (auto simp: busy_def)
  then show ?thesis using assms(2) by (meson finite.insertI finite_subset)
qed

lemma lrun_busy: "lrun (fstep fuel cl cfg) s ls t \<Longrightarrow> finite (busy s) \<Longrightarrow> finite (busy t)"
  by (induction rule: lrun.induct) (auto intro: fstep_busy)

section \<open>Progress\<close>

text \<open>
  An invariant under which the locks are sound and no action of a section is stuck: from each of its
  states the workers can all become idle again without new work, unless a panic ends the process.
\<close>

locale fleet_progress =
  fixes fuel :: nat and cl :: "('w, 'b, 'c, 's) cluster" and cfg :: op_config and inv :: "'w fleet \<Rightarrow> bool"
  assumes inv_winv: "inv s \<Longrightarrow> \<not> fl_dead s \<Longrightarrow> winv (fleet_locks s)"
    and inv_step: "inv s \<Longrightarrow> fstep fuel cl cfg s l t \<Longrightarrow> quiet l \<Longrightarrow> inv t"
    and inv_act: "inv s \<Longrightarrow> \<not> fl_dead s \<Longrightarrow> fl_pc s i = FInside rs (Act a) \<Longrightarrow>
      \<exists>p u. a (fl_shared s) = Some (p, u)"
begin

lemma inv_run: "lrun (fstep fuel cl cfg) s ls t \<Longrightarrow> inv s \<Longrightarrow> \<forall>l \<in> set ls. quiet l \<Longrightarrow> inv t"
  by (induction rule: lrun.induct) (auto intro: inv_step)

text \<open>Whoever is inside can get out again, by steps of its own.\<close>

lemma inside_leaves:
  "inv s \<Longrightarrow> \<not> fl_dead s \<Longrightarrow> fl_pc s i = FInside rs p \<Longrightarrow>
    \<exists>ls t. lrun (fstep fuel cl cfg) s ls t \<and> (\<forall>l \<in> set ls. quiet l) \<and>
      (fl_dead t \<or> fl_pc t = (fl_pc s)(i := FIdle))"
proof (induction p arbitrary: s rule: prog_cases_induct)
  case (Done r s)
  have "holds (deployKey rs) (fl_locks s)"
    using winvD(3) [OF inv_winv [OF Done(1,2)], of i "deployKey rs"] Done(3) by simp
  then obtain m where m: "Unlock (deployKey rs) (fl_locks s) = Some (Ok (), m)" using Unlock_releases by blast
  show ?case
  proof (cases "\<exists>e. r = Panic e")
    case True
    then obtain e where "fl_pc s i = FInside rs (Done (Panic e))" using Done(3) by blast
    then have "fstep fuel cl cfg s (FPanicked i) (s\<lparr>fl_shared := fl_locked m s, fl_dead := True\<rparr>)"
      by (rule f_panicked [OF Done(2)]) (simp add: m locker_Unlock_Ok)
    then show ?thesis
      by (intro exI [of _ "[FPanicked i]"] exI [of _ "s\<lparr>fl_shared := fl_locked m s, fl_dead := True\<rparr>"]) simp
  next
    case False
    have "fstep fuel cl cfg s (FLeft i rs) (fl_go s i (fl_locked m s) FIdle)"
      by (rule f_left [OF Done(2,3)]) (use False in \<open>simp_all add: m locker_Unlock_Ok\<close>)
    then show ?thesis by (intro exI [of _ "[FLeft i rs]"] exI [of _ "fl_go s i (fl_locked m s) FIdle"]) simp
  qed
next
  case (Act a s)
  obtain p u where a: "a (fl_shared s) = Some (p, u)" using inv_act [OF Act(2-4)] by blast
  let ?t = "fl_go s i u (FInside rs p)"
  have step: "fstep fuel cl cfg s (FAct i) ?t" using Act(3,4) a by (rule f_act)
  have "inv ?t" using Act(2) step by (rule inv_step) simp
  moreover have "\<not> fl_dead ?t" "fl_pc ?t i = FInside rs p" using Act(3) by simp_all
  ultimately obtain ls t where "lrun (fstep fuel cl cfg) ?t ls t" "\<forall>l \<in> set ls. quiet l"
    "fl_dead t \<or> fl_pc t = (fl_pc s)(i := FIdle)"
    using Act(1) [OF a, of ?t] unfolding fl_go_simps fun_upd_upd by blast
  with step show ?case by (intro exI [of _ "FAct i # ls"] exI [of _ t]) auto
qed

text \<open>Someone is inside, or someone who waits can get inside.\<close>

lemma someone_inside:
  assumes "inv s" "\<not> fl_dead s" "busy s \<noteq> {}"
  obtains i rs p ls t where "lrun (fstep fuel cl cfg) s ls t" "\<forall>l \<in> set ls. quiet l" "\<not> fl_dead t"
    "fl_pc t = (fl_pc s)(i := FInside rs p)" "i \<in> busy s"
proof (cases "\<exists>i rs p. fl_pc s i = FInside rs p")
  case True
  then obtain i rs p where i: "fl_pc s i = FInside rs p" by blast
  then show thesis using assms(2) by (intro that [of "[]" s i rs p]) (auto simp: busy_def)
next
  case none: False
  note w = inv_winv [OF assms(1,2)]
  from assms(3) obtain i where "fl_pc s i \<noteq> FIdle" by (auto simp: busy_def)
  with none obtain rs v where i: "fl_pc s i = FWaiting rs v" by (cases "fl_pc s i") auto
  have "\<not> holds (deployKey rs) (fl_locks s)"
    using winvD(5) [OF w, of "deployKey rs"] none by (auto simp: fl_at_simps)
  moreover have "sm (fl_locks s) (deployKey rs) = Some v" using winvD(6) [OF w, of i "deployKey rs" v] i by simp
  ultimately obtain m where "mutex_Lock v (fl_locks s) = Some m" by (auto simp: holds_def mutex_Lock_def)
  with assms(2) i have "fstep fuel cl cfg s (FAcquired i)
      (fl_go s i (fl_locked m s) (FInside rs (section_steps fuel cl cfg rs)))" by (rule f_acquired)
  then have step: "lrun (fstep fuel cl cfg) s [FAcquired i]
      (fl_go s i (fl_locked m s) (FInside rs (section_steps fuel cl cfg rs)))" by simp
  show thesis
    by (rule that [OF step, of i rs "section_steps fuel cl cfg rs"])
      (use i assms(2) in \<open>simp_all add: busy_def\<close>)
qed

lemma finishes:
  "finite (busy s) \<Longrightarrow> inv s \<Longrightarrow>
    \<exists>ls t. lrun (fstep fuel cl cfg) s ls t \<and> (\<forall>l \<in> set ls. quiet l) \<and> (fl_dead t \<or> fleet_idle t)"
proof (induction "card (busy s)" arbitrary: s rule: less_induct)
  case less
  show ?case
  proof (cases "fl_dead s \<or> busy s = {}")
    case True
    have "fleet_idle s" if "\<not> fl_dead s"
      using True that winvD(1,5) [OF inv_winv [OF less(3) that]] by (fastforce simp: fleet_idle_def busy_def)
    then show ?thesis by (intro exI [of _ "[]"] exI [of _ s]) auto
  next
    case False
    then obtain i rs p ls t where t: "lrun (fstep fuel cl cfg) s ls t" "\<forall>l \<in> set ls. quiet l" "\<not> fl_dead t"
      "fl_pc t = (fl_pc s)(i := FInside rs p)" "i \<in> busy s" using someone_inside [OF less(3)] by metis
    have inv: "inv t" using t(1) less(3) t(2) by (rule inv_run)
    obtain ms u where u: "lrun (fstep fuel cl cfg) t ms u" "\<forall>l \<in> set ms. quiet l"
      "fl_dead u \<or> fl_pc u = (fl_pc t)(i := FIdle)"
      using inside_leaves [OF inv t(3), of i rs p] t(4) by auto
    have st: "lrun (fstep fuel cl cfg) s (ls @ ms) u" "\<forall>l \<in> set (ls @ ms). quiet l"
      using t(1,2) u(1,2) by (auto simp: lrun_append)
    show ?thesis
    proof (cases "fl_dead u")
      case True
      with st show ?thesis by blast
    next
      case False
      then have "busy u \<subset> busy s" using u(3) t(4,5) by (auto simp: busy_def split: if_splits)
      then have smaller: "card (busy u) < card (busy s)" "finite (busy u)"
        using less(2) by (auto intro: psubset_card_mono finite_subset)
      obtain ns v where "lrun (fstep fuel cl cfg) u ns v" "\<forall>l \<in> set ns. quiet l" "fl_dead v \<or> fleet_idle v"
        using less(1) [OF smaller inv_run [OF u(1) inv u(2)]] by blast
      with st show ?thesis by (intro exI [of _ "(ls @ ms) @ ns"] exI [of _ v]) (auto simp only: lrun_append set_append Un_iff)
    qed
  qed
qed

end

interpretation healthy_fleet: fleet_progress fuel cl cfg
    "\<lambda>s. healthy cl sv ig ef \<and> fleet_work fuel cl cfg sv ig ef U \<and> (\<exists>H. fleet_inv cfg sv ig ef U H s)"
  for fuel :: nat and cl :: "('w, 'b, 'c, 's) cluster" and cfg U sv ig ef
proof (unfold_locales, goal_cases)
  case (1 s)
  then show ?case by (blast intro: fleet_invD(1))
next
  case (2 s l t)
  then have "given l \<subseteq> U" "cleans l \<inter> deployKey ` U = {}" by (simp_all add: quiet_def)
  moreover obtain H where "fleet_inv cfg sv ig ef U H s" using 2 by blast
  ultimately show ?case using 2 fleet_step [of cl sv ig ef fuel cfg U H s l t] by blast
next
  case (3 s i rs a)
  then obtain H where "fleet_inv cfg sv ig ef U H s" "fleet_work fuel cl cfg sv ig ef U" by blast
  note I = fleet_invD [OF this(1)] and work = this(2)
  have "independent [rs]" using fleet_workD(1) [OF work I(5) [OF 3(3)]] by (simp add: independent_def well_named_key)
  then have "assured_part sv ig ef [rs] 0 (section_ends cfg ef (of_key (deployKey rs) H) rs) (Act a) (fl_shared s)"
    using I(6) [OF 3(3)] by (simp add: safe_inside_def)
  then show ?case by (rule owners.one.assured_ActD) blast
qed

section \<open>The latest revision wins\<close>

text \<open>
  C1. The latest revision wins under every schedule: idle workers of an operator without entries, in
  a cluster whose API servers are healthy, are handed ReplicaSets that are ready and have a port, a
  revision and services whose query succeeds, any number of them for each deployment, and run
  concurrently, taking locks, calling the API servers and writing the active state in any
  interleaving, while other deployments are cleaned up. At every moment a deployment that no
  worker is inside of has the entry and the stored EnvoyFilter of a highest revision among the
  ReplicaSets handled for it. No worker panics, none is stuck, and from every moment on the
  workers can all become idle again, without new work, and then each deployment has the latest
  of all the ReplicaSets that were handed out. (A deployment that loses its port annotation or is
  cleaned up while its workers run is the subject of C33, C34 and C35.)
\<close>

theorem latest_revision_wins_concurrently:
  assumes "healthy cl sv ig ef" and "fleet_work fuel cl cfg sv ig ef U"
    and "fleet_idle s" and "activeState (fl_shared s) = Map.empty"
    and "lrun (fstep fuel cl cfg) s ls t" and "(\<Union>l \<in> set ls. given l) \<subseteq> U"
    and "(\<Union>l \<in> set ls. cleans l) \<inter> deployKey ` U = {}"
  shows "\<not> fl_dead t \<and>
    (\<forall>k. (\<forall>i rs p. fl_pc t i = FInside rs p \<longrightarrow> deployKey rs \<noteq> k) \<longrightarrow>
      latest cfg ef {rs. deployKey rs = k \<and> (\<exists>i. FLeft i rs \<in> set ls)} k (fl_shared t)) \<and>
    (\<exists>ms u. lrun (fstep fuel cl cfg) t ms u \<and> fleet_idle u \<and> (\<forall>l \<in> set ms. quiet l) \<and>
      (\<forall>k. latest cfg ef {rs. deployKey rs = k \<and> (\<exists>l \<in> set ls. rs \<in> given l)} k (fl_shared u)))"
proof -
  have ok: "\<forall>l \<in> set ls. given l \<subseteq> U \<and> cleans l \<inter> deployKey ` U = {}" using assms(6,7) by blast
  then have inv: "fleet_inv cfg sv ig ef U (fold settle ls {}) t"
    by (intro fleet_runs.run_history [OF assms(5) fleet_start [OF assms(3,4)]]) (simp add: assms(1,2))
  have "finite (busy s)" using assms(3) by (simp add: busy_def fleet_idle_def)
  from healthy_fleet.finishes [OF lrun_busy [OF assms(5) this]] assms(1,2) inv
  obtain ms u where run: "lrun (fstep fuel cl cfg) t ms u" "\<forall>l \<in> set ms. quiet l" "fl_dead u \<or> fleet_idle u"
    by blast
  then have none: "\<forall>l \<in> set ms. given l = {}" "\<forall>l \<in> set ms. cleans l = {}" by (auto simp: quiet_def)
  then have "fleet_inv cfg sv ig ef U (fold settle ms (fold settle ls {})) u"
    by (intro fleet_runs.run_history [OF run(1) inv]) (simp add: assms(1,2))
  then have last: "fleet_inv cfg sv ig ef U (fold settle (ls @ ms) {}) u" by simp
  then have u: "lrun (fstep fuel cl cfg) t ms u" "fleet_idle u" "\<forall>l \<in> set ms. quiet l"
    using run fleet_invD(2) by blast+
  have "lrun (fstep fuel cl cfg) s (ls @ ms) u" using assms(5) u(1) by (auto simp: lrun_append)
  from lrun_hands [OF this] have hands: "fold settle (ls @ ms) {} = (\<Union>l \<in> set ls. given l)"
    using assms(3) u(2) none(1) by (simp add: in_hands_def fleet_idle_def)
  have "latest cfg ef {rs. deployKey rs = k \<and> (\<exists>l \<in> set ls. rs \<in> given l)} k (fl_shared u)" for k
    using fleet_invD(7) [OF last, of k] u(2) unfolding hands by (simp add: of_key_def fleet_idle_def conj_commute)
  moreover have "latest cfg ef {rs. deployKey rs = k \<and> (\<exists>i. FLeft i rs \<in> set ls)} k (fl_shared t)"
    if "\<forall>i rs p. fl_pc t i = FInside rs p \<longrightarrow> deployKey rs \<noteq> k" for k
  proof -
    have "\<forall>i. fl_at (fl_pc t i) \<noteq> Inside k" using that by (auto simp: fl_at_simps)
    from fleet_invD(7) [OF inv this] show ?thesis by (simp add: of_key_def fold_settle conj_commute)
  qed
  ultimately show ?thesis using fleet_invD(2) [OF inv] u by blast
qed

section \<open>Instances\<close>

text \<open>
  Two revisions of one deployment and one of another: the older is inside the section, the newer
  waits for the lock, the third is inside its own section, and a third deployment is being
  cleaned up.
\<close>

definition idle_fleet :: "kworld fleet" where
  "idle_fleet = \<lparr>fl_shared = sample_state, fl_pc = (\<lambda>_. FIdle), fl_cleaning = None, fl_dead = False\<rparr>"

lemma idle_fleet_idle: "fleet_idle idle_fleet" "activeState (fl_shared idle_fleet) = Map.empty"
  by (simp_all add: fleet_idle_def idle_fleet_def sample_state_def)

lemma sample_work:
  "fleet_work 1 sample_cluster cfg kw_services kw_ingresses kw_filters {plain_rs, second_rs, rs_of ''e''}"
proof -
  have ready: "rs_ReadyReplicas (rs_of ''e'') = 1" "deployRevision (rs_of ''e'') = 1"
    "rs_Namespace (rs_of ''e'') = ''ns''" "rs_Namespace plain_rs = ''ns''" "rs_Name plain_rs = ''d-1''"
    "rs_Namespace second_rs = ''ns''" "rs_Name second_rs = ''d-2''"
    by (simp_all add: rs_of_def second_rs_def plain_rs_def sample_rs_def deployRevision_def deployRevisionStr_def
        annotation_defs numerals)
  have named: "well_named plain_rs" "well_named second_rs" "well_named (rs_of ''e'')"
    by (simp_all add: well_named_def rs_of_def second_rs_def plain_rs_def sample_rs_def getDeployment_def)
  show ?thesis
    using named ready sample_upsertable rs_of_upsertable
    by (simp add: fleet_work_def candidate_def sample_facts rs_of_facts del: One_nat_def)
qed

lemma sample_schedule:
  obtains t where "lrun (fstep fuel cl cfg) idle_fleet
    [FTook 0 plain_rs, FBlocked 1 second_rs, FCleanup ''ns/gone'', FTook 2 (rs_of ''e'')] t"
proof -
  let ?F = "fstep fuel cl cfg"
  let ?sec = "section_steps fuel cl cfg"
  have free: "fl_locks idle_fleet = mm_empty" "sm mm_empty k = None" for k
    by (simp_all add: idle_fleet_def sample_state_def mm_empty_def)
  obtain m1 where m1: "Lock_enter (deployKey plain_rs) (fl_locks idle_fleet) = (None, m1)"
    by (simp add: free Lock_enter_eqs)
  let ?a = "fl_go idle_fleet 0 (fl_locked m1 idle_fleet) (FInside plain_rs (?sec plain_rs))"
  have a: "?F idle_fleet (FTook 0 plain_rs) ?a"
    by (rule f_took [OF _ _ m1]) (simp_all add: idle_fleet_def)
  obtain v m2 where m2: "Lock_enter (deployKey second_rs) (fl_locks ?a) = (Some v, m2)" "sm m2 ''ns/e'' = None"
    using m1 by (auto simp: sample_facts Lock_enter_eqs free)
  let ?b = "fl_go ?a 1 (fl_locked m2 ?a) (FWaiting second_rs v)"
  have b: "?F ?a (FBlocked 1 second_rs) ?b"
    by (rule f_blocked [OF _ _ m2(1)]) (simp_all add: idle_fleet_def)
  let ?u = "(fl_shared ?b)\<lparr>activeState := (activeState (fl_shared ?b))(''ns/gone'' := None)\<rparr>"
  let ?c = "?b\<lparr>fl_shared := ?u, fl_cleaning := Some ''ns/gone''\<rparr>"
  have c: "?F ?b (FCleanup ''ns/gone'') ?c"
    by (rule f_cleanup) (simp_all add: idle_fleet_def activeState_Delete_def io_modify_def)
  obtain m3 where m3: "Lock_enter (deployKey (rs_of ''e'')) (fl_locks ?c) = (None, m3)"
    using m2(2) by (simp add: rs_of_facts Lock_enter_eqs)
  have "?F ?c (FTook 2 (rs_of ''e'')) (fl_go ?c 2 (fl_locked m3 ?c) (FInside (rs_of ''e'') (?sec (rs_of ''e''))))"
    by (rule f_took [OF _ _ m3]) (simp_all add: idle_fleet_def)
  with a b c show thesis using that by (meson lrun_Cons lrun_Nil)
qed

theorem latest_revision_wins_concurrently_witness:
  "\<exists>t ms u. lrun (fstep 1 sample_cluster sample_config) idle_fleet
      [FTook 0 plain_rs, FBlocked 1 second_rs, FCleanup ''ns/gone'', FTook 2 (rs_of ''e'')] t \<and>
    lrun (fstep 1 sample_cluster sample_config) t ms u \<and>
    activeState (fl_shared u) ''ns/d'' = Some (newActiveEntry second_rs) \<and>
    filter_of sample_config (kw_filters (world (fl_shared u))) second_rs \<and>
    activeState (fl_shared u) ''ns/e'' = Some (newActiveEntry (rs_of ''e''))"
proof -
  let ?ls = "[FTook 0 plain_rs, FBlocked 1 second_rs, FCleanup ''ns/gone'', FTook 2 (rs_of ''e'')]"
  obtain t where t: "lrun (fstep 1 sample_cluster sample_config) idle_fleet ?ls t" by (rule sample_schedule)
  have given: "(\<Union>l \<in> set ?ls. given l) \<subseteq> {plain_rs, second_rs, rs_of ''e''}" by simp
  have other: "(\<Union>l \<in> set ?ls. cleans l) \<inter> deployKey ` {plain_rs, second_rs, rs_of ''e''} = {}"
    by (simp add: sample_facts rs_of_facts)
  note all = latest_revision_wins_concurrently [OF sample_healthy sample_work idle_fleet_idle t given other]
  obtain ms u where u: "lrun (fstep 1 sample_cluster sample_config) t ms u"
    "\<And>k. latest sample_config kw_filters {rs. deployKey rs = k \<and> (\<exists>l \<in> set ?ls. rs \<in> given l)} k (fl_shared u)"
    using all by blast
  have sets: "{rs. deployKey rs = ''ns/d'' \<and> (\<exists>l \<in> set ?ls. rs \<in> given l)} = {plain_rs, second_rs}"
    "{rs. deployKey rs = ''ns/e'' \<and> (\<exists>l \<in> set ?ls. rs \<in> given l)} = {rs_of ''e''}"
    by (auto simp: sample_facts rs_of_facts)
  have "latest sample_config kw_filters {plain_rs, second_rs} ''ns/d'' (fl_shared u)"
    "latest sample_config kw_filters {rs_of ''e''} ''ns/e'' (fl_shared u)"
    using u(2) [of "''ns/d''"] u(2) [of "''ns/e''"] unfolding sets .
  then have "activeState (fl_shared u) ''ns/d'' = Some (newActiveEntry second_rs)"
    "filter_of sample_config (kw_filters (world (fl_shared u))) second_rs"
    "activeState (fl_shared u) ''ns/e'' = Some (newActiveEntry (rs_of ''e''))"
    by (auto simp: latest_def sample_facts)
  with t u(1) show ?thesis by blast
qed

end
