(* ===== verification/FleetErrors.thy ===== *)
theory FleetErrors
  imports Fleet
begin

text \<open>
  The workers of Fleet in a cluster about which nothing is known: any call of an API server may
  fail, in the middle of anything the other workers do, and a section may panic. What holds then:
  mutual exclusion, an active state that only ever moves as the abstract reconciler does, and
  progress, until a panic ends the process.
\<close>

section \<open>One section\<close>

text \<open>
  What a section for \<open>rs\<close> may do to the operator's state in one action, and what it relies on: that
  nobody else changes the entry of its deployment.
\<close>

definition moves :: "replicaset \<Rightarrow> 'w op_state \<Rightarrow> 'w op_state \<Rightarrow> bool" where
  "moves rs s t \<longleftrightarrow> deploymentLocker t = deploymentLocker s \<and>
     (activeState t = activeState s \<or>
      shouldProcessReplicaset s rs (deployKey rs) \<and>
      activeState t = (activeState s)(deployKey rs \<mapsto> newActiveEntry rs))"

definition same_entry :: "string \<Rightarrow> 'w op_state \<Rightarrow> 'w op_state \<Rightarrow> bool" where
  "same_entry k s t \<longleftrightarrow> activeState t k = activeState s k"

interpretation entries: relying "same_entry k" for k
  by unfold_locales (simp_all add: same_entry_def)

abbreviation moving where
  "moving rs Q p s \<equiv> assured (same_entry (deployKey rs)) (moves rs) Q p s"

text \<open>Programs that leave the operator's own state alone.\<close>

abbreviation own_state :: "'w op_state \<Rightarrow> mutex_map \<times> (string \<rightharpoonup> active_entry)" where
  "own_state s \<equiv> (deploymentLocker s, activeState s)"

lemma frame_moving:
  "p_keeps own_state p \<Longrightarrow> p_total p \<Longrightarrow> activeState s (deployKey rs) = e \<Longrightarrow>
     moving rs (\<lambda>r t. activeState t (deployKey rs) = e) p s"
proof (induction p arbitrary: s rule: prog_cases_induct)
  case (Done r)
  then show ?case by (auto intro!: assured_Done simp: same_entry_def)
next
  case (Act f)
  show ?case
  proof (rule assured_Act)
    fix t
    assume t: "same_entry (deployKey rs) s t"
    obtain p u where p: "f t = Some (p, u)" "p_total p" using Act(3) by (blast elim: p_total_ActE)
    have u: "own_state u = own_state t" "p_keeps own_state p" using p_keepsD [OF Act(2) p(1)] by blast+
    have "activeState u (deployKey rs) = e" using t u(1) Act(4) by (simp add: same_entry_def)
    note rest = Act(1) [OF p(1) u(2) p(2) this]
    have "moves rs t u" using u(1) by (simp add: moves_def)
    with p(1) rest show "\<exists>p u. f t = Some (p, u) \<and> moves rs t u \<and> moving rs (\<lambda>r t. activeState t (deployKey rs) = e) p u"
      by blast
  qed
qed

lemma internal_own: "internal own_state"
  by (simp add: internal_def)

lemma upsertFilter_total_steps:
  assumes "query_returns fuel cl"
  shows "p_total (upsertFilter_steps fuel cl cfg rs)"
proof -
  have "p_total (createService_steps cl rs)" "p_total (createIngress_steps cl rs)"
    "p_total (upsert_encoded_steps cl cfg rs b ss)" for b ss
    unfolding createService_steps_def createIngress_steps_def upsert_encoded_steps_def Let_def
    by (auto intro!: prog_frames io_frames split: sum.split)
  then have parts: "p_total (createService_steps cl rs)" "p_total (createIngress_steps cl rs)"
    "p_total (upsertEnvoyFilter_steps cl cfg rs fds ss)" for fds ss
    unfolding upsertEnvoyFilter_steps_def by (auto intro!: prog_frames split: sum.split)
  have "p_total (query_and_upsert_steps fuel cl cfg rs)"
    unfolding query_and_upsert_steps_def using assms parts(3)
    by (auto intro!: prog_frames io_frames simp: query_returns_def split: prod.split)
  then show ?thesis
    unfolding upsertFilter_steps_def using parts(1,2)
    by (auto intro!: prog_frames simp: deleteService_def deleteIngress_def)
qed

lemma processing_moves:
  fixes s :: "'w op_state"
  assumes "query_returns fuel cl" "grpcPort rs \<noteq> 0" "shouldProcessReplicaset s rs (deployKey rs)"
  shows "moving rs (\<lambda>_ _. True) (processReplicaset_steps fuel cl cfg rs (deployKey rs)) s"
proof -
  let ?e = "activeState s (deployKey rs)"
  have up: "moving rs (\<lambda>r t. activeState t (deployKey rs) = ?e) (p_try (upsertFilter_steps fuel cl cfg rs)) s"
    by (rule frame_moving) (auto intro!: prog_frames upsertFilter_frame internal_own upsertFilter_total_steps assms(1))
  have count: "moving rs (\<lambda>_ _. True) (p_act (processed_Inc st ty)) t" for st ty and t :: "'w op_state"
    by (rule entries.assured_one) (auto simp: processed_Inc_def io_basic moves_def)
  have failed: "moving rs (\<lambda>_ _. True) (p_bind (p_act (processed_Inc st ty)) (\<lambda>_. p_fail err)) t" for st ty err and t :: "'w op_state"
    unfolding p_bind_def by (rule entries.assured_then [OF count]) (auto simp: p_fail_def intro!: assured_Done split: outcome.split)
  have stored: "moving rs (\<lambda>_ _. True) (p_bind (p_act (activeState_Store (deployKey rs) (newActiveEntry rs)))
      (\<lambda>_. p_act (processed_Inc st ty))) t" if "activeState t (deployKey rs) = ?e" for st ty and t :: "'w op_state"
    unfolding p_bind_def
  proof (rule entries.assured_then [where Q' = "\<lambda>r _. r = Ok ()"])
    show "moving rs (\<lambda>r _. r = Ok ()) (p_act (activeState_Store (deployKey rs) (newActiveEntry rs))) t"
    proof (rule entries.assured_one)
      fix u
      assume "same_entry (deployKey rs) t u"
      then have "shouldProcessReplicaset u rs (deployKey rs)"
        using that assms(3) by (simp add: same_entry_def shouldProcess_iff)
      then show "\<exists>r v. activeState_Store (deployKey rs) (newActiveEntry rs) u = Some (r, v) \<and> moves rs u v \<and>
          (\<forall>w. same_entry (deployKey rs) v w \<longrightarrow> r = Ok ())"
        by (simp add: activeState_Store_def io_basic moves_def)
    qed
  qed (simp add: count)
  show ?thesis
    unfolding processReplicaset_steps_def if_not_P [OF assms(2)] p_bind_def [where p = "p_try p" for p]
  proof (rule entries.assured_then [OF up])
    fix r :: "(goerr + unit) outcome" and t :: "'w op_state"
    assume "activeState t (deployKey rs) = ?e"
    then show "moving rs (\<lambda>_ _. True)
        (case r of Ok a \<Rightarrow> (case a of
            Inl err \<Rightarrow> p_bind (p_act (processed_Inc ''error'' ''upsert'')) (\<lambda>_. p_fail err)
          | Inr _ \<Rightarrow> p_bind (p_act (activeState_Store (deployKey rs) (newActiveEntry rs)))
              (\<lambda>_. p_act (processed_Inc ''success'' ''upsert'')))
        | Fail e \<Rightarrow> Done (Fail e) | Panic s \<Rightarrow> Done (Panic s)) t"
      using failed stored by (auto intro: assured_Done split: outcome.split sum.split)
  qed
qed

lemma moving_end:
  assumes "moving rs (\<lambda>_ _. True) p t"
  shows "moving rs (\<lambda>_ _. True)
    (p_then p (\<lambda>r. case r of Ok a \<Rightarrow> p_return True | Fail e \<Rightarrow> Done (Fail e) | Panic s \<Rightarrow> Done (Panic s))) t"
  by (rule entries.assured_then [OF assms]) (auto simp: p_return_def intro: assured_Done split: outcome.split)

lemma section_moves:
  fixes s :: "'w op_state"
  assumes "query_returns fuel cl" "grpcPort rs \<noteq> 0"
  shows "moving rs (\<lambda>_ _. True) (section_steps fuel cl cfg rs) s"
proof -
  let ?should = "\<lambda>t. shouldProcessReplicaset t rs (deployKey rs)"
  have "moving rs (\<lambda>r t. r = Ok (?should t)) (p_act (\<lambda>s. Some (Ok (?should s), s))) s"
    by (rule entries.assured_one) (simp add: moves_def same_entry_def shouldProcess_iff)
  then show ?thesis
    unfolding section_steps_def Let_def p_bind_def [where p = "p_act m" and k = "\<lambda>should. if \<not> should then p should else q should" for m p q]
  proof (rule entries.assured_then)
    fix r and t :: "'w op_state"
    assume r: "r = Ok (?should t)"
    have "moving rs (\<lambda>_ _. True) (p_bind (p_act ignored_Inc) (\<lambda>_. p_return True)) t"
      unfolding p_bind_def
      by (rule moving_end, rule entries.assured_one) (auto simp: ignored_Inc_def io_basic moves_def)
    moreover have "moving rs (\<lambda>_ _. True)
        (p_bind (p_try (processReplicaset_steps fuel cl cfg rs (deployKey rs))) (\<lambda>_. p_return True)) t" if "?should t"
      unfolding p_bind_def p_try_def
      by (rule moving_end, rule entries.assured_then [OF processing_moves [OF assms that]]) (auto intro: assured_Done)
    ultimately show "moving rs (\<lambda>_ _. True)
        (case r of Ok should \<Rightarrow>
            if \<not> should then p_bind (p_act ignored_Inc) (\<lambda>_. p_return True)
            else p_bind (p_try (processReplicaset_steps fuel cl cfg rs (deployKey rs))) (\<lambda>_. p_return True)
          | Fail e \<Rightarrow> Done (Fail e) | Panic s \<Rightarrow> Done (Panic s)) t"
      by (simp add: r)
  qed
qed

section \<open>The invariant\<close>

text \<open>The locks are sound and whoever is inside moves as allowed, until the process has died.\<close>

definition moving_fleet :: "replicaset set \<Rightarrow> 'w fleet \<Rightarrow> bool" where
  "moving_fleet U s \<longleftrightarrow> fl_dead s \<or> winv (fleet_locks s) \<and>
     (\<forall>i rs v. fl_pc s i = FWaiting rs v \<longrightarrow> rs \<in> U) \<and>
     (\<forall>i rs p. fl_pc s i = FInside rs p \<longrightarrow> rs \<in> U \<and> moving rs (\<lambda>_ _. True) p (fl_shared s))"

lemma moving_fleetD:
  assumes "moving_fleet U s" "\<not> fl_dead s"
  shows "winv (fleet_locks s)" "fl_pc s i = FWaiting rs v \<Longrightarrow> rs \<in> U"
    "fl_pc s i = FInside rs p \<Longrightarrow> rs \<in> U" "fl_pc s i = FInside rs p \<Longrightarrow> moving rs (\<lambda>_ _. True) p (fl_shared s)"
  using assms unfolding moving_fleet_def by blast+

lemma moving_stable:
  "moving rs (\<lambda>_ _. True) p s \<Longrightarrow> activeState t (deployKey rs) = activeState s (deployKey rs) \<Longrightarrow>
     moving rs (\<lambda>_ _. True) p t"
  by (erule entries.assured_stable) (simp add: same_entry_def)

text \<open>The three kinds of change a step makes to a worker.\<close>

lemma moving_fleet_go:
  assumes "moving_fleet U s" "\<not> fl_dead s" "fl_dead t \<or> winv (fleet_locks t)" "t = fl_go s i u pc"
    and "\<And>j rs p. j \<noteq> i \<Longrightarrow> fl_pc s j = FInside rs p \<Longrightarrow> activeState u (deployKey rs) = activeState (fl_shared s) (deployKey rs)"
    and "\<And>rs v. pc = FWaiting rs v \<Longrightarrow> rs \<in> U"
    and "\<And>rs p. pc = FInside rs p \<Longrightarrow> rs \<in> U \<and> moving rs (\<lambda>_ _. True) p u"
  shows "moving_fleet U t"
proof -
  note I = moving_fleetD [OF assms(1,2)]
  have "rs \<in> U \<and> moving rs (\<lambda>_ _. True) p u" if "fl_pc t j = FInside rs p" for j rs p
  proof (cases "j = i")
    case True
    then show ?thesis using that assms(4,7) by simp
  next
    case False
    then have j: "fl_pc s j = FInside rs p" using that assms(4) by simp
    from moving_stable [OF I(4) [OF j] assms(5) [OF False j]] I(3) [OF j] show ?thesis by blast
  qed
  moreover have "rs \<in> U" if "fl_pc t j = FWaiting rs v" for j rs v
    using that assms(4,6) I(2) by (cases "j = i") auto
  ultimately show ?thesis using assms(2-4) by (simp add: moving_fleet_def)
qed

text \<open>The deployments whose entries a run of the cleanup has dropped.\<close>

definition forgotten :: "flabel set \<Rightarrow> string set" where
  "forgotten L = {k. FCleanup k \<in> L}"

lemma restrict_UNIV [simp]: "m |` UNIV = m"
  by (simp add: restrict_map_def)

lemma moving_step:
  assumes ok: "query_returns fuel cl" "\<forall>rs \<in> U. grpcPort rs \<noteq> 0" "given l \<subseteq> U" "cleans l \<inter> deployKey ` U = {}"
    and inv: "moving_fleet U s" and step: "fstep fuel cl cfg s l t"
  shows "moving_fleet U t"
    "\<exists>rss. set rss \<subseteq> U \<and>
      activeState (fl_shared t) = (fold reconcile rss (activeState (fl_shared s))) |` (- forgotten {l})"
proof -
  have alive: "\<not> fl_dead s" using step by (cases rule: fstep.cases)
  note I = moving_fleetD [OF inv alive]
  have act: "moves rs (fl_shared s) u \<and> moving rs (\<lambda>_ _. True) p u"
    if "fl_pc s i = FInside rs (Act a)" "a (fl_shared s) = Some (p, u)" for i rs a p u
    using entries.assured_step [OF I(4) [OF that(1)] that(2)] by blast
  have w: "fl_dead t \<or> winv (fleet_locks t)"
  proof (rule fstep_winv [OF step I(1)], goal_cases)
    case 1
    from act [OF this] show ?case by (simp add: moves_def)
  next
    case (2 k i v)
    then show ?case using ok(4) I(2,3) [of i] by (auto simp: fl_at_simps)
  qed
  note enter = section_moves [OF ok(1)]
  have "moving_fleet U t \<and>
    (\<exists>rss. set rss \<subseteq> U \<and>
      activeState (fl_shared t) = (fold reconcile rss (activeState (fl_shared s))) |` (- forgotten {l}))"
    using step
  proof (cases rule: fstep.cases)
    case (f_took i rs m)
    have "moving_fleet U t"
      by (rule moving_fleet_go [OF inv alive w f_took(2)]) (use f_took(1) ok(2,3) enter in auto)
    then show ?thesis using f_took(1,2) by (intro conjI exI [of _ "[]"]) (simp_all add: forgotten_def)
  next
    case (f_blocked i rs v m)
    have "moving_fleet U t"
      by (rule moving_fleet_go [OF inv alive w f_blocked(2)]) (use f_blocked(1) ok(3) in auto)
    then show ?thesis using f_blocked(1,2) by (intro conjI exI [of _ "[]"]) (simp_all add: forgotten_def)
  next
    case (f_acquired i rs v m)
    have "moving_fleet U t"
      by (rule moving_fleet_go [OF inv alive w f_acquired(2)]) (use I(2) [OF f_acquired(4)] ok(2) enter in auto)
    then show ?thesis using f_acquired(1,2) by (intro conjI exI [of _ "[]"]) (simp_all add: forgotten_def)
  next
    case (f_act i rs a p u)
    note m = act [OF f_act(4,5)] and rs = I(3) [OF f_act(4)]
    have other: "activeState u (deployKey x) = activeState (fl_shared s) (deployKey x)"
      if "j \<noteq> i" "fl_pc s j = FInside x q" for j x q
      using m fleet_one_inside [OF I(1) f_act(4) that(2)] that(1) by (auto simp: moves_def)
    have "moving_fleet U t"
      by (rule moving_fleet_go [OF inv alive w f_act(2)]) (use m rs other in auto)
    moreover have "activeState u = fold reconcile [] (activeState (fl_shared s)) \<or>
        activeState u = fold reconcile [rs] (activeState (fl_shared s))"
      using m ok(2) rs by (auto simp: moves_def reconcile_should)
    then have "\<exists>rss. set rss \<subseteq> U \<and> activeState u = fold reconcile rss (activeState (fl_shared s))"
      using rs by (metis empty_set empty_subsetI insert_subset list.simps(15))
    ultimately show ?thesis using f_act(1,2) by (simp add: forgotten_def)
  next
    case (f_left i rs r u)
    obtain m where u: "u = fl_locked m s" using f_left(6) by (auto simp: locker_Unlock_Ok)
    have "moving_fleet U t" by (rule moving_fleet_go [OF inv alive w f_left(2)]) (simp_all add: u)
    then show ?thesis using f_left(1,2) u by (intro conjI exI [of _ "[]"]) (simp_all add: forgotten_def)
  next
    case (f_panicked i rs e r u)
    then show ?thesis
      by (intro conjI exI [of _ "[]"]) (auto simp: moving_fleet_def locker_Unlock_Ok forgotten_def)
  next
    case (f_fatal i rs r e u)
    then show ?thesis
      by (intro conjI exI [of _ "[]"]) (auto simp: moving_fleet_def locker_Unlock_Ok forgotten_def)
  next
    case (f_cleanup k u)
    have u: "u = (fl_shared s)\<lparr>activeState := (activeState (fl_shared s))(k := None)\<rparr>"
      using f_cleanup(5) by (simp add: activeState_Delete_def io_modify_def)
    have "moving rs (\<lambda>_ _. True) p u" if "fl_pc s i = FInside rs p" for i rs p
    proof (rule moving_stable [OF I(4) [OF that]])
      show "activeState u (deployKey rs) = activeState (fl_shared s) (deployKey rs)"
        using I(3) [OF that] ok(4) f_cleanup(1) by (auto simp: u)
    qed
    then have "moving_fleet U t" using w alive f_cleanup(2) I(2,3) by (simp add: moving_fleet_def)
    then show ?thesis using f_cleanup(1,2) u
      by (intro conjI exI [of _ "[]"]) (auto simp: forgotten_def restrict_map_def)
  next
    case (f_cleaned k u)
    have u: "u = fl_locked (Remove k (fl_locks s)) s" using f_cleaned(5) by (simp add: locker_Remove_def io_modify_def)
    have "moving rs (\<lambda>_ _. True) p u" if "fl_pc s i = FInside rs p" for i rs p
      using moving_stable [OF I(4) [OF that], of u] by (simp add: u)
    then have "moving_fleet U t" using w alive f_cleaned(2) I(2,3) by (simp add: moving_fleet_def)
    then show ?thesis using f_cleaned(1,2) u by (intro conjI exI [of _ "[]"]) (simp_all add: forgotten_def)
  qed
  then show "moving_fleet U t"
    "\<exists>rss. set rss \<subseteq> U \<and>
      activeState (fl_shared t) = (fold reconcile rss (activeState (fl_shared s))) |` (- forgotten {l})" by blast+
qed

text \<open>The abstract reconciler does not care about the entries of other deployments.\<close>

lemma reconcile_forget: "deployKey rs \<notin> K \<Longrightarrow> reconcile rs (A |` (- K)) = (reconcile rs A) |` (- K)"
  by (auto simp: reconcile_def Let_def restrict_map_def fun_eq_iff split: option.split)

lemma reconciles_forget:
  "\<forall>rs \<in> set rss. deployKey rs \<notin> K \<Longrightarrow> fold reconcile rss (A |` (- K)) = (fold reconcile rss A) |` (- K)"
  by (induction rss arbitrary: A) (simp_all add: reconcile_forget)

lemma moving_run:
  assumes "query_returns fuel cl" "\<forall>rs \<in> U. grpcPort rs \<noteq> 0"
  shows "lrun (fstep fuel cl cfg) s ls t \<Longrightarrow> \<forall>l \<in> set ls. given l \<subseteq> U \<and> cleans l \<inter> deployKey ` U = {} \<Longrightarrow>
    moving_fleet U s \<Longrightarrow> moving_fleet U t \<and>
    (\<exists>rss. set rss \<subseteq> U \<and>
      activeState (fl_shared t) = (fold reconcile rss (activeState (fl_shared s))) |` (- forgotten (set ls)))"
proof (induction rule: lrun.induct)
  case (lrun_Nil s)
  then show ?case by (intro conjI exI [of _ "[]"]) (simp_all add: forgotten_def)
next
  case (lrun_Cons s l t ls u)
  have l: "given l \<subseteq> U" "cleans l \<inter> deployKey ` U = {}"
    and ls: "\<forall>l \<in> set ls. given l \<subseteq> U \<and> cleans l \<inter> deployKey ` U = {}" using lrun_Cons.prems(1) by simp_all
  note step = moving_step [OF assms l lrun_Cons.prems(2) lrun_Cons.hyps(1)]
  obtain xs where xs: "set xs \<subseteq> U"
    "activeState (fl_shared t) = (fold reconcile xs (activeState (fl_shared s))) |` (- forgotten {l})"
    using step(2) by blast
  obtain ys where ys: "moving_fleet U u" "set ys \<subseteq> U"
    "activeState (fl_shared u) = (fold reconcile ys (activeState (fl_shared t))) |` (- forgotten (set ls))"
    using lrun_Cons.IH ls step(1) by blast
  have "deployKey rs \<notin> forgotten {l}" if "rs \<in> set ys" for rs
    using that ys(2) l(2) by (cases l) (auto simp: forgotten_def)
  then have "activeState (fl_shared u) =
      (fold reconcile (xs @ ys) (activeState (fl_shared s))) |` (- forgotten (set (l # ls)))"
    using ys(3) xs(2) by (simp add: reconciles_forget) (auto simp: forgotten_def intro!: arg_cong [where f = "(|`) _"])
  then show ?case using xs(1) ys(1,2) by (intro conjI exI [of _ "xs @ ys"]) simp_all
qed

interpretation moving_fleets: fleet_progress fuel cl cfg
    "\<lambda>s. query_returns fuel cl \<and> (\<forall>rs \<in> U. grpcPort rs \<noteq> 0) \<and> moving_fleet U s"
  for fuel :: nat and cl :: "('w, 'b, 'c, 's) cluster" and cfg U
proof (unfold_locales, goal_cases)
  case (1 s)
  then show ?case by (blast intro: moving_fleetD(1))
next
  case (2 s l t)
  then have "given l \<subseteq> U" "cleans l \<inter> deployKey ` U = {}" by (simp_all add: quiet_def)
  note l = this
  show ?case using 2 moving_step(1) [OF _ _ l, of fuel cl s cfg t] by simp
next
  case (3 s i rs a)
  then have "moving rs (\<lambda>_ _. True) (Act a) (fl_shared s)" by (blast intro: moving_fleetD(4))
  then show ?case by (rule entries.assured_ActD) blast
qed

lemma moving_start: "fleet_idle s \<Longrightarrow> moving_fleet U s"
  by (simp add: fleet_idle_def moving_fleet_def winv_def)

section \<open>Errors do no harm\<close>

text \<open>The abstract reconciler never replaces an entry by one of a lower revision.\<close>

lemma reconcile_grows: "grpcPort rs \<noteq> 0 \<Longrightarrow> entries_grow A (reconcile rs A)"
  by (auto simp: entries_grow_def reconcile_def Let_def split: option.split)

lemma reconciles_grow: "\<forall>rs \<in> set rss. grpcPort rs \<noteq> 0 \<Longrightarrow> entries_grow A (fold reconcile rss A)"
proof (induction rss arbitrary: A)
  case Nil
  show ?case using entries_grow_order(1) by (simp add: reflpD)
next
  case (Cons rs rss)
  then have "entries_grow A (reconcile rs A)" "entries_grow (reconcile rs A) (fold reconcile rss (reconcile rs A))"
    using reconcile_grows by simp_all
  then show ?case using transpD [OF entries_grow_order(2)] by simp
qed

text \<open>
  C5. Errors do no harm: in a cluster whose API servers may fail any call, and whose reflection
  queries may fail but return, workers that run ReplicaSets with a port concurrently, in any
  interleaving of their calls and with the cleanup of other deployments, never have two of them
  inside the section of one deployment; the active state is at every moment what the abstract
  reconciler makes of some of the ReplicaSets handed out, one after the other, without the
  entries cleaned up, so no other entry is lost or goes back in revision; and nobody is stuck: from
  every moment on, without new work, the workers can all become idle, unless a section panics
  and the process ends. (C33, C34 and C35 are about deployments that lose their port annotation
  or are cleaned up while their workers run.)
\<close>

theorem errors_do_no_harm:
  assumes "query_returns fuel cl" and "fleet_idle s" and "lrun (fstep fuel cl cfg) s ls t"
    and "\<forall>l \<in> set ls. \<forall>rs \<in> given l. grpcPort rs \<noteq> 0"
    and "(\<Union>l \<in> set ls. cleans l) \<inter> deployKey ` (\<Union>l \<in> set ls. given l) = {}"
  shows "(\<exists>rss. set rss \<subseteq> (\<Union>l \<in> set ls. given l) \<and>
      activeState (fl_shared t) = (fold reconcile rss (activeState (fl_shared s))) |` (- forgotten (set ls))) \<and>
    entries_grow ((activeState (fl_shared s)) |` (- forgotten (set ls))) (activeState (fl_shared t)) \<and>
    (\<not> fl_dead t \<longrightarrow> (\<forall>i j rs p x q. fl_pc t i = FInside rs p \<and> fl_pc t j = FInside x q \<and>
      deployKey rs = deployKey x \<longrightarrow> i = j)) \<and>
    (\<exists>ms u. lrun (fstep fuel cl cfg) t ms u \<and> (\<forall>l \<in> set ms. quiet l) \<and> (fl_dead u \<or> fleet_idle u))"
proof -
  let ?U = "\<Union>l \<in> set ls. given l"
  let ?F = "forgotten (set ls)"
  have port: "\<forall>rs \<in> ?U. grpcPort rs \<noteq> 0"
    and sub: "\<forall>l \<in> set ls. given l \<subseteq> ?U \<and> cleans l \<inter> deployKey ` ?U = {}"
    using assms(4,5) by (blast, blast)
  from moving_run [OF assms(1) port assms(3) sub moving_start [OF assms(2)]]
  obtain rss where inv: "moving_fleet ?U t" and rss: "set rss \<subseteq> ?U"
    "activeState (fl_shared t) = (fold reconcile rss (activeState (fl_shared s))) |` (- ?F)" by blast
  have "?F \<subseteq> (\<Union>l \<in> set ls. cleans l)" by (force simp: forgotten_def)
  then have "\<forall>rs \<in> set rss. deployKey rs \<notin> ?F" using rss(1) assms(5) by blast
  then have "activeState (fl_shared t) = fold reconcile rss (activeState (fl_shared s) |` (- ?F))"
    by (simp add: rss(2) reconciles_forget)
  moreover have "\<forall>rs \<in> set rss. grpcPort rs \<noteq> 0" using rss(1) port by blast
  ultimately have grow: "entries_grow (activeState (fl_shared s) |` (- ?F)) (activeState (fl_shared t))"
    by (simp add: reconciles_grow)
  have one: "i = j" if "\<not> fl_dead t" "fl_pc t i = FInside rs p" "fl_pc t j = FInside x q" "deployKey rs = deployKey x"
    for i j rs p x q
    using fleet_one_inside [OF moving_fleetD(1) [OF inv that(1)] that(2,3)] that(4) by blast
  have "finite (busy s)" using assms(2) by (simp add: busy_def fleet_idle_def)
  from moving_fleets.finishes [OF lrun_busy [OF assms(3) this]] assms(1) port inv
  have ends: "\<exists>ms u. lrun (fstep fuel cl cfg) t ms u \<and> (\<forall>l \<in> set ms. quiet l) \<and> (fl_dead u \<or> fleet_idle u)"
    by blast
  show ?thesis using rss grow one ends by blast
qed

text \<open>A cluster in which no temporary Service can be created.\<close>

theorem errors_do_no_harm_witness:
  "\<exists>t ms u. lrun (fstep 1 refusing_cluster sample_config) idle_fleet
      [FTook 0 plain_rs, FBlocked 1 second_rs, FCleanup ''ns/gone'', FTook 2 (rs_of ''e'')] t \<and>
    entries_grow Map.empty (activeState (fl_shared t)) \<and>
    lrun (fstep 1 refusing_cluster sample_config) t ms u \<and> (fl_dead u \<or> fleet_idle u)"
proof -
  let ?ls = "[FTook 0 plain_rs, FBlocked 1 second_rs, FCleanup ''ns/gone'', FTook 2 (rs_of ''e'')]"
  obtain t where t: "lrun (fstep 1 refusing_cluster sample_config) idle_fleet ?ls t" by (rule sample_schedule)
  have "query_returns 1 refusing_cluster"
    using sample_query_returns by (simp add: query_returns_def refusing_cluster_def)
  moreover have "\<forall>l \<in> set ?ls. \<forall>rs \<in> given l. grpcPort rs \<noteq> 0" by (simp add: sample_facts rs_of_facts)
  moreover have "(\<Union>l \<in> set ?ls. cleans l) \<inter> deployKey ` (\<Union>l \<in> set ?ls. given l) = {}"
    by (simp add: sample_facts rs_of_facts)
  ultimately show ?thesis
    using errors_do_no_harm [OF _ idle_fleet_idle(1) t] t unfolding idle_fleet_idle(2) restrict_map_empty by blast
qed

end
