(* ===== verification/Lifecycle.thy ===== *)
theory Lifecycle
  imports Prelude
begin

text \<open>
  Starting and stopping the leader (\<open>start\<close>, \<open>startLeading\<close>, \<open>runWorkers\<close> and \<open>stop\<close> in
  cmd/transflect-operator/operator.go) as a system of goroutines. One goroutine runs the
  \<open>OnStartedLeading\<close> callback; calls of \<open>stop\<close>, numbered, come at any time from the callbacks of
  the leader election, which runs \<open>OnStartedLeading\<close> in a goroutine of its own and calls
  \<open>OnStoppedLeading\<close> when the context is cancelled or the lease is lost. The state is the part of
  the operator they share: the channel \<open>stopper\<close>, the mutex \<open>stopLock\<close>, the counter of the wait
  group, how many of the workers it counts are blocked for ever on the lock of a deployment, and
  whether the queue was shut down. A step is one statement on that state.
\<close>

section \<open>The channel\<close>

text \<open>A channel variable is nil, open or closed; a channel that is closed stays so.\<close>

datatype chan = NilChan | OpenChan | ClosedChan

fun chan_rank :: "chan \<Rightarrow> nat" where
  "chan_rank NilChan = 0"
| "chan_rank OpenChan = 1"
| "chan_rank ClosedChan = 2"

lemma chan_rank_inj: "chan_rank c = chan_rank d \<Longrightarrow> c = d"
  by (cases c; cases d) simp_all

instantiation chan :: linorder
begin

definition less_eq_chan :: "chan \<Rightarrow> chan \<Rightarrow> bool" where
  "less_eq_chan c d \<longleftrightarrow> chan_rank c \<le> chan_rank d"

definition less_chan :: "chan \<Rightarrow> chan \<Rightarrow> bool" where
  "less_chan c d \<longleftrightarrow> chan_rank c < chan_rank d"

instance
  by standard (auto simp: less_eq_chan_def less_chan_def intro: chan_rank_inj)

end

lemma chan_le_simps [simp]:
  "NilChan \<le> c" "c \<le> ClosedChan" "ClosedChan \<le> c \<longleftrightarrow> c = ClosedChan"
  by (cases c; simp add: less_eq_chan_def)+

section \<open>The goroutines\<close>

text \<open>
  The callback: before \<open>startLeading\<close>, in \<open>syncActive\<close>, creating informers and queue, starting the
  workers (so many to go), blocked in the receive from \<open>stopper\<close>, returned, returned with an error.
\<close>

datatype leader_pc = LIdle | LSyncing | LSetup | LSpawning nat | LBlocked | LReturned | LFailed

text \<open>
  A call of \<open>stop\<close>: before the lock, in the \<open>select\<close>, in the \<open>if\<close> that closes, in \<open>wg.Wait\<close>, returned.
\<close>

datatype stop_pc = SIdle | SSelect | SClose | SWait | SReturned

datatype queue_state = NoQueue | LiveQueue | ShutQueue

record lifecycle =
  stopper :: chan
  stopLock :: "nat option"
  running :: nat
  stranded :: nat
  queue_of :: queue_state
  leader :: leader_pc
  stops :: "nat \<Rightarrow> stop_pc"
  panicked :: bool

definition life_init :: lifecycle where
  "life_init =
     \<lparr>stopper = NilChan, stopLock = None, running = 0, stranded = 0, queue_of = NoQueue,
      leader = LIdle, stops = (\<lambda>_. SIdle), panicked = False\<rparr>"

text \<open>\<open>startLeading\<close>, with \<open>runWorkers(ctx, 42)\<close>.\<close>

inductive lead_step :: "lifecycle \<Rightarrow> lifecycle \<Rightarrow> bool" where
  make_stopper: "leader s = LIdle \<Longrightarrow> lead_step s (s\<lparr>stopper := OpenChan, leader := LSyncing\<rparr>)"
| sync_error: "leader s = LSyncing \<Longrightarrow> lead_step s (s\<lparr>leader := LFailed\<rparr>)"
| synced: "leader s = LSyncing \<Longrightarrow> lead_step s (s\<lparr>leader := LSetup\<rparr>)"
| setup_error: "leader s = LSetup \<Longrightarrow> lead_step s (s\<lparr>leader := LFailed\<rparr>)"
| set_up: "leader s = LSetup \<Longrightarrow> lead_step s (s\<lparr>queue_of := LiveQueue, leader := LSpawning 42\<rparr>)"
| spawn: "leader s = LSpawning (Suc n) \<Longrightarrow>
    lead_step s (s\<lparr>running := Suc (running s), leader := LSpawning n\<rparr>)"
| spawned: "leader s = LSpawning 0 \<Longrightarrow> lead_step s (s\<lparr>leader := LBlocked\<rparr>)"
| unblocked: "leader s = LBlocked \<Longrightarrow> stopper s = ClosedChan \<Longrightarrow>
    lead_step s (s\<lparr>queue_of := ShutQueue, leader := LReturned\<rparr>)"

text \<open>
  \<open>runWorker\<close> ends when \<open>Get\<close> reports the shutdown; a call of \<open>next\<close> before that is not a step here,
  and returns unless it is blocked on a lock. A worker that waits in \<open>deploymentLocker.Lock\<close>
  for a mutex that was removed from the map while it was held never returns from there, and never
  calls \<open>wg.Done\<close> (the theory Workers shows how that comes about). There is work only once
  the informers run, and the holder whose \<open>Unlock\<close> misses the mutex is not stranded itself: a
  worker can only be stranded by one that started to wait later or not at all, so one is left.
\<close>

inductive worker_step :: "lifecycle \<Rightarrow> lifecycle \<Rightarrow> bool" where
  worker_exit: "queue_of s = ShutQueue \<Longrightarrow> stranded s < running s \<Longrightarrow>
    worker_step s (s\<lparr>running := running s - 1\<rparr>)"
| worker_strands: "leader s = LBlocked \<or> leader s = LReturned \<Longrightarrow> stranded s + 2 \<le> running s \<Longrightarrow>
    worker_step s (s\<lparr>stranded := Suc (stranded s)\<rparr>)"

text \<open>
  \<open>stop\<close>. A receive from a nil channel is never ready, so the \<open>select\<close> takes its default branch
  unless the channel is closed; closing a closed channel is a panic.
\<close>

inductive stop_step :: "nat \<Rightarrow> lifecycle \<Rightarrow> lifecycle \<Rightarrow> bool" where
  stop_lock: "stops s i = SIdle \<Longrightarrow> stopLock s = None \<Longrightarrow>
    stop_step i s (s\<lparr>stopLock := Some i, stops := (stops s)(i := SSelect)\<rparr>)"
| already_closed: "stops s i = SSelect \<Longrightarrow> stopper s = ClosedChan \<Longrightarrow>
    stop_step i s (s\<lparr>stopLock := None, stops := (stops s)(i := SReturned)\<rparr>)"
| not_closed: "stops s i = SSelect \<Longrightarrow> stopper s \<noteq> ClosedChan \<Longrightarrow>
    stop_step i s (s\<lparr>stops := (stops s)(i := SClose)\<rparr>)"
| close_nil: "stops s i = SClose \<Longrightarrow> stopper s = NilChan \<Longrightarrow>
    stop_step i s (s\<lparr>stops := (stops s)(i := SWait)\<rparr>)"
| close_open: "stops s i = SClose \<Longrightarrow> stopper s = OpenChan \<Longrightarrow>
    stop_step i s (s\<lparr>stopper := ClosedChan, stops := (stops s)(i := SWait)\<rparr>)"
| close_closed: "stops s i = SClose \<Longrightarrow> stopper s = ClosedChan \<Longrightarrow>
    stop_step i s (s\<lparr>panicked := True\<rparr>)"
| all_done: "stops s i = SWait \<Longrightarrow> running s = 0 \<Longrightarrow>
    stop_step i s (s\<lparr>stopLock := None, stops := (stops s)(i := SReturned)\<rparr>)"


definition life_step :: "lifecycle \<Rightarrow> lifecycle \<Rightarrow> bool" where
  "life_step s t \<longleftrightarrow> \<not> panicked s \<and> (lead_step s t \<or> worker_step s t \<or> (\<exists>i. stop_step i s t))"

abbreviation life_run :: "lifecycle \<Rightarrow> lifecycle \<Rightarrow> bool" where
  "life_run \<equiv> life_step\<^sup>*\<^sup>*"

text \<open>\<open>runWorkers\<close> as a loop; the steps \<open>spawn\<close> and \<open>spawned\<close> run it.\<close>

primrec runWorkers :: "nat \<Rightarrow> lifecycle \<Rightarrow> lifecycle" where
  "runWorkers 0 s = s"
| "runWorkers (Suc n) s = runWorkers n (s\<lparr>running := Suc (running s)\<rparr>)"

lemma runWorkers_eq: "runWorkers n s = s\<lparr>running := running s + n\<rparr>"
  by (induction n arbitrary: s) simp_all

lemma runWorkers_spawns:
  "leader s = LSpawning n \<Longrightarrow> lead_step\<^sup>*\<^sup>* s ((runWorkers n s)\<lparr>leader := LBlocked\<rparr>)"
proof (induction n arbitrary: s)
  case 0
  then show ?case using spawned [of s] by auto
next
  case (Suc n)
  let ?t = "s\<lparr>running := Suc (running s), leader := LSpawning n\<rparr>"
  have "lead_step\<^sup>*\<^sup>* ?t ((runWorkers n ?t)\<lparr>leader := LBlocked\<rparr>)" by (rule Suc.IH) simp
  then show ?case
    using spawn [OF Suc.prems] by (auto simp: runWorkers_eq intro: converse_rtranclp_into_rtranclp)
qed

section \<open>The invariant\<close>

text \<open>
  The holder of \<open>stopLock\<close> is the one call of \<open>stop\<close> that is under way; a call about to close has
  seen the channel not closed and nobody else closes it; the channel is nil exactly before
  \<open>startLeading\<close>; workers run only once they were started, the stranded ones are among them, and
  the queue is shut down only after the channel was closed.
\<close>

definition under_way :: "stop_pc \<Rightarrow> bool" where
  "under_way pc \<longleftrightarrow> pc = SSelect \<or> pc = SClose \<or> pc = SWait"

definition life_inv :: "lifecycle \<Rightarrow> bool" where
  "life_inv s \<longleftrightarrow> \<not> panicked s \<and>
     (\<forall>i. under_way (stops s i) \<longleftrightarrow> stopLock s = Some i) \<and>
     (\<forall>i. stops s i = SClose \<longrightarrow> stopper s \<noteq> ClosedChan) \<and>
     (stopper s = NilChan \<longleftrightarrow> leader s = LIdle) \<and>
     (leader s \<in> {LIdle, LSyncing, LSetup, LFailed} \<longrightarrow> running s = 0) \<and>
     stranded s \<le> running s \<and>
     (queue_of s = ShutQueue \<longleftrightarrow> leader s = LReturned) \<and>
     (queue_of s = ShutQueue \<longrightarrow> stopper s = ClosedChan)"

lemma life_inv_init: "life_inv life_init"
  by (simp add: life_inv_def life_init_def under_way_def)

lemma lead_step_inv: "lead_step s t \<Longrightarrow> life_inv s \<Longrightarrow> life_inv t"
  by (induction rule: lead_step.induct) (simp_all add: life_inv_def)

lemma worker_step_inv: "worker_step s t \<Longrightarrow> life_inv s \<Longrightarrow> life_inv t"
  by (induction rule: worker_step.induct) (auto simp: life_inv_def)

lemma life_inv_lock: "life_inv s \<Longrightarrow> under_way (stops s i) \<longleftrightarrow> stopLock s = Some i"
  by (simp add: life_inv_def)

lemma life_invD:
  assumes "life_inv s"
  shows "\<not> panicked s"
    "stops s i = SClose \<Longrightarrow> stopper s \<noteq> ClosedChan"
    "stopper s = NilChan \<longleftrightarrow> leader s = LIdle"
    "stopper s = NilChan \<Longrightarrow> running s = 0"
    "leader s = LIdle \<or> leader s = LFailed \<Longrightarrow> running s = 0"
    "leader s = LReturned \<Longrightarrow> queue_of s = ShutQueue"
    "stranded s \<le> running s"
  using assms unfolding life_inv_def by blast+

lemma stop_step_inv: "stop_step i s t \<Longrightarrow> life_inv s \<Longrightarrow> life_inv t"
proof (induction rule: stop_step.induct)
  case (close_open s i)
  then have "stopLock s = Some i" using life_inv_lock [of s i] by (simp add: under_way_def)
  with close_open show ?case by (auto simp: life_inv_def under_way_def)
next
  case (already_closed s i)
  then have "stopLock s = Some i" using life_inv_lock [of s i] by (simp add: under_way_def)
  with already_closed show ?case by (auto simp: life_inv_def under_way_def)
next
  case (all_done s i)
  then have "stopLock s = Some i" using life_inv_lock [of s i] by (simp add: under_way_def)
  with all_done show ?case by (auto simp: life_inv_def under_way_def)
qed (auto simp: life_inv_def under_way_def)

lemma life_step_inv: "life_step s t \<Longrightarrow> life_inv s \<Longrightarrow> life_inv t"
  unfolding life_step_def using lead_step_inv worker_step_inv stop_step_inv by blast

lemma life_run_inv: "life_run s t \<Longrightarrow> life_inv s \<Longrightarrow> life_inv t"
  by (induction rule: rtranclp_induct) (auto intro: life_step_inv)

text \<open>The channel only moves on.\<close>

lemma life_step_stopper:
  assumes "life_step s t" "life_inv s"
  shows "stopper s \<le> stopper t"
proof -
  have idle: "stopper s = NilChan" if "leader s = LIdle" using assms(2) that by (simp add: life_inv_def)
  from assms(1) consider "lead_step s t" | "worker_step s t" | i where "stop_step i s t"
    unfolding life_step_def by blast
  then show ?thesis
  proof cases
    case 1
    then show ?thesis using idle by (cases rule: lead_step.cases) simp_all
  next
    case 2
    then show ?thesis by (cases rule: worker_step.cases) simp_all
  next
    case 3
    then show ?thesis by (cases rule: stop_step.cases) simp_all
  qed
qed

lemma life_run_stopper: "life_run s t \<Longrightarrow> life_inv s \<Longrightarrow> stopper s \<le> stopper t"
  by (induction rule: rtranclp_induct) (auto intro: order_trans life_step_stopper life_run_inv)

text \<open>
  C22. Closing once: whatever calls of \<open>stop\<close> come, from whichever goroutines and in whatever
  order with the steps of the leader, the channel is never closed a second time, at most one
  call is past the lock and not yet returned, and once the channel is closed it stays closed.
\<close>

theorem stopper_closed_once:
  assumes "life_run life_init s" and "life_run s t"
  shows "\<not> panicked t \<and> \<not> (i \<noteq> j \<and> under_way (stops t i) \<and> under_way (stops t j)) \<and>
    stopper s \<le> stopper t"
proof -
  have s: "life_inv s" using assms(1) life_inv_init by (rule life_run_inv)
  then have t: "life_inv t" using assms(2) life_run_inv by blast
  then have "\<not> (i \<noteq> j \<and> under_way (stops t i) \<and> under_way (stops t j))"
    using life_inv_lock [of t i] life_inv_lock [of t j] by auto
  then show ?thesis using t life_run_stopper [OF assms(2) s] by (simp add: life_inv_def)
qed

section \<open>Stopping ends\<close>

text \<open>Runs of the leader and the workers only, in which no worker gets stranded.\<close>

definition work_step :: "lifecycle \<Rightarrow> lifecycle \<Rightarrow> bool" where
  "work_step s t \<longleftrightarrow> \<not> panicked s \<and> stranded t = stranded s \<and> (lead_step s t \<or> worker_step s t)"

abbreviation work_run :: "lifecycle \<Rightarrow> lifecycle \<Rightarrow> bool" where
  "work_run \<equiv> work_step\<^sup>*\<^sup>*"

lemma work_run_life: "work_run s t \<Longrightarrow> life_run s t"
  by (erule rtranclp_mono [THEN predicate2D, rotated]) (auto simp: work_step_def life_step_def)

lemma work_run_stranded: "work_run s t \<Longrightarrow> stranded t = stranded s"
  by (induction rule: rtranclp_induct) (simp_all add: work_step_def)

lemma lead_step_stranded: "lead_step s t \<Longrightarrow> stranded t = stranded s"
  by (induction rule: lead_step.induct) simp_all

lemma lead_run: "\<not> panicked s \<Longrightarrow> lead_step s t \<Longrightarrow> work_run t u \<Longrightarrow> work_run s u"
  by (rule converse_rtranclp_into_rtranclp) (auto simp: work_step_def lead_step_stranded)

lemma stop_run: "\<not> panicked s \<Longrightarrow> stop_step i s t \<Longrightarrow> life_run t u \<Longrightarrow> life_run s u"
  by (rule converse_rtranclp_into_rtranclp) (auto simp: life_step_def)

lemma worker_exits:
  assumes "\<not> panicked s" "queue_of s = ShutQueue" "stranded s < running s"
  shows "work_step s (s\<lparr>running := running s - 1\<rparr>)"
  using worker_exit [OF assms(2,3)] assms(1) by (simp add: work_step_def)

lemma workers_exit:
  "\<not> panicked s \<Longrightarrow> queue_of s = ShutQueue \<Longrightarrow> stranded s = 0 \<Longrightarrow> work_run s (s\<lparr>running := 0\<rparr>)"
proof (induction "running s" arbitrary: s)
  case 0
  then have "s\<lparr>running := 0\<rparr> = s" by simp
  then show ?case by simp
next
  case (Suc n)
  have "work_step s (s\<lparr>running := running s - 1\<rparr>)"
    using Suc.prems Suc.hyps(2) by (intro worker_exits) simp_all
  moreover have "work_run (s\<lparr>running := n\<rparr>) (s\<lparr>running := 0\<rparr>)"
    using Suc.hyps(1) [of "s\<lparr>running := n\<rparr>"] Suc.prems by simp
  ultimately show ?case using Suc.hyps(2) [symmetric] by (simp add: converse_rtranclp_into_rtranclp)
qed

lemma workers_start:
  "\<not> panicked s \<Longrightarrow> leader s = LSpawning n \<Longrightarrow>
     work_run s (s\<lparr>running := running s + n, leader := LBlocked\<rparr>)"
proof (induction n arbitrary: s)
  case 0
  from lead_run [OF 0(1) spawned [OF 0(2)] rtranclp.rtrancl_refl] show ?case by simp
next
  case (Suc n)
  let ?t = "s\<lparr>running := Suc (running s), leader := LSpawning n\<rparr>"
  have "work_run ?t (s\<lparr>running := running s + Suc n, leader := LBlocked\<rparr>)"
    using Suc.IH [of ?t] Suc.prems(1) by simp
  with Suc.prems(1) spawn [OF Suc.prems(2)] show ?case by (rule lead_run)
qed

lemma blocked_ends:
  assumes "\<not> panicked s" "leader s = LBlocked" "stopper s = ClosedChan" "stranded s = 0"
  shows "work_run s (s\<lparr>queue_of := ShutQueue, leader := LReturned, running := 0\<rparr>)"
proof -
  let ?t = "s\<lparr>queue_of := ShutQueue, leader := LReturned\<rparr>"
  have "work_run ?t (?t\<lparr>running := 0\<rparr>)" using assms(1,4) by (intro workers_exit) simp_all
  then have "work_run ?t (s\<lparr>queue_of := ShutQueue, leader := LReturned, running := 0\<rparr>)" by simp
  with assms(1) unblocked [OF assms(2,3)] show ?thesis by (rule lead_run)
qed

lemma workers_end:
  assumes "life_inv s" "stopper s = ClosedChan" "stranded s = 0"
  obtains t where "work_run s t" "running t = 0" "stops t = stops s" "\<not> panicked t"
proof -
  have np: "\<not> panicked s" using assms(1) by (simp add: life_inv_def)
  consider "running s = 0" | n where "leader s = LSpawning n" | "leader s = LBlocked"
    | "queue_of s = ShutQueue"
    using assms(1) by (cases "leader s") (auto simp: life_inv_def)
  then show thesis
  proof cases
    case 1
    then show thesis using that [of s] np by simp
  next
    case (2 n)
    let ?t = "s\<lparr>running := running s + n, leader := LBlocked\<rparr>"
    have "work_run s ?t" using np 2 by (rule workers_start)
    moreover have "work_run ?t (?t\<lparr>queue_of := ShutQueue, leader := LReturned, running := 0\<rparr>)"
      using np assms(2,3) by (intro blocked_ends) simp_all
    ultimately have "work_run s (?t\<lparr>queue_of := ShutQueue, leader := LReturned, running := 0\<rparr>)"
      by (rule rtranclp_trans)
    then show thesis by (rule that) (use np in simp_all)
  next
    case 3
    from blocked_ends [OF np 3 assms(2,3)] show thesis by (rule that) (use np in simp_all)
  next
    case 4
    from workers_exit [OF np 4 assms(3)] show thesis by (rule that) (use np in simp_all)
  qed
qed

text \<open>With a stranded worker a call of \<open>stop\<close> in \<open>wg.Wait\<close> stays there.\<close>

lemma waits_for_stranded:
  assumes "life_inv s" "stops s i = SWait" "0 < stranded s" "life_step s t"
  shows "stops t i = SWait \<and> 0 < stranded t"
proof -
  have lock: "stopLock s = Some i" using life_inv_lock [OF assms(1), of i] assms(2) by (simp add: under_way_def)
  have run: "0 < running s" using life_invD(7) [OF assms(1)] assms(3) by simp
  from assms(4) consider "lead_step s t" | "worker_step s t" | j where "stop_step j s t"
    unfolding life_step_def by blast
  then show ?thesis
  proof cases
    case 1
    then show ?thesis using assms(2,3) by (cases rule: lead_step.cases) simp_all
  next
    case 2
    then show ?thesis using assms(2,3) by (cases rule: worker_step.cases) simp_all
  next
    case (3 j)
    have "j = i \<or> \<not> under_way (stops s j)" using life_inv_lock [OF assms(1), of j] lock by auto
    with 3 lock run assms(2,3) show ?thesis
      by (cases rule: stop_step.cases) (auto simp: under_way_def)
  qed
qed

text \<open>
  C31. Stopping ends, or never does: a call of \<open>stop\<close> that waits for the workers after the channel
  was closed can go on to its return as long as no worker is stranded, with the queue drained
  by the leader and no worker left; no other call of \<open>stop\<close> has to move for that. Once a worker
  is blocked for ever on the lock of a deployment, no continuation lets the call return: it
  stays in \<open>wg.Wait\<close> and holds \<open>stopLock\<close>.
\<close>

theorem stop_can_return:
  assumes "life_run life_init s" and "stops s i = SWait" and "stopper s = ClosedChan"
  shows "if stranded s = 0
    then \<exists>t. life_run s t \<and> stops t = (stops s)(i := SReturned) \<and> running t = 0 \<and> stopLock t = None
    else \<forall>t. life_run s t \<longrightarrow> stops t i = SWait \<and> stopLock t = Some i"
proof (cases "stranded s = 0")
  case True
  have "life_inv s" using assms(1) life_inv_init by (rule life_run_inv)
  then obtain t where t: "work_run s t" "running t = 0" "stops t = stops s" "\<not> panicked t"
    using assms(3) True by (rule workers_end)
  let ?u = "t\<lparr>stopLock := None, stops := (stops t)(i := SReturned)\<rparr>"
  have "stops t i = SWait" using assms(2) t(3) by simp
  from stop_run [OF t(4) all_done [OF this t(2)] rtranclp.rtrancl_refl] work_run_life [OF t(1)] have "life_run s ?u"
    by (rule rtranclp_trans [rotated])
  then show ?thesis using t(2,3) True by (simp, intro exI [of _ ?u]) simp
next
  case False
  have "life_inv t \<and> stops t i = SWait \<and> 0 < stranded t" if "life_run s t" for t
    using that
  proof (induction rule: rtranclp_induct)
    case base
    then show ?case using assms(2) False life_run_inv [OF assms(1) life_inv_init] by simp
  next
    case (step t u)
    then show ?case using waits_for_stranded [of t i u] life_step_inv [of t u] by blast
  qed
  then have "stops t i = SWait \<and> stopLock t = Some i" if "life_run s t" for t
    using that life_inv_lock [of t i] by (auto simp: under_way_def)
  with False show ?thesis by simp
qed

section \<open>Stopping too early\<close>

lemma lead_to_blocked:
  assumes "\<not> panicked s" "leader s = LIdle" "running s = 0"
  shows "work_run s (s\<lparr>stopper := OpenChan, queue_of := LiveQueue, running := 42, leader := LBlocked\<rparr>)"
proof -
  let ?a = "s\<lparr>stopper := OpenChan, leader := LSyncing\<rparr>"
  let ?b = "s\<lparr>stopper := OpenChan, leader := LSetup\<rparr>"
  let ?c = "s\<lparr>stopper := OpenChan, queue_of := LiveQueue, leader := LSpawning 42\<rparr>"
  have a: "lead_step s ?a" using assms(2) by (rule make_stopper)
  have b: "lead_step ?a ?b" using synced [of ?a] by simp
  have c: "lead_step ?b ?c" using set_up [of ?b] by simp
  have "work_run ?c (s\<lparr>stopper := OpenChan, queue_of := LiveQueue, running := 42, leader := LBlocked\<rparr>)"
    using workers_start [of ?c 42] assms(1,3) by simp
  then have "work_run ?b (s\<lparr>stopper := OpenChan, queue_of := LiveQueue, running := 42, leader := LBlocked\<rparr>)"
    using lead_run [OF _ c] assms(1) by simp
  then have "work_run ?a (s\<lparr>stopper := OpenChan, queue_of := LiveQueue, running := 42, leader := LBlocked\<rparr>)"
    using lead_run [OF _ b] assms(1) by simp
  then show ?thesis using lead_run [OF assms(1) a] by simp
qed







section \<open>Instances\<close>

text \<open>The leader runs its workers and one call of \<open>stop\<close> has closed the channel.\<close>

definition stopping :: lifecycle where
  "stopping = life_init\<lparr>stopper := ClosedChan, stopLock := Some 0, running := 42, queue_of := LiveQueue,
     leader := LBlocked, stops := (\<lambda>_. SIdle)(0 := SWait)\<rparr>"

lemma stopping_reached: "life_run life_init stopping"
proof -
  let ?s = "life_init\<lparr>stopper := OpenChan, queue_of := LiveQueue, running := 42, leader := LBlocked\<rparr>"
  let ?a = "?s\<lparr>stopLock := Some 0, stops := (\<lambda>_. SIdle)(0 := SSelect)\<rparr>"
  let ?b = "?s\<lparr>stopLock := Some 0, stops := (\<lambda>_. SIdle)(0 := SClose)\<rparr>"
  have "life_run life_init ?s" by (rule work_run_life, rule lead_to_blocked) (simp_all add: life_init_def)
  moreover have "stop_step 0 ?s ?a" using stop_lock [of ?s 0] by (simp add: life_init_def)
  moreover have "stop_step 0 ?a ?b" using not_closed [of ?a 0] by simp
  moreover have "stop_step 0 ?b stopping" using close_open [of ?b 0] by (simp add: stopping_def life_init_def)
  ultimately show ?thesis
    using stop_run [of ?s 0 ?a stopping] stop_run [of ?a 0 ?b stopping] stop_run [of ?b 0 stopping stopping]
    by (simp add: life_init_def rtranclp_trans)
qed

theorem stopper_closed_once_witness:
  "\<not> panicked stopping \<and> \<not> (under_way (stops stopping 0) \<and> under_way (stops stopping 1)) \<and>
    NilChan \<le> stopper stopping"
  using stopper_closed_once [OF rtranclp.rtrancl_refl stopping_reached, of 0 1] by (simp add: life_init_def)

text \<open>The same with one worker stranded.\<close>

definition stopping_stranded :: lifecycle where
  "stopping_stranded = stopping\<lparr>stranded := 1\<rparr>"

lemma stopping_stranded_reached: "life_run life_init stopping_stranded"
proof -
  have "worker_step stopping stopping_stranded"
    using worker_strands [of stopping] by (simp add: stopping_stranded_def stopping_def life_init_def)
  then have "life_step stopping stopping_stranded"
    by (simp add: life_step_def stopping_def life_init_def)
  with stopping_reached show ?thesis by (rule rtranclp.rtrancl_into_rtrancl)
qed

theorem stop_can_return_witness:
  "(\<exists>t. life_run stopping t \<and> stops t = (\<lambda>_. SIdle)(0 := SReturned) \<and> running t = 0 \<and> stopLock t = None) \<and>
   (\<nexists>t. life_run stopping_stranded t \<and> (stops t 0, stopLock t) \<noteq> (SWait, Some 0))"
proof
  have s: "stops stopping 0 = SWait" "stopper stopping = ClosedChan" "stranded stopping = 0"
    "stops stopping = (\<lambda>_. SIdle)(0 := SWait)"
    by (simp_all add: stopping_def life_init_def)
  from stop_can_return [OF stopping_reached s(1,2)]
  show "\<exists>t. life_run stopping t \<and> stops t = (\<lambda>_. SIdle)(0 := SReturned) \<and> running t = 0 \<and> stopLock t = None"
    unfolding s(4) using s(3) by simp
  have "stops stopping_stranded 0 = SWait" "stopper stopping_stranded = ClosedChan" "stranded stopping_stranded = 1"
    using s by (simp_all add: stopping_stranded_def)
  then show "\<nexists>t. life_run stopping_stranded t \<and> (stops t 0, stopLock t) \<noteq> (SWait, Some 0)"
    using stop_can_return [OF stopping_stranded_reached, of 0] by simp
qed

end
