(* ===== verification/Servers.thy ===== *)
theory Servers
  imports GoStd
begin

text \<open>
  The probe and metrics servers of the operator (cmd/transflect-operator/auxservers.go): their
  addresses and routes, and how \<open>start\<close> turns the error of \<open>ListenAndServe\<close> into its own. Routes
  are patterns without a trailing slash, which \<open>http.ServeMux\<close> matches exactly. The handler
  \<open>promhttp.Handler()\<close> is a parameter.
\<close>

record http_response =
  status :: nat
  body :: string

type_synonym handler = "http_response"

record http_server =
  hs_Addr :: string
  hs_Handler :: "(string \<times> handler) list"
  hs_name :: string

text \<open>\<open>fmt.Sprintf(":%d", port)\<close>\<close>

definition listen_addr :: "64 word \<Rightarrow> string" where
  "listen_addr port = '':'' @ show_nat (unat port)"

definition ok_handler :: handler where
  "ok_handler = \<lparr>status = 200, body = ''OK''\<rparr>"

definition newProbesServer :: "64 word \<Rightarrow> http_server" where
  "newProbesServer port =
     \<lparr>hs_Addr = listen_addr port,
      hs_Handler = [(''/_liveness'', ok_handler), (''/_readiness'', ok_handler)],
      hs_name = ''probes''\<rparr>"

definition newMetricsServer :: "handler \<Rightarrow> 64 word \<Rightarrow> http_server" where
  "newMetricsServer promhttp_Handler port =
     \<lparr>hs_Addr = listen_addr port, hs_Handler = [(''/metrics'', promhttp_Handler)], hs_name = ''metrics''\<rparr>"

text \<open>The answer of a server to a request for a path.\<close>

definition ServeHTTP :: "http_server \<Rightarrow> string \<Rightarrow> http_response" where
  "ServeHTTP srv path =
     (case map_of (hs_Handler srv) path of
        Some h \<Rightarrow> h
      | None \<Rightarrow> \<lparr>status = 404, body = ''404 page not found''\<rparr>)"

text \<open>What \<open>start\<close> returns for the error that \<open>ListenAndServe\<close> returned, which is never nil.\<close>

definition ErrServerClosed :: goerr where
  "ErrServerClosed = ExtError ''http: Server closed''"

fun errors_Is :: "goerr \<Rightarrow> goerr \<Rightarrow> bool" where
  "errors_Is (WrapError msg cause) target = (WrapError msg cause = target \<or> errors_Is cause target)"
| "errors_Is err target = (err = target)"

definition server_start :: "http_server \<Rightarrow> goerr \<Rightarrow> goerr option" where
  "server_start srv err =
     (if \<not> errors_Is err ErrServerClosed
      then Some (WrapError (''cannot start '' @ hs_name srv @ '' server'') err)
      else None)"

lemma server_start_closed [simp]: "server_start srv ErrServerClosed = None"
  by (simp add: server_start_def ErrServerClosed_def)

lemma probes_answer:
  "ServeHTTP (newProbesServer port) path =
     (if path = ''/_liveness'' \<or> path = ''/_readiness'' then ok_handler
      else \<lparr>status = 404, body = ''404 page not found''\<rparr>)"
  by (simp add: ServeHTTP_def newProbesServer_def)

end
