(* ===== verification/Process.thy ===== *)
theory Process
  imports Lifecycle Servers
begin

text \<open>
  The operator process (\<open>run\<close> and \<open>handleSignals\<close> in cmd/transflect-operator/main.go, \<open>start\<close> and
  \<open>stopOnCancel\<close> of the servers in auxservers.go, and \<open>start\<close> with its leader election callbacks
  in operator.go) as a system of goroutines on top of the theory Lifecycle: four functions run in
  an error group, each server has a goroutine that shuts it down, and the election calls
  \<open>OnStartedLeading\<close> in a goroutine of its own and \<open>OnStoppedLeading\<close> before it returns.

  The error group and the leader election are libraries, so what they do is a parameter: when the
  group has cancelled its context, what \<open>Wait\<close> returns, and which event of the election may come
  next, given those that came and whether its context is cancelled.
\<close>

section \<open>The libraries\<close>

datatype election_event = EStarted | EReleased | EStopped | EReturned

record libraries =
  ContextCancelled :: "goerr option list \<Rightarrow> bool"
  GroupWait :: "goerr option list \<Rightarrow> goerr option"
  Election :: "election_event list \<Rightarrow> bool \<Rightarrow> election_event \<Rightarrow> bool"

text \<open>
  Package errgroup: the context is cancelled the first time a function returns a non-nil error,
  and \<open>Wait\<close> returns the first non-nil error if any. The results are in the order of the returns.
\<close>

definition errgroup_documented :: "libraries \<Rightarrow> bool" where
  "errgroup_documented L \<longleftrightarrow>
     (\<forall>rs. ContextCancelled L rs \<longleftrightarrow> (\<exists>e. Some e \<in> set rs)) \<and>
     (\<forall>rs. GroupWait L rs = (case dropWhile (\<lambda>r. r = None) rs of [] \<Rightarrow> None | r # _ \<Rightarrow> r))"

text \<open>
  Package leaderelection: the election stops when its context is cancelled. When it stops it
  calls \<open>OnStoppedLeading\<close>, once, and returns after that.
\<close>

definition election_stops :: "libraries \<Rightarrow> bool" where
  "election_stops L \<longleftrightarrow>
     (\<forall>h. EReturned \<notin> set h \<longrightarrow> Election L h True (if EStopped \<in> set h then EReturned else EStopped))"

text \<open>
  A client may win the election, and it may lose the lease, its context not cancelled. With
  \<open>ReleaseOnCancel\<close> the lease is given up once the context is cancelled, before the callback.
\<close>

definition lease_can_be_lost :: "libraries \<Rightarrow> bool" where
  "lease_can_be_lost L \<longleftrightarrow> Election L [] False EStarted \<and> Election L [EStarted] False EStopped \<and>
     Election L [EStarted, EStopped] False EReturned"

definition releases_on_cancel :: "libraries \<Rightarrow> bool" where
  "releases_on_cancel L \<longleftrightarrow> Election L [] False EStarted \<and> Election L [EStarted] True EReleased"

section \<open>The state\<close>

datatype group_fn = ProbesFn | MetricsFn | OperatorFn | SignalsFn

text \<open>Where the callback \<open>OnStartedLeading\<close> is, and where \<open>OnStoppedLeading\<close>.\<close>

datatype started_pc = NotStarted | Starting | Leading | StopFailed | Started
datatype stopped_pc = NotStopped | Stopping | Stopped

record process =
  life :: lifecycle
  shut :: "group_fn \<Rightarrow> bool"
  result :: "group_fn \<Rightarrow> goerr option option"
  results :: "goerr option list"
  signalled :: bool
  history :: "election_event list"
  on_started :: started_pc
  on_stopped :: stopped_pc
  start_err :: "goerr option"
  start_cancelled :: bool
  leader_gauge :: int
  exit_code :: "int option"

definition process_init :: process where
  "process_init =
     \<lparr>life = life_init, shut = (\<lambda>_. False), result = (\<lambda>_. None), results = [], signalled = False,
      history = [], on_started = NotStarted, on_stopped = NotStopped, start_err = None,
      start_cancelled = False, leader_gauge = 0, exit_code = None\<rparr>"

definition errSignal :: goerr where
  "errSignal = ErrorString ''received shutdown signal''"

text \<open>A function of the group returns.\<close>

definition fn_returns :: "group_fn \<Rightarrow> goerr option \<Rightarrow> process \<Rightarrow> process" where
  "fn_returns f r s = s\<lparr>result := (result s)(f \<mapsto> r), results := results s @ [r]\<rparr>"

text \<open>
  The end of \<open>run\<close>: the error of the group is logged, unless it is the signal, and dropped; \<open>main\<close>
  exits with status 1 only for an error of \<open>run\<close>.
\<close>

definition run_end :: "goerr option \<Rightarrow> bool \<times> goerr option" where
  "run_end err = ((case err of None \<Rightarrow> False | Some e \<Rightarrow> \<not> errors_Is e errSignal), None)"

definition main_exit :: "goerr option \<Rightarrow> int" where
  "main_exit err = (case err of None \<Rightarrow> 0 | Some e \<Rightarrow> 1)"

section \<open>Steps of the program\<close>

text \<open>
  The servers: \<open>stopOnCancel\<close> waits for the context and calls \<open>Shutdown\<close>, after which
  \<open>ListenAndServe\<close> returns.
\<close>

inductive server_step :: "libraries \<Rightarrow> (group_fn \<Rightarrow> http_server) \<Rightarrow> process \<Rightarrow> process \<Rightarrow> bool" for L srv where
  server_shutdown: "f \<in> {ProbesFn, MetricsFn} \<Longrightarrow> ContextCancelled L (results s) \<Longrightarrow> \<not> shut s f \<Longrightarrow>
    server_step L srv s (s\<lparr>shut := (shut s)(f := True)\<rparr>)"
| server_closed: "f \<in> {ProbesFn, MetricsFn} \<Longrightarrow> shut s f \<Longrightarrow> result s f = None \<Longrightarrow>
    server_step L srv s (fn_returns f (server_start (srv f) ErrServerClosed) s)"

text \<open>\<open>handleSignals\<close>; when both are ready the \<open>select\<close> takes either.\<close>

inductive signal_step :: "libraries \<Rightarrow> process \<Rightarrow> process \<Rightarrow> bool" for L where
  signal_received: "result s SignalsFn = None \<Longrightarrow> signalled s \<Longrightarrow>
    signal_step L s (fn_returns SignalsFn (Some errSignal) s)"
| signal_cancelled: "result s SignalsFn = None \<Longrightarrow> ContextCancelled L (results s) \<Longrightarrow>
    signal_step L s (fn_returns SignalsFn None s)"

text \<open>
  The goroutine of \<open>OnStartedLeading\<close>: \<open>startLeading\<close>, and on its error \<open>stop\<close> (its call number 0)
  and \<open>cancel\<close>. The callback \<open>OnStoppedLeading\<close> with its call number 1 of \<open>stop\<close>. The workers.
\<close>

inductive operator_step :: "process \<Rightarrow> process \<Rightarrow> bool" where
  started_gauge: "on_started s = Starting \<Longrightarrow>
    operator_step s (s\<lparr>leader_gauge := 1, on_started := Leading\<rparr>)"
| leads: "on_started s = Leading \<Longrightarrow> lead_step (life s) l \<Longrightarrow> operator_step s (s\<lparr>life := l\<rparr>)"
| works: "worker_step (life s) l \<Longrightarrow> operator_step s (s\<lparr>life := l\<rparr>)"
| lead_returned: "on_started s = Leading \<Longrightarrow> leader (life s) = LReturned \<Longrightarrow>
    operator_step s (s\<lparr>start_err := None, on_started := Started\<rparr>)"
| lead_failed: "on_started s = Leading \<Longrightarrow> leader (life s) = LFailed \<Longrightarrow>
    operator_step s (s\<lparr>start_err := Some err, on_started := StopFailed\<rparr>)"
| stops_failed: "on_started s = StopFailed \<Longrightarrow> stop_step 0 (life s) l \<Longrightarrow>
    operator_step s (s\<lparr>life := l\<rparr>)"
| failed_cancel: "on_started s = StopFailed \<Longrightarrow> stops (life s) 0 = SReturned \<Longrightarrow>
    operator_step s (s\<lparr>start_cancelled := True, on_started := Started\<rparr>)"
| stops_lead: "on_stopped s = Stopping \<Longrightarrow> stop_step 1 (life s) l \<Longrightarrow> operator_step s (s\<lparr>life := l\<rparr>)"
| stopped_leading: "on_stopped s = Stopping \<Longrightarrow> stops (life s) 1 = SReturned \<Longrightarrow>
    operator_step s (s\<lparr>on_stopped := Stopped\<rparr>)"

text \<open>The events of the election, in the call of \<open>RunOrDie\<close>.\<close>

definition election_cancelled :: "libraries \<Rightarrow> process \<Rightarrow> bool" where
  "election_cancelled L s \<longleftrightarrow> start_cancelled s \<or> ContextCancelled L (results s)"

definition election_may :: "libraries \<Rightarrow> process \<Rightarrow> election_event \<Rightarrow> bool" where
  "election_may L s e \<longleftrightarrow> result s OperatorFn = None \<and> Election L (history s) (election_cancelled L s) e"

inductive election_step :: "libraries \<Rightarrow> process \<Rightarrow> process \<Rightarrow> bool" for L where
  elected: "election_may L s EStarted \<Longrightarrow> on_started s = NotStarted \<Longrightarrow>
    election_step L s (s\<lparr>history := history s @ [EStarted], on_started := Starting\<rparr>)"
| released: "election_may L s EReleased \<Longrightarrow> election_step L s (s\<lparr>history := history s @ [EReleased]\<rparr>)"
| election_stopped: "election_may L s EStopped \<Longrightarrow> on_stopped s = NotStopped \<Longrightarrow>
    election_step L s (s\<lparr>history := history s @ [EStopped], leader_gauge := 0, on_stopped := Stopping\<rparr>)"
| election_returned: "election_may L s EReturned \<Longrightarrow> on_stopped s = Stopped \<Longrightarrow>
    election_step L s (fn_returns OperatorFn (start_err s) (s\<lparr>history := history s @ [EReturned]\<rparr>))"

text \<open>\<open>run\<close> goes on when the four functions have returned.\<close>

inductive exit_step :: "libraries \<Rightarrow> process \<Rightarrow> process \<Rightarrow> bool" for L where
  exits: "exit_code s = None \<Longrightarrow> (\<forall>f. result s f \<noteq> None) \<Longrightarrow>
    exit_step L s (s\<lparr>exit_code := Some (main_exit (snd (run_end (GroupWait L (results s)))))\<rparr>)"

text \<open>What comes from outside: a signal, and a server that cannot listen.\<close>

inductive outside_step :: "(group_fn \<Rightarrow> http_server) \<Rightarrow> process \<Rightarrow> process \<Rightarrow> bool" for srv where
  signal: "\<not> signalled s \<Longrightarrow> outside_step srv s (s\<lparr>signalled := True\<rparr>)"
| server_failed: "f \<in> {ProbesFn, MetricsFn} \<Longrightarrow> result s f = None \<Longrightarrow> \<not> errors_Is err ErrServerClosed \<Longrightarrow>
    outside_step srv s (fn_returns f (server_start (srv f) err) s)"

inductive_cases outside_stepE: "outside_step srv s t"

text \<open>What the program and its libraries do by themselves, and all that can happen.\<close>

definition own_step :: "libraries \<Rightarrow> (group_fn \<Rightarrow> http_server) \<Rightarrow> process \<Rightarrow> process \<Rightarrow> bool" where
  "own_step L srv s t \<longleftrightarrow> exit_code s = None \<and>
     (server_step L srv s t \<or> signal_step L s t \<or> operator_step s t \<or> election_step L s t \<or> exit_step L s t)"

definition process_step :: "libraries \<Rightarrow> (group_fn \<Rightarrow> http_server) \<Rightarrow> process \<Rightarrow> process \<Rightarrow> bool" where
  "process_step L srv s t \<longleftrightarrow> own_step L srv s t \<or> exit_code s = None \<and> outside_step srv s t"

abbreviation own_run where "own_run L srv \<equiv> (own_step L srv)\<^sup>*\<^sup>*"
abbreviation process_run where "process_run L srv \<equiv> (process_step L srv)\<^sup>*\<^sup>*"

definition servers_of :: "handler \<Rightarrow> 64 word \<Rightarrow> 64 word \<Rightarrow> group_fn \<Rightarrow> http_server" where
  "servers_of prom probesPort metricsPort f =
     (if f = ProbesFn then newProbesServer probesPort else newMetricsServer prom metricsPort)"

section \<open>The invariant\<close>

text \<open>
  The life cycle invariant; the program counters of the callbacks fit the leader and the calls of
  \<open>stop\<close>, of which only the calls 0 and 1 are made, and of these the second has closed the channel
  unless the leader failed; \<open>cancel\<close> was called only when the leader failed;
  the operator's function returns only after the callback \<open>OnStoppedLeading\<close>; the exit status is 0.
\<close>

fun leader_fits :: "started_pc \<Rightarrow> leader_pc \<Rightarrow> bool" where
  "leader_fits NotStarted pc \<longleftrightarrow> pc = LIdle"
| "leader_fits Starting pc \<longleftrightarrow> pc = LIdle"
| "leader_fits Leading pc \<longleftrightarrow> True"
| "leader_fits StopFailed pc \<longleftrightarrow> pc = LFailed"
| "leader_fits Started pc \<longleftrightarrow> pc = LReturned \<or> pc = LFailed"

fun stop_fits :: "stopped_pc \<Rightarrow> stop_pc \<Rightarrow> bool" where
  "stop_fits NotStopped pc \<longleftrightarrow> pc = SIdle"
| "stop_fits Stopping pc \<longleftrightarrow> True"
| "stop_fits Stopped pc \<longleftrightarrow> pc = SReturned"

definition first_stop_fits :: "started_pc \<Rightarrow> stop_pc \<Rightarrow> bool" where
  "first_stop_fits a pc \<longleftrightarrow> a = StopFailed \<or> \<not> under_way pc"

definition cancel_fits :: "bool \<Rightarrow> leader_pc \<Rightarrow> bool" where
  "cancel_fits c pc \<longleftrightarrow> \<not> c \<or> pc = LFailed"

definition two_stops :: "lifecycle \<Rightarrow> bool" where
  "two_stops l \<longleftrightarrow> (\<forall>i. stops l i = SIdle \<or> i = 0 \<or> i = 1)"

definition closer_fits :: "lifecycle \<Rightarrow> bool" where
  "closer_fits l \<longleftrightarrow> stopper l = ClosedChan \<longrightarrow>
     leader l = LFailed \<or> stops l 1 = SWait \<or> stops l 1 = SReturned"

definition callbacks_inv :: "lifecycle \<Rightarrow> started_pc \<Rightarrow> stopped_pc \<Rightarrow> bool \<Rightarrow> bool" where
  "callbacks_inv l a b c \<longleftrightarrow> life_inv l \<and> leader_fits a (leader l) \<and> cancel_fits c (leader l) \<and>
     two_stops l \<and> first_stop_fits a (stops l 0) \<and> stop_fits b (stops l 1) \<and> closer_fits l"

definition history_inv :: "election_event list \<Rightarrow> stopped_pc \<Rightarrow> goerr option option \<Rightarrow> bool" where
  "history_inv h b r \<longleftrightarrow> (EStopped \<in> set h) = (b \<noteq> NotStopped) \<and> (EReturned \<notin> set h \<or> r \<noteq> None) \<and>
     (r = None \<or> b = Stopped)"

definition exit_inv :: "int option \<Rightarrow> (group_fn \<Rightarrow> goerr option option) \<Rightarrow> bool" where
  "exit_inv e r \<longleftrightarrow> e = None \<or> e = Some 0 \<and> (\<forall>f. r f \<noteq> None)"

definition process_inv :: "process \<Rightarrow> bool" where
  "process_inv s \<longleftrightarrow> callbacks_inv (life s) (on_started s) (on_stopped s) (start_cancelled s) \<and>
     history_inv (history s) (on_stopped s) (result s OperatorFn) \<and> exit_inv (exit_code s) (result s)"

lemma process_inv_init: "process_inv process_init"
  using life_inv_init
  by (simp add: process_inv_def callbacks_inv_def history_inv_def exit_inv_def process_init_def
      life_init_def under_way_def cancel_fits_def two_stops_def first_stop_fits_def closer_fits_def)

lemma process_invD:
  assumes "process_inv s"
  shows "life_inv (life s)" "callbacks_inv (life s) (on_started s) (on_stopped s) (start_cancelled s)"
    "history_inv (history s) (on_stopped s) (result s OperatorFn)" "exit_inv (exit_code s) (result s)"
  using assms by (simp_all add: process_inv_def callbacks_inv_def)

text \<open>What the steps of the life cycle leave alone.\<close>

lemma lead_step_frame: "lead_step l m \<Longrightarrow> stops m = stops l \<and> leader l \<noteq> LFailed \<and> leader l \<noteq> LReturned"
  by (induction rule: lead_step.induct) simp_all

lemma lead_step_stopper: "lead_step l m \<Longrightarrow> stopper m = stopper l \<or> stopper m = OpenChan"
  by (induction rule: lead_step.induct) simp_all

lemma worker_step_frame:
  "worker_step l m \<Longrightarrow> stops m = stops l \<and> leader m = leader l \<and> stopper m = stopper l"
  by (induction rule: worker_step.induct) simp_all

lemma stop_step_frame: "stop_step i l m \<Longrightarrow> leader m = leader l \<and> (\<forall>j. j \<noteq> i \<longrightarrow> stops m j = stops l j)"
  by (induction rule: stop_step.induct) simp_all

lemma stop_step_returned: "stop_step i l m \<Longrightarrow> stops l i \<noteq> SReturned"
  by (induction rule: stop_step.induct) simp_all

lemma first_closer: "leader l = LFailed \<Longrightarrow> stop_step 0 l m \<Longrightarrow> closer_fits m"
  using stop_step_frame [of 0 l m] by (simp add: closer_fits_def)

lemma second_closer: "closer_fits l \<Longrightarrow> stop_step 1 l m \<Longrightarrow> closer_fits m"
  unfolding closer_fits_def by (erule stop_step.cases) auto

lemma two_stops_step:
  assumes "two_stops l" "stop_step i l m" "i = 0 \<or> i = 1"
  shows "two_stops m"
  using assms stop_step_frame [OF assms(2)] unfolding two_stops_def by metis

lemma not_under_way [simp]: "\<not> under_way SIdle" "\<not> under_way SReturned"
  by (simp_all add: under_way_def)

lemma fn_returns_simps [simp]:
  "life (fn_returns f r s) = life s" "on_started (fn_returns f r s) = on_started s"
  "on_stopped (fn_returns f r s) = on_stopped s" "start_cancelled (fn_returns f r s) = start_cancelled s"
  "history (fn_returns f r s) = history s" "exit_code (fn_returns f r s) = exit_code s"
  "result (fn_returns f r s) = (result s)(f \<mapsto> r)" "results (fn_returns f r s) = results s @ [r]"
  "signalled (fn_returns f r s) = signalled s" "shut (fn_returns f r s) = shut s"
  "start_err (fn_returns f r s) = start_err s" "leader_gauge (fn_returns f r s) = leader_gauge s"
  by (simp_all add: fn_returns_def)

lemma fn_returns_inv:
  "f \<noteq> OperatorFn \<Longrightarrow> exit_code s = None \<Longrightarrow> process_inv s \<Longrightarrow> process_inv (fn_returns f r s)"
  by (simp add: process_inv_def history_inv_def exit_inv_def)

lemma server_step_inv: "server_step L srv s t \<Longrightarrow> exit_code s = None \<Longrightarrow> process_inv s \<Longrightarrow> process_inv t"
  by (induction rule: server_step.induct) (auto intro!: fn_returns_inv, simp_all add: process_inv_def)

lemma signal_step_inv: "signal_step L s t \<Longrightarrow> exit_code s = None \<Longrightarrow> process_inv s \<Longrightarrow> process_inv t"
  by (induction rule: signal_step.induct) (auto intro!: fn_returns_inv)

lemma election_step_inv: "election_step L s t \<Longrightarrow> exit_code s = None \<Longrightarrow> process_inv s \<Longrightarrow> process_inv t"
proof (induction rule: election_step.induct)
  case (election_returned s)
  then show ?case by (simp add: process_inv_def history_inv_def exit_inv_def)
qed (auto simp: process_inv_def history_inv_def callbacks_inv_def first_stop_fits_def)

lemma exit_step_inv: "exit_step L s t \<Longrightarrow> process_inv s \<Longrightarrow> process_inv t"
  by (induction rule: exit_step.induct) (simp add: process_inv_def exit_inv_def run_end_def main_exit_def)

lemma outside_step_inv: "outside_step srv s t \<Longrightarrow> exit_code s = None \<Longrightarrow> process_inv s \<Longrightarrow> process_inv t"
  by (induction rule: outside_step.induct) (auto intro!: fn_returns_inv, simp_all add: process_inv_def)

lemma callbacks_step:
  "callbacks_inv l Leading b c \<Longrightarrow> lead_step l m \<Longrightarrow> callbacks_inv m Leading b c"
  "callbacks_inv l a b c \<Longrightarrow> worker_step l m \<Longrightarrow> callbacks_inv m a b c"
  "callbacks_inv l StopFailed b c \<Longrightarrow> stop_step 0 l m \<Longrightarrow> callbacks_inv m StopFailed b c"
  "callbacks_inv l a Stopping c \<Longrightarrow> stop_step 1 l m \<Longrightarrow> callbacks_inv m a Stopping c"
proof -
  assume i: "callbacks_inv l Leading b c" and t: "lead_step l m"
  then show "callbacks_inv m Leading b c"
    using lead_step_inv [OF t] lead_step_frame [OF t]
      lead_step_stopper [OF t]
    by (auto simp: callbacks_inv_def cancel_fits_def two_stops_def closer_fits_def)
next
  assume i: "callbacks_inv l a b c" and t: "worker_step l m"
  then show "callbacks_inv m a b c"
    using worker_step_inv [OF t] worker_step_frame [OF t]
    by (simp add: callbacks_inv_def two_stops_def closer_fits_def)
next
  assume i: "callbacks_inv l StopFailed b c" and t: "stop_step 0 l m"
  then show "callbacks_inv m StopFailed b c"
    using stop_step_inv [OF t] stop_step_frame [OF t] two_stops_step [OF _ t] first_closer [OF _ t]
    by (auto simp: callbacks_inv_def first_stop_fits_def)
next
  assume i: "callbacks_inv l a Stopping c" and t: "stop_step 1 l m"
  then show "callbacks_inv m a Stopping c"
    using stop_step_inv [OF t] stop_step_frame [OF t] two_stops_step [OF _ t] second_closer [OF _ t]
    by (simp add: callbacks_inv_def)
qed

lemma operator_step_inv: "operator_step s t \<Longrightarrow> process_inv s \<Longrightarrow> process_inv t"
proof (induction rule: operator_step.induct)
  case (leads s l)
  then show ?case using callbacks_step(1) by (auto simp: process_inv_def)
next
  case (works s l)
  then show ?case using callbacks_step(2) by (auto simp: process_inv_def)
next
  case (stops_failed s l)
  then show ?case using callbacks_step(3) by (auto simp: process_inv_def)
next
  case (stops_lead s l)
  then show ?case using callbacks_step(4) by (auto simp: process_inv_def)
qed (auto simp: process_inv_def callbacks_inv_def history_inv_def cancel_fits_def first_stop_fits_def)

lemma process_step_inv: "process_step L srv s t \<Longrightarrow> process_inv s \<Longrightarrow> process_inv t"
  unfolding process_step_def own_step_def
  using server_step_inv signal_step_inv operator_step_inv election_step_inv exit_step_inv outside_step_inv by blast

lemma process_run_inv: "process_run L srv s t \<Longrightarrow> process_inv s \<Longrightarrow> process_inv t"
  by (induction rule: rtranclp_induct) (auto intro: process_step_inv)

lemma own_run_process: "own_run L srv s t \<Longrightarrow> process_run L srv s t"
  by (erule rtranclp_mono [THEN predicate2D, rotated]) (auto simp: process_step_def)

section \<open>Shutting down\<close>



































section \<open>The lease\<close>

lemma own_works:
  assumes "work_run l m" "on_started s = Leading" "exit_code s = None"
  shows "own_run L srv (s\<lparr>life := l\<rparr>) (s\<lparr>life := m\<rparr>)"
  using assms(1)
proof (induction rule: rtranclp_induct)
  case (step k m)
  then have "operator_step (s\<lparr>life := k\<rparr>) (s\<lparr>life := m\<rparr>)"
    using leads [of "s\<lparr>life := k\<rparr>" m] works [of "s\<lparr>life := k\<rparr>" m] assms(2) by (auto simp: work_step_def)
  then have "own_step L srv (s\<lparr>life := k\<rparr>) (s\<lparr>life := m\<rparr>)" using assms(3) by (simp add: own_step_def)
  with step.IH show ?case by (rule rtranclp.rtrancl_into_rtrancl)
qed simp

text \<open>The process leads, its workers run.\<close>

definition leading_life :: lifecycle where
  "leading_life = life_init\<lparr>stopper := OpenChan, queue_of := LiveQueue, running := 42, leader := LBlocked\<rparr>"

definition leading_process :: process where
  "leading_process = process_init\<lparr>history := [EStarted], leader_gauge := 1, on_started := Leading,
     life := leading_life\<rparr>"

lemma leading_reached:
  assumes "errgroup_documented L" "Election L [] False EStarted"
  shows "own_run L srv process_init leading_process"
proof -
  let ?a = "process_init\<lparr>history := [EStarted], on_started := Starting\<rparr>"
  let ?b = "process_init\<lparr>history := [EStarted], leader_gauge := 1, on_started := Leading\<rparr>"
  have "\<not> ContextCancelled L []" using assms(1) by (simp add: errgroup_documented_def)
  then have "election_may L process_init EStarted"
    using assms(2) by (simp add: election_may_def election_cancelled_def process_init_def)
  from elected [OF this] have "own_step L srv process_init ?a"
    by (simp add: own_step_def process_init_def)
  moreover have "own_step L srv ?a ?b"
    using started_gauge [of ?a] by (simp add: own_step_def process_init_def)
  moreover have "work_run life_init leading_life"
    unfolding leading_life_def by (rule lead_to_blocked) (simp_all add: life_init_def)
  from own_works [OF this, of ?b L srv] have "own_run L srv ?b leading_process"
    by (simp add: leading_process_def process_init_def)
  ultimately show ?thesis by (meson converse_rtranclp_into_rtranclp)
qed

text \<open>
  C12. Handing over: when the process is told to stop, its election gives the lease up as soon as
  the context is cancelled, while all 42 workers still run and nobody has called \<open>stop\<close>; another
  process can become leader and both update the same filters. Only after an error of
  \<open>startLeading\<close> the order is the one the code asks for: \<open>cancel\<close> is called when no worker runs.
\<close>

theorem lease_released_before_workers_stop:
  assumes "errgroup_documented L" and "releases_on_cancel L"
  shows "(\<exists>s. process_run L srv process_init s \<and> EReleased \<in> set (history s) \<and>
      running (life s) = 42 \<and> queue_of (life s) = LiveQueue \<and> on_stopped s = NotStopped) \<and>
    (\<forall>s. process_run L srv process_init s \<longrightarrow> start_cancelled s \<longrightarrow> running (life s) = 0)"
proof
  let ?s = leading_process
  let ?a = "?s\<lparr>signalled := True\<rparr>"
  let ?b = "fn_returns SignalsFn (Some errSignal) ?a"
  let ?c = "?b\<lparr>history := history ?b @ [EReleased]\<rparr>"
  have "process_run L srv process_init ?s"
    using leading_reached assms by (intro own_run_process) (simp add: releases_on_cancel_def)
  moreover have "process_step L srv ?s ?a"
    using signal [of ?s srv] by (simp add: process_step_def leading_process_def process_init_def)
  moreover have "process_step L srv ?a ?b"
    using signal_received [of ?a L]
    by (simp add: process_step_def own_step_def leading_process_def process_init_def)
  moreover have "ContextCancelled L [Some errSignal]" using assms(1) by (simp add: errgroup_documented_def)
  then have "election_may L ?b EReleased"
    using assms(2) by (simp add: election_may_def election_cancelled_def releases_on_cancel_def
        leading_process_def process_init_def)
  from released [OF this] have "process_step L srv ?b ?c"
    by (simp add: process_step_def own_step_def leading_process_def process_init_def)
  ultimately have "process_run L srv process_init ?c" by (meson rtranclp.rtrancl_into_rtrancl)
  then show "\<exists>s. process_run L srv process_init s \<and> EReleased \<in> set (history s) \<and>
      running (life s) = 42 \<and> queue_of (life s) = LiveQueue \<and> on_stopped s = NotStopped"
    by (rule exI [of _ ?c, OF conjI]) (simp add: leading_process_def leading_life_def process_init_def)
next
  have "running (life s) = 0" if "process_run L srv process_init s" "start_cancelled s" for s
  proof -
    have "callbacks_inv (life s) (on_started s) (on_stopped s) True"
      using process_invD(2) [OF process_run_inv [OF that(1) process_inv_init]] that(2) by simp
    then show ?thesis using life_invD(5) by (auto simp: callbacks_inv_def cancel_fits_def)
  qed
  then show "\<forall>s. process_run L srv process_init s \<longrightarrow> start_cancelled s \<longrightarrow> running (life s) = 0" by blast
qed

section \<open>Losing the lease\<close>









section \<open>Instances\<close>

text \<open>Libraries that behave as documented: an election that is won, and lost or released.\<close>

definition sample_libraries :: libraries where
  "sample_libraries =
     \<lparr>ContextCancelled = (\<lambda>rs. list_ex (\<lambda>r. r \<noteq> None) rs),
      GroupWait = (\<lambda>rs. case dropWhile (\<lambda>r. r = None) rs of [] \<Rightarrow> None | r # _ \<Rightarrow> r),
      Election = (\<lambda>h cancelled e. case e of
         EStarted \<Rightarrow> h = [] \<and> \<not> cancelled
       | EReleased \<Rightarrow> cancelled \<and> EReleased \<notin> set h
       | EStopped \<Rightarrow> EStopped \<notin> set h
       | EReturned \<Rightarrow> EStopped \<in> set h)\<rparr>"

lemma sample_documented:
  "errgroup_documented sample_libraries" "election_stops sample_libraries"
  "lease_can_be_lost sample_libraries" "releases_on_cancel sample_libraries"
  by (auto simp: errgroup_documented_def election_stops_def lease_can_be_lost_def releases_on_cancel_def
      sample_libraries_def list_ex_iff)






theorem lease_released_before_workers_stop_witness:
  "\<exists>s. process_run sample_libraries (servers_of ok_handler 8080 9090) process_init s \<and>
    EReleased \<in> set (history s) \<and> running (life s) = 42"
  using lease_released_before_workers_stop [OF sample_documented(1,4)] by blast


end
