(* ===== verification/Setup.thy ===== *)
theory Setup
  imports Process Upsert
begin

text \<open>
  How the operator process comes up (cmd/transflect-operator): the configuration of the Kubernetes
  clients, \<open>newOperator\<close>, the lease lock and the election's timing (operator.go), and \<open>run\<close> with
  \<open>main\<close> (main.go) up to the start of the group that the theory Process models. The client
  libraries, the environment and the source of UUIDs are parameters; \<open>filepath.Join\<close> is modelled.
\<close>

section \<open>Paths\<close>

text \<open>
  \<open>filepath.Clean\<close> on Unix: empty and \<open>.\<close> elements are dropped, \<open>..\<close> removes the element before it;
  the elements kept are collected in reverse.
\<close>

fun clean_elems :: "bool \<Rightarrow> string list \<Rightarrow> string list \<Rightarrow> string list" where
  "clean_elems rooted acc [] = rev acc"
| "clean_elems rooted acc (e # es) =
     (if e = [] \<or> e = ''.'' then clean_elems rooted acc es
      else if e = ''..'' then
        (case acc of
           [] \<Rightarrow> clean_elems rooted (if rooted then [] else [''..'']) es
         | a # as \<Rightarrow> clean_elems rooted (if a = ''..'' then ''..'' # acc else as) es)
      else clean_elems rooted (e # acc) es)"

definition Clean :: "string \<Rightarrow> string" where
  "Clean path =
     (if path = [] then ''.''
      else let rooted = (hd path = CHR ''/'');
               es = clean_elems rooted [] (split_on (CHR ''/'') path);
               body = (if es = [] then [] else join_with (CHR ''/'') es) in
        if rooted then CHR ''/'' # body else if body = [] then ''.'' else body)"

definition Join :: "string list \<Rightarrow> string" where
  "Join elems =
     (let es = dropWhile (\<lambda>e. e = []) elems in
      if es = [] then [] else Clean (join_with (CHR ''/'') es))"

text \<open>An element that \<open>Clean\<close> keeps.\<close>

definition plain_elem :: "string \<Rightarrow> bool" where
  "plain_elem e \<longleftrightarrow> e \<noteq> [] \<and> e \<noteq> ''.'' \<and> e \<noteq> ''..'' \<and> CHR ''/'' \<notin> set e"

lemma clean_elems_plain:
  "\<forall>e \<in> set es. plain_elem e \<Longrightarrow> clean_elems rooted acc es = rev acc @ es"
  by (induction es arbitrary: acc) (auto simp: plain_elem_def)

lemma Clean_plain:
  assumes "es \<noteq> []" "\<forall>e \<in> set es. plain_elem e"
  shows "Clean (CHR ''/'' # join_with (CHR ''/'') es) = CHR ''/'' # join_with (CHR ''/'') es"
proof -
  have "\<forall>e \<in> set es. CHR ''/'' \<notin> set e" using assms(2) by (simp add: plain_elem_def)
  then have "split_on (CHR ''/'') (join_with (CHR ''/'') es) = es" using assms(1) by (intro split_join) auto
  then show ?thesis using assms by (simp add: Clean_def clean_elems_plain Let_def)
qed

section \<open>Clients\<close>

record 'k client_libs =
  InClusterConfig :: "goerr + 'k"
  IsErrNotInCluster :: "goerr \<Rightarrow> bool"
  Getenv :: "string \<Rightarrow> string"
  HomeDir :: string
  BuildConfigFromFlags :: "string \<Rightarrow> string \<Rightarrow> goerr + 'k"
  KubernetesForConfig :: "'k \<Rightarrow> goerr option"
  IstioForConfig :: "'k \<Rightarrow> goerr option"
  NewUUID :: string

definition getConfig :: "'k client_libs \<Rightarrow> goerr + 'k" where
  "getConfig E =
     (case InClusterConfig E of
        Inr cfg \<Rightarrow> Inr cfg
      | Inl err \<Rightarrow>
          if \<not> IsErrNotInCluster E err then Inl (WrapError ''cannot get kubeconfig'' err)
          else
            (let kc = Getenv E ''KUBECONFIG''; home = HomeDir E in
             if kc = [] \<and> home = [] then Inl (ErrorString ''cannot find kubeconfig. Set KUBECONFIG env var'')
             else
               (case BuildConfigFromFlags E [] (if kc = [] then Join [home, ''.kube'', ''config''] else kc) of
                  Inl err \<Rightarrow> Inl (WrapError ''cannot find kube config'' err)
                | Inr kubeCfg \<Rightarrow> Inr kubeCfg)))"

text \<open>Both clients are made from the one configuration, which stands for them.\<close>

definition getClientSets :: "'k client_libs \<Rightarrow> goerr + 'k" where
  "getClientSets E =
     (case getConfig E of
        Inl err \<Rightarrow> Inl (WrapError ''cannot get Kubernetes config'' err)
      | Inr cfg \<Rightarrow>
          (case KubernetesForConfig E cfg of
             Some err \<Rightarrow> Inl (WrapError ''cannot get Kubernetes ClientSet'' err)
           | None \<Rightarrow>
               (case IstioForConfig E cfg of
                  Some err \<Rightarrow> Inl (WrapError ''cannot get Istio ClientSet'' err)
                | None \<Rightarrow> Inr cfg)))"

section \<open>The operator\<close>

record process_config =
  fl_UseIngress :: bool
  fl_Address :: string
  fl_Plaintext :: bool
  fl_LeaseNamespace :: string
  fl_LeaseID :: string
  fl_LogFormat :: string
  fl_ProbesPort :: "64 word"
  fl_MetricsPort :: "64 word"
  fl_HTTPPathPrefix :: string

record 'k operator_setup =
  clients :: 'k
  op_settings :: op_config
  leaseNamespace :: string
  leaseID :: string

definition newOperator :: "'k client_libs \<Rightarrow> string \<Rightarrow> process_config \<Rightarrow> goerr + 'k operator_setup" where
  "newOperator E version cfg =
     (case getClientSets E of
        Inl err \<Rightarrow> Inl err
      | Inr k8s \<Rightarrow>
          Inr \<lparr>clients = k8s,
               op_settings = \<lparr>useIngress = fl_UseIngress cfg, plaintext = fl_Plaintext cfg,
                 op_address = fl_Address cfg, op_version = ''transflect-'' @ version,
                 op_httpPathPrefix = fl_HTTPPathPrefix cfg\<rparr>,
               leaseNamespace = fl_LeaseNamespace cfg,
               leaseID = (if fl_LeaseID cfg = [] then NewUUID E else fl_LeaseID cfg)\<rparr>)"

record lease_lock =
  lk_Name :: string
  lk_Namespace :: string
  lk_Identity :: string

definition newLock :: "'k operator_setup \<Rightarrow> string \<Rightarrow> lease_lock" where
  "newLock op ident = \<lparr>lk_Name = ''transflect-leader'', lk_Namespace = leaseNamespace op, lk_Identity = ident\<rparr>"

text \<open>Durations in nanoseconds.\<close>

record election_config =
  el_Lock :: lease_lock
  el_ReleaseOnCancel :: bool
  el_LeaseDuration :: int
  el_RenewDeadline :: int
  el_RetryPeriod :: int

definition Second :: int where
  "Second = 10 ^ 9"

definition newElection :: "lease_lock \<Rightarrow> election_config" where
  "newElection lock =
     \<lparr>el_Lock = lock, el_ReleaseOnCancel = True, el_LeaseDuration = 20 * Second,
      el_RenewDeadline = 15 * Second, el_RetryPeriod = 5 * Second\<rparr>"

text \<open>
  What the election asks of its configuration, and panics without: a lock with an identity, positive
  durations, a lease longer than the time to renew it, and that longer than a retry with its
  jitter of a fifth.
\<close>

definition election_accepts :: "election_config \<Rightarrow> bool" where
  "election_accepts c \<longleftrightarrow> lk_Identity (el_Lock c) \<noteq> [] \<and> el_RenewDeadline c < el_LeaseDuration c \<and>
     6 * el_RetryPeriod c < 5 * el_RenewDeadline c \<and> 0 < el_RetryPeriod c \<and>
     el_LeaseDuration c < 2 ^ 63"

section \<open>The process\<close>

text \<open>
  \<open>run\<close>: without an operator it returns the error, and nothing was started; otherwise the group
  starts. \<open>main\<close> turns the error into the exit status.
\<close>

definition run_operator ::
    "'k client_libs \<Rightarrow> handler \<Rightarrow> string \<Rightarrow> process_config \<Rightarrow>
     goerr + 'k operator_setup \<times> (group_fn \<Rightarrow> http_server) \<times> process" where
  "run_operator E prom version cfg =
     (case newOperator E version cfg of
        Inl err \<Rightarrow> Inl err
      | Inr op \<Rightarrow> Inr (op, servers_of prom (fl_ProbesPort cfg) (fl_MetricsPort cfg), process_init))"

text \<open>The file that the configuration is read from outside a cluster, and a start that has failed with \<open>e\<close>.\<close>

definition config_path :: "'k client_libs \<Rightarrow> string" where
  "config_path E = (if Getenv E ''KUBECONFIG'' = [] then HomeDir E @ ''/.kube/config'' else Getenv E ''KUBECONFIG'')"

definition start_failed where
  "start_failed E prom version cfg e \<longleftrightarrow>
     (\<exists>e'. run_operator E prom version cfg = Inl e' \<and> errors_Is e' e \<and> main_exit (Some e') = 1)"

text \<open>
  C40. Coming up: outside a cluster the operator reads the file that the variable \<open>KUBECONFIG\<close> names,
  and \<open>.kube/config\<close> in the home directory when the variable is not set. When the configuration
  can be read and both clients can be made from it, the process starts with the settings of its
  flags, and the election accepts its configuration: the lease has an identity, generated if none
  was given, and outlives the time in which it must be renewed. When the configuration or the
  Kubernetes or the Istio client fails, the process ends with that error and status 1 before
  anything was started.
\<close>

theorem operator_comes_up:
  assumes "InClusterConfig E = Inl err" and "IsErrNotInCluster E err"
    and "Getenv E ''KUBECONFIG'' = [] \<Longrightarrow>
      HomeDir E = CHR ''/'' # join_with (CHR ''/'') es \<and> es \<noteq> [] \<and> (\<forall>e \<in> set es. plain_elem e)"
    and "NewUUID E \<noteq> []"
  shows "case BuildConfigFromFlags E [] (config_path E) of
      Inl e \<Rightarrow> start_failed E prom version cfg e
    | Inr k \<Rightarrow>
       (case KubernetesForConfig E k of
          Some e \<Rightarrow> start_failed E prom version cfg e
        | None \<Rightarrow>
           (case IstioForConfig E k of
              Some e \<Rightarrow> start_failed E prom version cfg e
            | None \<Rightarrow>
               (\<exists>op srv. run_operator E prom version cfg = Inr (op, srv, process_init) \<and> clients op = k \<and>
                 useIngress (op_settings op) = fl_UseIngress cfg \<and> plaintext (op_settings op) = fl_Plaintext cfg \<and>
                 op_address (op_settings op) = fl_Address cfg \<and>
                 op_httpPathPrefix (op_settings op) = fl_HTTPPathPrefix cfg \<and>
                 op_version (op_settings op) = ''transflect-'' @ version \<and>
                 lk_Namespace (newLock op (leaseID op)) = fl_LeaseNamespace cfg \<and>
                 (fl_LeaseID cfg \<noteq> [] \<longrightarrow> lk_Identity (newLock op (leaseID op)) = fl_LeaseID cfg) \<and>
                 election_accepts (newElection (newLock op (leaseID op))) \<and>
                 ServeHTTP (srv ProbesFn) ''/_readiness'' = ok_handler)))"
proof -
  have path: "(if Getenv E ''KUBECONFIG'' = [] then Join [HomeDir E, ''.kube'', ''config''] else Getenv E ''KUBECONFIG'') =
      config_path E"
  proof (cases "Getenv E ''KUBECONFIG'' = []")
    case True
    note home = assms(3) [OF True]
    have "es \<noteq> []" using home by simp
    then have "join_with (CHR ''/'') (es @ [''.kube'', ''config'']) = join_with (CHR ''/'') es @ ''/.kube/config''"
      by (induction "CHR ''/''" es rule: join_with.induct) auto
    moreover have "\<forall>e \<in> set (es @ [''.kube'', ''config'']). plain_elem e"
      using home by (auto simp: plain_elem_def)
    ultimately show ?thesis
      using True home Clean_plain [of "es @ [''.kube'', ''config'']"] by (simp add: Join_def config_path_def)
  qed (simp add: config_path_def)
  have "\<not> (Getenv E ''KUBECONFIG'' = [] \<and> HomeDir E = [])" using assms(3) by auto
  then have config: "getConfig E =
      (case BuildConfigFromFlags E [] (config_path E) of
         Inl err \<Rightarrow> Inl (WrapError ''cannot find kube config'' err) | Inr k \<Rightarrow> Inr k)"
    using assms(1,2) unfolding getConfig_def Let_def path by auto
  have refl: "errors_Is e e" for e by (cases e) simp_all
  show ?thesis
    unfolding start_failed_def using assms(4) refl
    by (auto simp: config run_operator_def newOperator_def getClientSets_def main_exit_def
        election_accepts_def newElection_def newLock_def Second_def servers_of_def probes_answer
        split: sum.split option.split)
qed

text \<open>A developer's machine.\<close>

definition developer_machine :: "string client_libs" where
  "developer_machine =
     \<lparr>InClusterConfig = Inl (ExtError ''not in cluster''), IsErrNotInCluster = (\<lambda>e. e = ExtError ''not in cluster''),
      Getenv = (\<lambda>_. []), HomeDir = ''/home/dev'', BuildConfigFromFlags = (\<lambda>_ path. Inr path),
      KubernetesForConfig = (\<lambda>_. None), IstioForConfig = (\<lambda>_. None), NewUUID = ''5b1c''\<rparr>"

definition default_flags :: process_config where
  "default_flags =
     \<lparr>fl_UseIngress = False, fl_Address = [], fl_Plaintext = False, fl_LeaseNamespace = ''transflect'',
      fl_LeaseID = [], fl_LogFormat = ''std'', fl_ProbesPort = 8080, fl_MetricsPort = 9090, fl_HTTPPathPrefix = []\<rparr>"

text \<open>The same with another configuration file, from which no Istio client can be made.\<close>

definition broken_machine :: "string client_libs" where
  "broken_machine = developer_machine\<lparr>Getenv := (\<lambda>_. ''/tmp/kc''), IstioForConfig := (\<lambda>_. Some (ExtError ''no istio''))\<rparr>"

theorem operator_comes_up_witness:
  "(\<exists>op srv. run_operator developer_machine ok_handler ''v1'' default_flags = Inr (op, srv, process_init) \<and>
    clients op = ''/home/dev/.kube/config'' \<and> election_accepts (newElection (newLock op (leaseID op)))) \<and>
   start_failed broken_machine ok_handler ''v1'' default_flags (ExtError ''no istio'')"
proof
  have "HomeDir developer_machine = CHR ''/'' # join_with (CHR ''/'') [''home'', ''dev''] \<and> [''home'', ''dev''] \<noteq> [] \<and>
      (\<forall>e \<in> set [''home'', ''dev'']. plain_elem e)"
    by (simp add: developer_machine_def plain_elem_def)
  from operator_comes_up [OF _ _ this, of "ExtError ''not in cluster''" ok_handler "''v1''" default_flags]
  show "\<exists>op srv. run_operator developer_machine ok_handler ''v1'' default_flags = Inr (op, srv, process_init) \<and>
    clients op = ''/home/dev/.kube/config'' \<and> election_accepts (newElection (newLock op (leaseID op)))"
    by (simp add: developer_machine_def config_path_def) blast
  show "start_failed broken_machine ok_handler ''v1'' default_flags (ExtError ''no istio'')"
    using operator_comes_up [of broken_machine "ExtError ''not in cluster''" "[]" ok_handler "''v1''" default_flags]
    by (simp add: broken_machine_def developer_machine_def)
qed

end
