(* ===== verification/Logging.thy ===== *)
theory Logging
  imports Setup UpsertSpec
begin

text \<open>
  The operator's logging as far as the program's behaviour depends on it (main.go):
  \<open>setupLogging\<close> sets the writer of the logger and the hook \<open>LogAttempt\<close> of the retry loop, and
  \<open>logAttempt\<close> finds out from the context of the call which ReplicaSet is being queried. Every
  error that is retried is in the log, once, numbered from zero, under the ReplicaSet's name.
\<close>

section \<open>The hook\<close>

record log_event =
  ev_level :: string
  ev_attempt :: int
  ev_err :: goerr
  ev_replica :: string
  ev_msg :: string

definition logAttempt :: "context_values \<Rightarrow> int \<Rightarrow> goerr \<Rightarrow> log_event" where
  "logAttempt ctx attempt err =
     (let replica = (case ctx ctxReplicaKey of
                       None \<Rightarrow> ''unknown''
                     | Some v \<Rightarrow> (case v of IVal s \<Rightarrow> s | IOther \<Rightarrow> ''unknown''))
      in \<lparr>ev_level = ''error'', ev_attempt = attempt, ev_err = err, ev_replica = replica,
          ev_msg = ''Reflection call error''\<rparr>)"

text \<open>The global variables that \<open>setupLogging\<close> assigns; by default the hook does nothing.\<close>

datatype log_output = JSONStdout | ConsoleStdout

record logging =
  log_Logger :: log_output
  log_StackMarshaler :: bool
  log_LogAttempt :: "context_values \<Rightarrow> int \<Rightarrow> goerr \<Rightarrow> log_event option"

definition setupLogging :: "process_config \<Rightarrow> logging" where
  "setupLogging cfg =
     \<lparr>log_Logger = (if fl_LogFormat cfg = ''std'' then ConsoleStdout else JSONStdout),
      log_StackMarshaler = True,
      log_LogAttempt = (\<lambda>ctx attempt err. Some (logAttempt ctx attempt err))\<rparr>"

definition default_LogAttempt :: "context_values \<Rightarrow> int \<Rightarrow> goerr \<Rightarrow> log_event option" where
  "default_LogAttempt ctx attempt err = None"

text \<open>A cluster in which the retry loop calls the hook that is set, and its events are written.\<close>

definition hooks_of :: "(log_event \<Rightarrow> 'w \<Rightarrow> 'w) \<Rightarrow> (int \<Rightarrow> 'w \<Rightarrow> 'w) \<Rightarrow> logging \<Rightarrow> context_values \<Rightarrow> 'w hooks" where
  "hooks_of emit sleep lg ctx =
     \<lparr>LogAttempt = (\<lambda>attempt err w. case log_LogAttempt lg ctx attempt err of None \<Rightarrow> w | Some e \<Rightarrow> emit e w),
      Sleep = sleep\<rparr>"

section \<open>What is in the log\<close>

text \<open>The event of attempt \<open>k\<close> for a ReplicaSet.\<close>

definition attempt_event :: "replicaset \<Rightarrow> nat \<times> goerr \<Rightarrow> log_event" where
  "attempt_event rs = (\<lambda>(k, err). \<lparr>ev_level = ''error'', ev_attempt = int k, ev_err = err,
     ev_replica = rs_Name rs, ev_msg = ''Reflection call error''\<rparr>)"

lemma logAttempt_replica: "logAttempt (replica_context rs) (int k) err = attempt_event rs (k, err)"
  by (simp add: logAttempt_def replica_context_def WithValue_def attempt_event_def)

text \<open>The log of a loop that may still repeat its query \<open>m\<close> times.\<close>

definition logged_rounds where
  "logged_rounds logged rs m w r w' \<longleftrightarrow>
     (\<exists>errs. length errs \<le> Suc m \<and> (\<forall>err \<in> set errs. not_retryable err = None) \<and>
        logged w' = logged w @ map (attempt_event rs) (enumerate (16 - m) errs) \<and>
        (if length errs = Suc m then r = Fail (WrapError ''too many retries'' (last errs))
         else \<nexists>err. r = Fail (WrapError ''too many retries'' err)))"

lemma logged_rounds_end:
  "logged w' = logged w \<Longrightarrow> \<nexists>err. r = Fail (WrapError ''too many retries'' err) \<Longrightarrow> logged_rounds logged rs m w r w'"
  unfolding logged_rounds_def by (intro exI [of _ "[]"]) simp

lemma logged_rounds_Suc:
  assumes "logged_rounds logged rs m v r w'" "Suc m \<le> 16" "not_retryable err = None"
    and "logged v = logged w @ [attempt_event rs (16 - Suc m, err)]"
  shows "logged_rounds logged rs (Suc m) w r w'"
proof -
  obtain errs where e: "length errs \<le> Suc m" "\<forall>err \<in> set errs. not_retryable err = None"
    "logged w' = logged v @ map (attempt_event rs) (enumerate (16 - m) errs)"
    "if length errs = Suc m then r = Fail (WrapError ''too many retries'' (last errs))
     else \<nexists>err. r = Fail (WrapError ''too many retries'' err)"
    using assms(1) unfolding logged_rounds_def by blast
  have "Suc (16 - Suc m) = 16 - m" using assms(2) by simp
  then show ?thesis using e assms(3,4) unfolding logged_rounds_def
    by (intro exI [of _ "err # errs"]) (auto split: if_splits)
qed

lemma bounded_retry_logs:
  assumes keeps: "io_keeps logged query" and emit: "\<And>e w. logged (emit e w) = logged w @ [e]"
    and sleep: "\<And>d w. logged (sleep d w) = logged w"
    and h: "h = hooks_of emit sleep (setupLogging flags) (replica_context rs)"
  shows "m \<le> 16 \<Longrightarrow> bounded_retry m bo h query b w = Some (r, w') \<Longrightarrow> logged_rounds logged rs m w r w'"
proof (induction m arbitrary: b w)
  case (0 b w)
  obtain q v where q: "query w = Some (q, v)"
    using 0(2) by (subst (asm) bounded_retry.simps) (auto split: option.splits)
  note same = io_keepsD [OF keeps q]
  show ?case
  proof (cases "\<exists>err. q = Fail err \<and> not_retryable err = None")
    case True
    then obtain err where err: "q = Fail err" "not_retryable err = None" by blast
    then have "bounded_retry 0 bo h query b w =
        Some (Fail (WrapError ''too many retries'' err), emit (attempt_event rs (16, err)) v)"
      using q logAttempt_replica [of rs 16 err]
      by (simp add: bounded_retry.simps [of 0] Let_def h hooks_of_def setupLogging_def)
    then have "r = Fail (WrapError ''too many retries'' err)" "w' = emit (attempt_event rs (16, err)) v"
      using 0(2) by simp_all
    then show ?thesis unfolding logged_rounds_def using err(2)
      by (intro exI [of _ "[err]"]) (simp add: emit same)
  next
    case False
    then show ?thesis using 0(2) q same
      by (subst (asm) bounded_retry.simps)
        (auto simp: not_retryable_error_def split: outcome.splits option.splits intro!: logged_rounds_end)
  qed
next
  case (Suc m b w)
  obtain q v where q: "query w = Some (q, v)"
    using Suc.prems(2) by (subst (asm) bounded_retry.simps) (auto split: option.splits)
  note same = io_keepsD [OF keeps q]
  show ?case
  proof (cases "\<exists>err. q = Fail err \<and> not_retryable err = None")
    case True
    then obtain err where err: "q = Fail err" "not_retryable err = None" by blast
    define u where "u = sleep (fst (Duration bo b)) (emit (attempt_event rs (16 - Suc m, err)) v)"
    have at: "16 - int (Suc m) = int (16 - Suc m)" using Suc.prems(1) by simp
    have "bounded_retry m bo h query (snd (Duration bo b)) u = Some (r, w')"
      using Suc.prems(2) q err unfolding u_def logAttempt_replica [symmetric]
      by (subst (asm) bounded_retry.simps) (simp add: Let_def h hooks_of_def setupLogging_def at del: of_nat_Suc)
    then have "logged_rounds logged rs m u r w'" using Suc.IH Suc.prems(1) by simp
    moreover have "logged u = logged w @ [attempt_event rs (16 - Suc m, err)]"
      by (simp add: u_def sleep emit same)
    ultimately show ?thesis using Suc.prems(1) err(2) by (intro logged_rounds_Suc)
  next
    case False
    then show ?thesis using Suc.prems(2) q same
      by (subst (asm) bounded_retry.simps)
        (auto simp: not_retryable_error_def split: outcome.splits option.splits intro!: logged_rounds_end)
  qed
qed

text \<open>
  C20. What is retried is logged: with the hook that \<open>setupLogging\<close> installs, the reflection query that
  \<open>upsertFilter\<close> makes for a ReplicaSet appends to the log exactly the errors it retries, in
  order, each under the name of this ReplicaSet and with its number counted from zero. There
  are at most seventeen, all of the retryable kind; there are seventeen exactly when the query
  gives up with \<open>too many retries\<close>, and the error it returns is the last one logged.
\<close>

theorem attempts_are_logged:
  assumes "backoff_ok bo" and "\<And>conn. client_keeps logged (NewServerReflectionClient net conn)"
    and "\<And>w. logged (snd (DialContext net addr opts w)) = logged w"
    and "\<And>conn w. logged (CloseConn net conn w) = logged w"
    and "\<And>e w. logged (emit e w) = logged w @ [e]" and "\<And>d w. logged (sleep d w) = logged w"
    and "GetFileDescriptorSet fuel bo (hooks_of emit sleep (setupLogging flags) (replica_context rs)) net
      addr pre opts w = Some (r, w')"
  shows "\<exists>errs. length errs \<le> 17 \<and> (\<forall>err \<in> set errs. not_retryable err = None) \<and>
    logged w' = logged w @ map (attempt_event rs) (enumerate 0 errs) \<and>
    (if length errs = 17 then r = Fail (WrapError ''too many retries'' (last errs))
     else \<nexists>err. r = Fail (WrapError ''too many retries'' err))"
proof -
  let ?h = "hooks_of emit sleep (setupLogging flags) (replica_context rs)"
  obtain d w1 where dial: "DialContext net addr opts w = (d, w1)" by (cases "DialContext net addr opts w")
  have w1: "logged w1 = logged w" using assms(3) [of w] by (simp add: dial)
  have "logged_rounds logged rs 16 w r w'"
  proof (cases d)
    case (Inl err)
    then show ?thesis using assms(7) dial w1
      by (intro logged_rounds_end) (auto simp: GetFileDescriptorSet_def io_bind_def io_wrap_def io_call_def)
  next
    case (Inr conn)
    let ?query = "getFileDescriptorSet fuel (NewServerReflectionClient net conn) addr pre"
    obtain w2 where 1: "getFileDescriptorSetWithRetry fuel bo ?h (NewServerReflectionClient net conn) addr pre w1 =
        Some (r, w2)" "w' = CloseConn net conn w2"
      using assms(7) dial Inr
      by (auto simp: GetFileDescriptorSet_def io_bind_def io_wrap_def io_call_def io_defer_def split: option.splits)
    note 2 = 1(1) [unfolded getFileDescriptorSetWithRetry_bounded [OF assms(1)]]
    have "logged_rounds logged rs 16 w1 r w2"
      by (rule bounded_retry_logs [OF getFileDescriptorSet_keeps [OF assms(2)] assms(5,6) refl le_refl 2])
    then show ?thesis by (simp add: logged_rounds_def 1(2) assms(4) w1)
  qed
  then show ?thesis by (simp add: logged_rounds_def)
qed

text \<open>A server that nobody reaches, over a state that is the log.\<close>

definition silent_dialer :: "(log_event list, unit, unit) dialer" where
  "silent_dialer =
     \<lparr>DialContext = (\<lambda>_ _ w. (Inr (), w)), CloseConn = (\<lambda>_ w. w),
      NewServerReflectionClient = (\<lambda>_.
        \<lparr>ServerReflectionInfo = (\<lambda>w. (Inl (StatusError Unavailable ''connection refused''), w)),
         Send = (\<lambda>_ _ w. (None, w)), Recv = (\<lambda>_ w. (Inl (ExtError ''EOF''), w)), CloseSend = (\<lambda>_ w. w),
         Unmarshal = (\<lambda>_. Inl (ExtError ''no file''))\<rparr>)\<rparr>"

theorem attempts_are_logged_witness:
  "\<exists>r evs. GetFileDescriptorSet 1 counting_backoff
      (hooks_of (\<lambda>e w. w @ [e]) (\<lambda>_ w. w) (setupLogging default_flags) (replica_context plain_rs))
      silent_dialer ''localhost'' [] [] [] = Some (r, evs) \<and>
    length evs \<le> 17 \<and> (\<forall>e \<in> set evs. ev_replica e = ''d-1'') \<and>
    (\<forall>k < length evs. ev_attempt (evs ! k) = int k)"
proof -
  let ?h = "hooks_of (\<lambda>e w. w @ [e]) (\<lambda>_ w. w) (setupLogging default_flags) (replica_context plain_rs)"
  have query: "getFileDescriptorSet 1 (NewServerReflectionClient silent_dialer c) ''localhost'' [] w \<noteq> None" for c w
    by (simp add: getFileDescriptorSet_def getServices_def doRefl_def silent_dialer_def
        io_bind_def io_wrap_def io_call_def)
  have "getFileDescriptorSetWithRetry 1 counting_backoff ?h (NewServerReflectionClient silent_dialer ()) ''localhost'' []
      [] \<noteq> None"
    unfolding getFileDescriptorSetWithRetry_bounded [OF counting_backoff_ok]
    by (rule bounded_retry_returns) (rule query)
  then obtain r v where v: "getFileDescriptorSetWithRetry 1 counting_backoff ?h
      (NewServerReflectionClient silent_dialer ()) ''localhost'' [] [] = Some (r, v)" by auto
  have dial: "DialContext silent_dialer addr opts w = (Inr (), w)" "CloseConn silent_dialer c w = w" for addr opts c w
    by (simp_all add: silent_dialer_def)
  have run: "GetFileDescriptorSet 1 counting_backoff ?h silent_dialer ''localhost'' [] [] [] = Some (r, v)"
    by (simp add: GetFileDescriptorSet_def io_bind_def io_wrap_def io_call_def io_defer_def dial v del: One_nat_def)
  have "\<exists>errs. length errs \<le> 17 \<and> (\<forall>err \<in> set errs. not_retryable err = None) \<and>
      id v = id [] @ map (attempt_event plain_rs) (enumerate 0 errs) \<and>
      (if length errs = 17 then r = Fail (WrapError ''too many retries'' (last errs))
       else \<nexists>err. r = Fail (WrapError ''too many retries'' err))"
    by (rule attempts_are_logged [OF counting_backoff_ok _ _ _ _ _ run])
      (simp_all add: silent_dialer_def client_keeps_def)
  then obtain errs where "length errs \<le> 17" "v = map (attempt_event plain_rs) (enumerate 0 errs)" by auto
  then have "length v \<le> 17" "\<forall>e \<in> set v. ev_replica e = ''d-1''"
    "\<forall>k < length v. ev_attempt (v ! k) = int k"
    by (auto simp: attempt_event_def plain_rs_def sample_rs_def nth_enumerate_eq in_set_enumerate_eq)
  with run show ?thesis by blast
qed

section \<open>The main function\<close>

text \<open>
  \<open>main\<close> up to the group of goroutines: the flags are parsed, the logging is set up, and \<open>run\<close> comes
  up or ends the process with its exit status.
\<close>

definition main_operator ::
    "('a \<Rightarrow> process_config) \<Rightarrow> 'k client_libs \<Rightarrow> handler \<Rightarrow> string \<Rightarrow> 'a \<Rightarrow>
     logging \<times> (int + 'k operator_setup \<times> (group_fn \<Rightarrow> http_server) \<times> process)" where
  "main_operator Parse E prom version args =
     (let cfg = Parse args in
      (setupLogging cfg,
       case run_operator E prom version cfg of Inl err \<Rightarrow> Inl (main_exit (Some err)) | Inr up \<Rightarrow> Inr up))"

text \<open>The hook the library starts with, which the command line tool keeps, leaves the state alone.\<close>

lemma default_hook_is_silent:
  "LogAttempt (hooks_of emit sleep ((setupLogging cfg)\<lparr>log_LogAttempt := default_LogAttempt\<rparr>) ctx) n err w = w"
  by (simp add: hooks_of_def default_LogAttempt_def)

end
