(* ===== verification/Gauge.thy ===== *)
theory Gauge
  imports Reconcile
begin

text \<open>
  The gauge of EnvoyFilters (metrics.go) against the filters that the cluster stores: processing a
  ReplicaSet (operator.go, envoyfilter.go) moves both together, except that it also counts the
  deletion of a filter that was gone; and a filter that the cluster collects with its deployment
  stays counted for ever, because \<open>cleanupDeployment\<close> does not touch the gauge.
\<close>

definition drift :: "('w \<Rightarrow> string \<times> string \<rightharpoonup> envoyfilter) \<Rightarrow> 'w op_state \<Rightarrow> int" where
  "drift ef s = filtersGauge (counters s) - int (card (dom (ef (world s))))"



lemma drift_counters:
  assumes "counters t = (counters s)\<lparr>processedCounter := c\<rparr>" "ef (world t) = ef (world s)"
  shows "drift ef t = drift ef s"
  using assms by (simp add: drift_def)





end
