(* ===== verification/Metrics.thy ===== *)
theory Metrics
  imports Reconcile
begin

text \<open>
  The metrics of the operator (cmd/transflect-operator/metrics.go): the twelve metrics that package
  initialisation registers, the provider through which the work queue reports, and what
  \<open>processReplicaset\<close> (operator.go) counts, read back by the names of the labels. The Prometheus
  client is a parameter: whether a registration is accepted and whether label values fit a metric,
  both of which end in a panic where they fail.
\<close>

datatype metric_kind = Gauge | Counter | Histogram

record metric =
  mt_kind :: metric_kind
  mt_Name :: string
  mt_Help :: string
  mt_labels :: "string list"

record prometheus =
  Registers :: "metric list \<Rightarrow> metric \<Rightarrow> bool"
  LabelsFit :: "metric \<Rightarrow> string list \<Rightarrow> bool"

section \<open>The definitions\<close>

definition filtersGauge_metric :: metric where
  "filtersGauge_metric = \<lparr>mt_kind = Gauge, mt_Name = ''transflect_envoyfilters'',
     mt_Help = ''Current number of EnvoyFilters managed by transflect.'', mt_labels = []\<rparr>"

definition leaderGauge_metric :: metric where
  "leaderGauge_metric = \<lparr>mt_kind = Gauge, mt_Name = ''transflect_leader'',
     mt_Help = ''Currently holding leadership.'', mt_labels = []\<rparr>"

definition processedCounter_metric :: metric where
  "processedCounter_metric = \<lparr>mt_kind = Counter, mt_Name = ''transflect_operations_total'',
     mt_Help = ''The total number of transflect operations processed.'', mt_labels = [''status'', ''type'']\<rparr>"

definition preprocessErrCounter_metric :: metric where
  "preprocessErrCounter_metric = \<lparr>mt_kind = Counter, mt_Name = ''transflect_preprocess_error_total'',
     mt_Help = ''The total number of replicaset ids popped off the queue that errored before being processed.'',
     mt_labels = []\<rparr>"

definition ignoredCounter_metric :: metric where
  "ignoredCounter_metric = \<lparr>mt_kind = Counter, mt_Name = ''transflect_ignored_total'',
     mt_Help = ''The total number of replicaset ids popped off the queue that were ignored and didn't need processing.'',
     mt_labels = []\<rparr>"

definition qDepthGauge :: metric where
  "qDepthGauge = \<lparr>mt_kind = Gauge, mt_Name = ''workqueue_depth'',
     mt_Help = ''Current depth of the work queue.'', mt_labels = [''queue_name'']\<rparr>"

definition qAddsCounter :: metric where
  "qAddsCounter = \<lparr>mt_kind = Counter, mt_Name = ''workqueue_adds_total'',
     mt_Help = ''Total number of items added to the work queue.'', mt_labels = [''queue_name'']\<rparr>"

definition qLatencyHistogram :: metric where
  "qLatencyHistogram = \<lparr>mt_kind = Histogram, mt_Name = ''workqueue_latency_seconds'',
     mt_Help = ''How long an item stays in the work queue.'', mt_labels = [''queue_name'']\<rparr>"

definition qWorkDurationHistogram :: metric where
  "qWorkDurationHistogram = \<lparr>mt_kind = Histogram, mt_Name = ''workqueue_work_duration_seconds'',
     mt_Help = ''How long processing an item from the work queue takes.'', mt_labels = [''queue_name'']\<rparr>"

definition qUnfinshedWorkGauge :: metric where
  "qUnfinshedWorkGauge = \<lparr>mt_kind = Gauge, mt_Name = ''workqueue_unfinished_work_seconds'',
     mt_Help = ''How long an item has remained unfinished in the work queue.'', mt_labels = [''queue_name'']\<rparr>"

definition qLongestRunningProcessorGauge :: metric where
  "qLongestRunningProcessorGauge = \<lparr>mt_kind = Gauge, mt_Name = ''workqueue_longest_running_processor_seconds'',
     mt_Help = ''Duration of the longest running processor in the work queue.'', mt_labels = [''queue_name'']\<rparr>"

definition qRetriesCounter :: metric where
  "qRetriesCounter = \<lparr>mt_kind = Counter, mt_Name = ''workqueue_retries_total'',
     mt_Help = ''Total number retires as timeout re-adds.'', mt_labels = [''queue_name'']\<rparr>"

text \<open>The registrations, in the order of the declarations.\<close>

definition metric_declarations :: "metric list" where
  "metric_declarations =
     [filtersGauge_metric, leaderGauge_metric, processedCounter_metric, preprocessErrCounter_metric,
      ignoredCounter_metric, qDepthGauge, qAddsCounter, qLatencyHistogram, qWorkDurationHistogram,
      qUnfinshedWorkGauge, qLongestRunningProcessorGauge, qRetriesCounter]"

fun register_all :: "prometheus \<Rightarrow> metric list \<Rightarrow> metric list \<Rightarrow> metric list outcome" where
  "register_all P reg [] = Ok reg"
| "register_all P reg (m # ms) =
     (if Registers P reg m then register_all P (reg @ [m]) ms
      else Panic (''cannot register '' @ mt_Name m))"

definition WithLabelValues :: "prometheus \<Rightarrow> metric \<Rightarrow> string list \<Rightarrow> (metric \<times> string list) outcome" where
  "WithLabelValues P m vs = (if LabelsFit P m vs then Ok (m, vs) else Panic ''label values do not fit'')"

section \<open>The provider\<close>

definition NewDepthMetric where "NewDepthMetric P name = WithLabelValues P qDepthGauge [name]"
definition NewAddsMetric where "NewAddsMetric P name = WithLabelValues P qAddsCounter [name]"
definition NewLatencyMetric where "NewLatencyMetric P name = WithLabelValues P qLatencyHistogram [name]"
definition NewWorkDurationMetric where
  "NewWorkDurationMetric P name = WithLabelValues P qWorkDurationHistogram [name]"
definition NewUnfinishedWorkSecondsMetric where
  "NewUnfinishedWorkSecondsMetric P name = WithLabelValues P qUnfinshedWorkGauge [name]"
definition NewLongestRunningProcessorSecondsMetric where
  "NewLongestRunningProcessorSecondsMetric P name = WithLabelValues P qLongestRunningProcessorGauge [name]"
definition NewRetriesMetric where "NewRetriesMetric P name = WithLabelValues P qRetriesCounter [name]"

text \<open>All the series the process asks for: those of the operator and those of its queue.\<close>

definition provider_calls :: "prometheus \<Rightarrow> string \<Rightarrow> (metric \<times> string list) outcome list" where
  "provider_calls P name =
     [NewDepthMetric P name, NewAddsMetric P name, NewLatencyMetric P name, NewWorkDurationMetric P name,
      NewUnfinishedWorkSecondsMetric P name, NewLongestRunningProcessorSecondsMetric P name,
      NewRetriesMetric P name]"

text \<open>
  The number that a query of \<open>transflect_operations_total\<close> by status and type finds: the values of a
  series are in the order of the labels that the metric is declared with.
\<close>

definition operations :: "metrics \<Rightarrow> string \<Rightarrow> string \<Rightarrow> nat" where
  "operations c status typ =
     (case map (\<lambda>l. if l = ''status'' then status else typ) (mt_labels processedCounter_metric) of
        [v1, v2] \<Rightarrow> processedCounter c v1 v2
      | _ \<Rightarrow> 0)"

section \<open>No metric panics\<close>

text \<open>
  What the client documents: names match \<open>[a-zA-Z_:][a-zA-Z0-9_:]*\<close>, label names the same without
  colons and not starting with two underscores; a metric whose name is valid and new is
  registered; label values fit when there are as many as labels.
\<close>

definition name_start :: "char \<Rightarrow> bool" where
  "name_start c \<longleftrightarrow> c \<in> set ''abcdefghijklmnopqrstuvwxyzABCDEFGHIJKLMNOPQRSTUVWXYZ_''"

definition label_char :: "char \<Rightarrow> bool" where
  "label_char c \<longleftrightarrow> name_start c \<or> c \<in> set ''0123456789''"

fun valid_name :: "string \<Rightarrow> bool" where
  "valid_name [] = False"
| "valid_name (c # cs) = ((name_start c \<or> c = CHR '':'') \<and> list_all (\<lambda>d. label_char d \<or> d = CHR '':'') cs)"

fun valid_label :: "string \<Rightarrow> bool" where
  "valid_label [] = False"
| "valid_label (c # cs) = (name_start c \<and> list_all label_char cs \<and> take 2 (c # cs) \<noteq> ''__'')"

definition valid_metric :: "metric \<Rightarrow> bool" where
  "valid_metric m \<longleftrightarrow> valid_name (mt_Name m) \<and> list_all valid_label (mt_labels m) \<and> distinct (mt_labels m)"

definition prometheus_documented :: "prometheus \<Rightarrow> bool" where
  "prometheus_documented P \<longleftrightarrow>
     (\<forall>reg m. valid_metric m \<longrightarrow> mt_Name m \<notin> mt_Name ` set reg \<longrightarrow> Registers P reg m) \<and>
     (\<forall>m vs. LabelsFit P m vs \<longleftrightarrow> length vs = length (mt_labels m))"

lemma register_all_new:
  assumes "prometheus_documented P"
  shows "list_all valid_metric ms \<Longrightarrow> distinct (map mt_Name (reg @ ms)) \<Longrightarrow> register_all P reg ms = Ok (reg @ ms)"
proof (induction ms arbitrary: reg)
  case (Cons m ms)
  then have "Registers P reg m" using assms by (auto simp: prometheus_documented_def)
  then show ?case using Cons.IH [of "reg @ [m]"] Cons.prems by simp
qed simp

lemmas metric_defs = filtersGauge_metric_def leaderGauge_metric_def processedCounter_metric_def
  preprocessErrCounter_metric_def ignoredCounter_metric_def qDepthGauge_def qAddsCounter_def
  qLatencyHistogram_def qWorkDurationHistogram_def qUnfinshedWorkGauge_def
  qLongestRunningProcessorGauge_def qRetriesCounter_def

lemmas provider_defs = NewDepthMetric_def NewAddsMetric_def NewLatencyMetric_def NewWorkDurationMetric_def
  NewUnfinishedWorkSecondsMetric_def NewLongestRunningProcessorSecondsMetric_def NewRetriesMetric_def

lemma label_counts:
  "length (mt_labels processedCounter_metric) = 2" "length (mt_labels qDepthGauge) = 1"
  "length (mt_labels qAddsCounter) = 1" "length (mt_labels qLatencyHistogram) = 1"
  "length (mt_labels qWorkDurationHistogram) = 1" "length (mt_labels qUnfinshedWorkGauge) = 1"
  "length (mt_labels qLongestRunningProcessorGauge) = 1" "length (mt_labels qRetriesCounter) = 1"
  by (simp_all add: metric_defs)

lemma declarations_valid: "list_all valid_metric metric_declarations"
  by code_simp

lemma declarations_distinct: "distinct (map mt_Name metric_declarations)"
  by code_simp

text \<open>What a call of \<open>processReplicaset\<close> adds to the operations of a status and a type.\<close>

definition counted_operation ::
    "('w, 'b, 'c, 's) cluster \<Rightarrow> replicaset \<Rightarrow> 'w op_state \<Rightarrow> unit outcome \<Rightarrow> string \<Rightarrow> string \<Rightarrow> nat" where
  "counted_operation cl rs s r status typ =
     (if (if grpcPort rs = 0
          then typ = ''delete'' \<and> (status = ''success'' \<or>
            status = ''error'' \<and> (\<exists>err t. deleteFilter cl rs s = Some (Fail err, t)))
          else typ = ''upsert'' \<and> (status = ''success'' \<and> r = Ok () \<or> status = ''error'' \<and> (\<exists>err. r = Fail err)))
      then 1 else 0)"

lemma process_counts:
  assumes "processReplicaset fuel cl cfg rs key s = Some (r, s')"
  shows "operations (counters s') status typ = operations (counters s) status typ + counted_operation cl rs s r status typ"
proof (cases "grpcPort rs = 0")
  case True
  obtain d t where d: "deleteFilter cl rs s = Some (d, t)" using deleteFilter_total by (rule io_totalE)
  have keep: "processedCounter (counters t) = processedCounter (counters s)"
    using io_keepsD [OF deleteFilter_keeps [OF internal_fields(4)] d] by simp
  from deleteFilter_outcome [OF d] show ?thesis
    using True assms d keep
    by (auto simp: processReplicaset_def io_unfold step_defs operations_def processedCounter_metric_def
        counted_operation_def)
next
  case False
  obtain u t where u: "upsertFilter fuel cl cfg rs s = Some (u, t)"
    using False assms by (auto simp: processReplicaset_def io_unfold split: option.splits)
  have keep: "processedCounter (counters t) = processedCounter (counters s)"
    using io_keepsD [OF upsertFilter_keeps [OF internal_fields(4)] u] by simp
  show ?thesis
    using False assms u keep
    by (cases u) (auto simp: processReplicaset_def io_unfold step_defs operations_def processedCounter_metric_def
        counted_operation_def)
qed

text \<open>
  C39. Metrics are well-typed: with a Prometheus client that accepts valid new names and label values
  of the right number, package initialisation registers all metrics without a panic, the queue's
  provider gives each metric the labels it is declared with, the seven metrics of a queue are seven
  different registered ones, and two label values fit the counter of operations. By the names
  of its labels that counter counts each call of \<open>processReplicaset\<close> as what it was: an upsert as a
  success or an error according to its result (a panic is not counted), a deletion always as a
  success, and also as an error when \<open>deleteFilter\<close> failed.
\<close>

theorem metrics_are_well_typed:
  assumes "prometheus_documented P" and "processReplicaset fuel cl cfg rs key s = Some (r, s')"
  shows "register_all P [] metric_declarations = Ok metric_declarations \<and>
    provider_calls P name = map (\<lambda>m. Ok (m, [name])) (drop 5 metric_declarations) \<and>
    distinct (provider_calls P name) \<and>
    WithLabelValues P processedCounter_metric [status, typ] = Ok (processedCounter_metric, [status, typ]) \<and>
    operations (counters s') status typ =
      operations (counters s) status typ + counted_operation cl rs s r status typ"
proof -
  have fit: "LabelsFit P m vs \<longleftrightarrow> length vs = length (mt_labels m)" for m vs
    using assms(1) by (simp add: prometheus_documented_def)
  have calls: "provider_calls P name = map (\<lambda>m. Ok (m, [name])) (drop 5 metric_declarations)"
    by (simp add: provider_calls_def provider_defs WithLabelValues_def fit label_counts metric_declarations_def)
  have "distinct (drop 5 metric_declarations)"
    using declarations_distinct by (simp add: distinct_map)
  then have "distinct (provider_calls P name)" by (simp add: calls distinct_map inj_on_def)
  moreover have "WithLabelValues P processedCounter_metric [status, typ] = Ok (processedCounter_metric, [status, typ])"
    by (simp add: WithLabelValues_def fit label_counts)
  ultimately show ?thesis
    using register_all_new [OF assms(1) declarations_valid, of "[]"] declarations_distinct calls
      process_counts [OF assms(2)] by simp
qed

text \<open>A client that accepts exactly what it has to.\<close>

definition strict_client :: prometheus where
  "strict_client = \<lparr>Registers = (\<lambda>reg m. valid_metric m \<and> mt_Name m \<notin> mt_Name ` set reg),
     LabelsFit = (\<lambda>m vs. length vs = length (mt_labels m))\<rparr>"

theorem metrics_are_well_typed_witness:
  "register_all strict_client [] metric_declarations = Ok metric_declarations \<and>
   NewDepthMetric strict_client ''replicasets'' = Ok (qDepthGauge, [''replicasets'']) \<and>
   (\<exists>r s'. processReplicaset 1 sample_cluster sample_config portless_rs ''ns/d'' sample_state = Some (r, s') \<and>
     operations (counters s') ''success'' ''delete'' = Suc (operations (counters sample_state) ''success'' ''delete''))"
proof -
  have P: "prometheus_documented strict_client" by (simp add: prometheus_documented_def strict_client_def)
  obtain r s' where run: "processReplicaset 1 sample_cluster sample_config portless_rs ''ns/d'' sample_state = Some (r, s')"
    using io_totalE [OF process_total [OF sample_query_returns]] by blast
  have "grpcPort portless_rs = 0" by (rule sample_facts)
  then show ?thesis
    using metrics_are_well_typed [OF P run, of "''replicasets''" "''success''" "''delete''"] run
    by (auto simp: provider_calls_def metric_declarations_def counted_operation_def simp del: One_nat_def)
qed

end
