(* ===== verification/Tools.thy ===== *)
theory Tools
  imports ReflectionRetry
begin

text \<open>
  The two test helpers of the repository: \<open>cmd/retry-until-fail\<close> repeats a command until it fails,
  and \<open>cmd/test-http-transcoding\<close> polls a URL. Running a command, what an HTTP request does
  on the wire, sleeping and \<open>time.ParseDuration\<close> are parameters over the state of the outside world.
\<close>

section \<open>retry-until-fail\<close>

text \<open>
  What \<open>cmd.Run\<close> reports: an error other than \<open>ExitError\<close>, or the exit code of a process that ran.
\<close>

datatype run_result = CannotRun goerr | Exited int

definition parseArgs ::
    "(string \<Rightarrow> goerr + int) \<Rightarrow> string list \<Rightarrow> goerr + (int \<times> int \<times> string list)" where
  "parseArgs ParseDuration args =
     (if length args < 3 then Inl (ErrorString ''usage: retry <count> <sleep> <command> [args...]'')
      else case Atoi (args ! 0) of
        None \<Rightarrow> Inl (WrapError ''invalid count'' (ExtError ''strconv.Atoi''))
      | Some count \<Rightarrow>
          if count < 0 then Inl (ErrorString ''negative retries are not allowed'')
          else case ParseDuration (args ! 1) of
            Inl err \<Rightarrow> Inl (WrapError ''invalid sleep duration'' err)
          | Inr dur \<Rightarrow> Inr (count, dur, drop 2 args))"

text \<open>\<open>i++\<close> on a 64-bit \<open>int\<close>.\<close>

definition incr :: "int \<Rightarrow> int" where
  "incr i = (if i = 2 ^ 63 - 1 then - (2 ^ 63) else i + 1)"

partial_function (option) retry_from ::
    "(string list \<Rightarrow> 'w \<Rightarrow> run_result \<times> 'w) \<Rightarrow> (int \<Rightarrow> 'w \<Rightarrow> 'w) \<Rightarrow> int \<Rightarrow> int \<Rightarrow> string list \<Rightarrow> int \<Rightarrow> 'w \<Rightarrow>
     (unit outcome \<times> 'w) option" where
  "retry_from Run sleep count dur args i w =
     (if i \<le> count then
        (case Run args w of
           (CannotRun err, w') \<Rightarrow> Some (Fail (WrapError ''cannot run command'' err), w')
         | (Exited code, w') \<Rightarrow>
             if code \<noteq> 0 then Some (Ok (), w')
             else retry_from Run sleep count dur args (incr i) (sleep dur w'))
      else Some (Fail (ErrorString ''ran out of retries''), w))"

definition retry ::
    "(string list \<Rightarrow> 'w \<Rightarrow> run_result \<times> 'w) \<Rightarrow> (int \<Rightarrow> 'w \<Rightarrow> 'w) \<Rightarrow> int \<Rightarrow> int \<Rightarrow> string list \<Rightarrow> ('w, unit) io" where
  "retry Run sleep count dur args = retry_from Run sleep count dur args 0"

text \<open>\<open>main\<close>: an error is printed and gives the exit status 1.\<close>

definition retry_main ::
    "(string \<Rightarrow> goerr + int) \<Rightarrow> (string list \<Rightarrow> 'w \<Rightarrow> run_result \<times> 'w) \<Rightarrow> (int \<Rightarrow> 'w \<Rightarrow> 'w) \<Rightarrow> string list \<Rightarrow> 'w \<Rightarrow>
     (nat \<times> 'w) option" where
  "retry_main ParseDuration Run sleep args w =
     (case parseArgs ParseDuration args of
        Inl err \<Rightarrow> Some (1, w)
      | Inr (count, dur, command) \<Rightarrow>
          (case retry Run sleep count dur command w of
             None \<Rightarrow> None
           | Some (r, w') \<Rightarrow> Some (if r = Ok () then 0 else 1, w')))"

text \<open>The world before run \<open>k\<close>, counted from zero, when all runs before it exited with zero.\<close>

definition before_run ::
    "(string list \<Rightarrow> 'w \<Rightarrow> run_result \<times> 'w) \<Rightarrow> (int \<Rightarrow> 'w \<Rightarrow> 'w) \<Rightarrow> int \<Rightarrow> string list \<Rightarrow> nat \<Rightarrow> 'w \<Rightarrow> 'w" where
  "before_run Run sleep dur args k w = ((\<lambda>v. sleep dur (snd (Run args v))) ^^ k) w"

definition result_of ::
    "(string list \<Rightarrow> 'w \<Rightarrow> run_result \<times> 'w) \<Rightarrow> (int \<Rightarrow> 'w \<Rightarrow> 'w) \<Rightarrow> int \<Rightarrow> string list \<Rightarrow> nat \<Rightarrow> 'w \<Rightarrow> run_result" where
  "result_of Run sleep dur args k w = fst (Run args (before_run Run sleep dur args k w))"

lemma before_run_simps:
  "before_run Run sleep dur args 0 w = w"
  "before_run Run sleep dur args (Suc k) w = before_run Run sleep dur args k (sleep dur (snd (Run args w)))"
  by (simp_all add: before_run_def funpow_Suc_right del: funpow.simps(2))

lemma result_of_simps:
  "result_of Run sleep dur args 0 w = fst (Run args w)"
  "result_of Run sleep dur args (Suc k) w = result_of Run sleep dur args k (sleep dur (snd (Run args w)))"
  by (simp_all add: result_of_def before_run_simps)

text \<open>The ways a loop of \<open>n\<close> rounds can end.\<close>

definition retry_ends ::
    "(string list \<Rightarrow> 'w \<Rightarrow> run_result \<times> 'w) \<Rightarrow> (int \<Rightarrow> 'w \<Rightarrow> 'w) \<Rightarrow> int \<Rightarrow> string list \<Rightarrow> nat \<Rightarrow> 'w \<Rightarrow> (unit outcome \<times> 'w) option \<Rightarrow> bool" where
  "retry_ends Run sleep dur args n w res \<longleftrightarrow>
     (\<exists>k < n. (\<forall>j < k. result_of Run sleep dur args j w = Exited 0) \<and>
        (let w' = snd (Run args (before_run Run sleep dur args k w)) in
         case result_of Run sleep dur args k w of
           CannotRun err \<Rightarrow> res = Some (Fail (WrapError ''cannot run command'' err), w')
         | Exited code \<Rightarrow> code \<noteq> 0 \<and> res = Some (Ok (), w'))) \<or>
     (\<forall>j < n. result_of Run sleep dur args j w = Exited 0) \<and>
       res = Some (Fail (ErrorString ''ran out of retries''), before_run Run sleep dur args n w)"

lemma retry_ends_Suc:
  assumes "Run args w = (Exited 0, v)" "retry_ends Run sleep dur args n (sleep dur v) res"
  shows "retry_ends Run sleep dur args (Suc n) w res"
  using assms(2) unfolding retry_ends_def
proof (elim disjE exE conjE, goal_cases)
  case (1 k)
  then show ?case
    by (intro disjI1 exI [of _ "Suc k"])
      (auto simp: result_of_simps before_run_simps assms(1) less_Suc_eq_0_disj)
next
  case 2
  then show ?case
    by (intro disjI2) (auto simp: result_of_simps before_run_simps assms(1) less_Suc_eq_0_disj)
qed

lemma retry_from_ends:
  "count < 2 ^ 63 - 1 \<Longrightarrow> i = count + 1 - int n \<Longrightarrow>
     retry_ends Run sleep dur args n w (retry_from Run sleep count dur args i w)"
proof (induction n arbitrary: i w)
  case 0
  then show ?case
    by (simp add: retry_from.simps [of Run sleep count dur args "count + 1" w] retry_ends_def before_run_simps)
next
  case (Suc n)
  have go: "i \<le> count" and nx: "incr i = count + 1 - int n" using Suc.prems by (auto simp: incr_def)
  obtain res v where run: "Run args w = (res, v)" by (cases "Run args w")
  show ?case
  proof (cases "res = Exited 0")
    case True
    have "retry_from Run sleep count dur args i w = retry_from Run sleep count dur args (incr i) (sleep dur v)"
      using go run True by (simp add: retry_from.simps [of Run sleep count dur args i w])
    then show ?thesis
      using retry_ends_Suc [of Run args w v] run True Suc.IH [OF Suc.prems(1) nx] by simp
  next
    case False
    show ?thesis unfolding retry_ends_def
      by (intro disjI1 exI [of _ 0])
        (use go run False in \<open>auto simp: retry_from.simps [of Run sleep count dur args i w] result_of_simps before_run_simps
          split: run_result.split\<close>)
  qed
qed

text \<open>
  Repeating a command: \<open>retry\<close> with a count below the largest \<open>int\<close> returns. It runs the
  command once more than the count says as long as the runs exit with zero, sleeping in between,
  and then reports that it ran out of retries; the first run with another exit code ends it
  without an error, and a command that cannot be run ends it with that error.
\<close>

theorem retry_until_fail:
  assumes "0 \<le> count" and "count < 2 ^ 63 - 1"
  shows "retry_ends Run sleep dur args (nat count + 1) w (retry Run sleep count dur args w)"
  unfolding retry_def by (rule retry_from_ends [OF assms(2)]) (use assms(1) in simp)

text \<open>A command that fails on its third run; the state counts the runs.\<close>

definition third_time :: "string list \<Rightarrow> nat \<Rightarrow> run_result \<times> nat" where
  "third_time args n = (Exited (if n = 2 then 1 else 0), Suc n)"

theorem retry_until_fail_witness:
  "retry_ends third_time (\<lambda>d n. n) 1 [''true''] 11 0 (retry third_time (\<lambda>d n. n) 10 1 [''true''] 0)"
  using retry_until_fail [of 10 third_time "\<lambda>d n. n" 1 "[''true'']" 0] by simp

section \<open>test-http-transcoding\<close>

text \<open>
  The answer of the HTTP client: a status code when there is a response, and an error. The program
  ends by \<open>os.Exit\<close>, so the result of the loops is the exit status. The loops send the request in
  the configuration, \<open>cfg.req\<close>, which is the parameter \<open>req\<close> here.
\<close>

record poll_config =
  pc_Attempts :: int
  pc_ContinueOnSuccess :: bool
  pc_ErrorThreshold :: "64 word"

partial_function (option) runUntilSuccess ::
    "('r \<Rightarrow> 'w \<Rightarrow> (int option \<times> goerr option) \<times> 'w) \<Rightarrow> (int \<Rightarrow> 'w \<Rightarrow> 'w) \<Rightarrow> poll_config \<Rightarrow> 'r \<Rightarrow> 'b backoff \<Rightarrow> 'b \<Rightarrow> 'w \<Rightarrow>
     (nat \<times> 'w) option" where
  "runUntilSuccess Do sleep cfg req bo b w =
     (case Do req w of
        ((resp, err), w') \<Rightarrow>
          if err = None \<and> resp = Some 200 \<and> \<not> pc_ContinueOnSuccess cfg then Some (0, w')
          else
            let d = Duration bo b in
            if Attempt bo (snd d) \<ge> pc_Attempts cfg \<and> pc_Attempts cfg \<ge> 0 then Some (1, w')
            else runUntilSuccess Do sleep cfg req bo (snd d) (sleep (fst d) w'))"

partial_function (option) runUntilFail ::
    "('r \<Rightarrow> 'w \<Rightarrow> (int option \<times> goerr option) \<times> 'w) \<Rightarrow> (int \<Rightarrow> 'w \<Rightarrow> 'w) \<Rightarrow> poll_config \<Rightarrow> 'r \<Rightarrow> 'b backoff \<Rightarrow> 'b \<Rightarrow>
     64 word \<Rightarrow> 'w \<Rightarrow> (nat \<times> 'w) option" where
  "runUntilFail Do sleep cfg req bo b errCnt w =
     (case Do req w of
        ((resp, err), w') \<Rightarrow>
          if err = None \<and> resp = Some 200 then
            let d = Duration bo b in
            if Attempt bo (snd d) \<ge> pc_Attempts cfg \<and> pc_Attempts cfg \<ge> 0 then Some (0, w')
            else runUntilFail Do sleep cfg req bo (snd d) errCnt (sleep (fst d) w')
          else if errCnt < pc_ErrorThreshold cfg then
            let d = Duration bo b in
            runUntilFail Do sleep cfg req bo (snd d) (errCnt + 1) (sleep (fst d) w')
          else Some (1, w'))"

text \<open>
  The state of the program: the readers it has made, by address, with what is still unread in
  them, and the outside world. \<open>strings.NewReader\<close> makes a reader; a request refers to one.
\<close>

record 'w poll_state =
  unread :: "nat \<Rightarrow> string"
  next_reader :: nat
  outside :: 'w

definition NewReader :: "string \<Rightarrow> 'w poll_state \<Rightarrow> nat \<times> 'w poll_state" where
  "NewReader str s =
     (next_reader s, s\<lparr>unread := (unread s)(next_reader s := str), next_reader := Suc (next_reader s)\<rparr>)"

record poll_flags = poll_config +
  pf_URL :: string
  pf_Host :: string
  pf_Dur :: int
  pf_Body :: string
  pf_PollUntilError :: bool

record 'u http_request =
  req_Method :: string
  req_URL :: 'u
  req_Body :: nat
  req_Host :: string

text \<open>
  \<open>http.DefaultClient.Do\<close>. What happens on the wire is the parameter \<open>send\<close>: given the request and
  what its reader holds it says how many bytes it has read, the answer and the new world. The
  bytes that were read are gone from the reader.
\<close>

definition client_Do ::
    "('u http_request \<Rightarrow> string \<Rightarrow> 'w \<Rightarrow> nat \<times> (int option \<times> goerr option) \<times> 'w) \<Rightarrow> 'u http_request \<Rightarrow> 'w poll_state \<Rightarrow>
     (int option \<times> goerr option) \<times> 'w poll_state" where
  "client_Do send req s =
     (let r = req_Body req in
      case send req (unread s r) (outside s) of
        (n, res, w) \<Rightarrow> (res, s\<lparr>unread := (unread s)(r := drop n (unread s r)), outside := w\<rparr>))"

definition poll_main ::
    "(string \<Rightarrow> goerr + 'u) \<Rightarrow>
     ('u http_request \<Rightarrow> string \<Rightarrow> 'w \<Rightarrow> nat \<times> (int option \<times> goerr option) \<times> 'w) \<Rightarrow> (int \<Rightarrow> 'w \<Rightarrow> 'w) \<Rightarrow>
     'b backoff \<Rightarrow> poll_flags \<Rightarrow> 'w poll_state \<Rightarrow> (nat \<times> 'w poll_state) option" where
  "poll_main Parse send sleep bo cfg s =
     (let b = newBackoff bo (pf_Dur cfg) (pf_Dur cfg);
          pause = (\<lambda>d s. s\<lparr>outside := sleep d (outside s)\<rparr>) in
      case Parse (pf_URL cfg) of
        Inl err \<Rightarrow> Some (1, s)
      | Inr url \<Rightarrow>
          let (body, s') = NewReader (pf_Body cfg) s;
              req = \<lparr>req_Method = ''POST'', req_URL = url, req_Body = body, req_Host = pf_Host cfg\<rparr> in
          if \<not> pf_PollUntilError cfg
          then runUntilSuccess (client_Do send) pause (poll_config.truncate cfg) req bo b s'
          else runUntilFail (client_Do send) pause (poll_config.truncate cfg) req bo b 0 s')"

section \<open>The attempts\<close>

text \<open>The state before attempt \<open>k\<close>, counted from zero, and whether attempt \<open>k\<close> is answered with 200.\<close>

primrec before_attempt ::
    "('r \<Rightarrow> 'w \<Rightarrow> (int option \<times> goerr option) \<times> 'w) \<Rightarrow> (int \<Rightarrow> 'w \<Rightarrow> 'w) \<Rightarrow> 'r \<Rightarrow> 'b backoff \<Rightarrow> nat \<Rightarrow> 'b \<Rightarrow> 'w \<Rightarrow> 'w" where
  "before_attempt Do sleep req bo 0 b w = w"
| "before_attempt Do sleep req bo (Suc k) b w =
     before_attempt Do sleep req bo k (snd (Duration bo b)) (sleep (fst (Duration bo b)) (snd (Do req w)))"

definition answered_ok where
  "answered_ok Do sleep req bo b w k \<longleftrightarrow> fst (Do req (before_attempt Do sleep req bo k b w)) = (Some 200, None)"

lemma answered_ok_simps:
  "answered_ok Do sleep req bo b w 0 \<longleftrightarrow> fst (Do req w) = (Some 200, None)"
  "answered_ok Do sleep req bo b w (Suc k) \<longleftrightarrow>
     answered_ok Do sleep req bo (snd (Duration bo b)) (sleep (fst (Duration bo b)) (snd (Do req w))) k"
  by (simp_all add: answered_ok_def)

text \<open>
  How polling until success may end at attempt \<open>k\<close> with an exit status, when \<open>a\<close> attempts were made
  before: no earlier attempt succeeded, unless it was told to go on, or was the last one allowed.
\<close>

definition success_ends :: "poll_config \<Rightarrow> int \<Rightarrow> (nat \<Rightarrow> bool) \<Rightarrow> nat \<Rightarrow> nat \<Rightarrow> bool" where
  "success_ends cfg a ok k code \<longleftrightarrow>
     (\<forall>j < k. (ok j \<longrightarrow> pc_ContinueOnSuccess cfg) \<and> a + int j + 1 < pc_Attempts cfg) \<and>
     (if ok k \<and> \<not> pc_ContinueOnSuccess cfg then code = 0 else code = 1 \<and> pc_Attempts cfg \<le> a + int k + 1)"

text \<open>Polling until an error, when \<open>e\<close> errors were counted before; the limit is not looked at after an error.\<close>

definition errors_before :: "(nat \<Rightarrow> bool) \<Rightarrow> nat \<Rightarrow> nat" where
  "errors_before ok k = length (filter (\<lambda>j. \<not> ok j) [0..<k])"

definition fail_ends :: "poll_config \<Rightarrow> int \<Rightarrow> nat \<Rightarrow> (nat \<Rightarrow> bool) \<Rightarrow> nat \<Rightarrow> nat \<Rightarrow> bool" where
  "fail_ends cfg a e ok k code \<longleftrightarrow>
     (\<forall>j < k. ok j \<longrightarrow> a + int j + 1 < pc_Attempts cfg) \<and>
     (if ok k then code = 0 \<and> pc_Attempts cfg \<le> a + int k + 1 \<and> e + errors_before ok k \<le> unat (pc_ErrorThreshold cfg)
      else code = 1 \<and> e + errors_before ok k = unat (pc_ErrorThreshold cfg))"

lemma success_ends_Suc:
  assumes "ok 0 \<longrightarrow> pc_ContinueOnSuccess cfg" "a + 1 < pc_Attempts cfg"
    and "success_ends cfg (a + 1) (\<lambda>k. ok (Suc k)) k code"
  shows "success_ends cfg a ok (Suc k) code"
  using assms by (auto simp: success_ends_def less_Suc_eq_0_disj algebra_simps split: if_splits)

lemma errors_before_Suc: "errors_before ok (Suc k) = (if ok 0 then 0 else 1) + errors_before (\<lambda>j. ok (Suc j)) k"
proof -
  have "[0..<Suc k] = 0 # map Suc [0..<k]" by (simp add: map_Suc_upt upt_conv_Cons del: upt_Suc)
  then show ?thesis unfolding errors_before_def by (simp add: filter_map comp_def del: upt_Suc)
qed

lemma fail_ends_Suc:
  assumes "ok 0 \<longrightarrow> a + 1 < pc_Attempts cfg" "fail_ends cfg (a + 1) (if ok 0 then e else Suc e) (\<lambda>k. ok (Suc k)) k code"
  shows "fail_ends cfg a e ok (Suc k) code"
  using assms by (auto simp: fail_ends_def errors_before_Suc less_Suc_eq_0_disj algebra_simps split: if_splits)

lemma run_until_success_ends:
  assumes "backoff_ok bo" "0 \<le> pc_Attempts cfg"
  shows "\<exists>k code. success_ends cfg (Attempt bo b) (answered_ok Do sleep req bo b w) k code \<and>
    runUntilSuccess Do sleep cfg req bo b w = Some (code, snd (Do req (before_attempt Do sleep req bo k b w)))"
proof (induction "nat (pc_Attempts cfg - Attempt bo b)" arbitrary: b w rule: less_induct)
  case less
  obtain resp err v where d: "Do req w = ((resp, err), v)" by (metis surj_pair)
  let ?b = "snd (Duration bo b)" and ?w = "sleep (fst (Duration bo b)) v"
  have a: "Attempt bo ?b = Attempt bo b + 1" using backoff_okD(2) [OF assms(1)] by simp
  have ok: "answered_ok Do sleep req bo b w 0 \<longleftrightarrow> err = None \<and> resp = Some 200" by (auto simp: answered_ok_simps d)
  show ?case
  proof (cases "(answered_ok Do sleep req bo b w 0 \<longrightarrow> pc_ContinueOnSuccess cfg) \<and> Attempt bo b + 1 < pc_Attempts cfg")
    case False
    then show ?thesis using ok d a assms(2)
      by (intro exI [of _ 0] exI [of _ "if answered_ok Do sleep req bo b w 0 \<and> \<not> pc_ContinueOnSuccess cfg then 0 else 1"])
        (auto simp: success_ends_def runUntilSuccess.simps [of Do sleep cfg req bo b w] Let_def)
  next
    case True
    then have step: "runUntilSuccess Do sleep cfg req bo b w = runUntilSuccess Do sleep cfg req bo ?b ?w"
      using d a ok by (subst runUntilSuccess.simps) (auto simp: Let_def)
    have "nat (pc_Attempts cfg - Attempt bo ?b) < nat (pc_Attempts cfg - Attempt bo b)" using True a by simp
    from less [OF this, of ?w] obtain k code
      where k: "success_ends cfg (Attempt bo ?b) (answered_ok Do sleep req bo ?b ?w) k code"
        "runUntilSuccess Do sleep cfg req bo ?b ?w = Some (code, snd (Do req (before_attempt Do sleep req bo k ?b ?w)))"
      by blast
    have "success_ends cfg (Attempt bo b) (answered_ok Do sleep req bo b w) (Suc k) code"
      by (rule success_ends_Suc) (use True k(1) a d in \<open>simp_all add: answered_ok_simps\<close>)
    then show ?thesis using step k(2) d by (intro exI [of _ "Suc k"] exI [of _ code]) simp
  qed
qed

lemma unat_below_Suc: "n < (t :: 64 word) \<Longrightarrow> unat (n + 1) = Suc (unat n)"
proof -
  assume "n < t"
  then have "unat n < unat t" "unat t < 2 ^ 64" using unsigned_less [of t] by (simp_all add: word_less_nat_alt)
  then show ?thesis by (simp add: unat_word_ariths)
qed

lemma run_until_fail_ends:
  assumes "backoff_ok bo" "0 \<le> pc_Attempts cfg"
  shows "n \<le> pc_ErrorThreshold cfg \<Longrightarrow>
    \<exists>k code. fail_ends cfg (Attempt bo b) (unat n) (answered_ok Do sleep req bo b w) k code \<and>
    runUntilFail Do sleep cfg req bo b n w = Some (code, snd (Do req (before_attempt Do sleep req bo k b w)))"
proof (induction "nat (pc_Attempts cfg - Attempt bo b) + (unat (pc_ErrorThreshold cfg) - unat n)"
    arbitrary: b n w rule: less_induct)
  case less
  obtain resp err v where d: "Do req w = ((resp, err), v)" by (metis surj_pair)
  let ?b = "snd (Duration bo b)" and ?w = "sleep (fst (Duration bo b)) v"
  let ?ok = "answered_ok Do sleep req bo b w"
  have a: "Attempt bo ?b = Attempt bo b + 1" using backoff_okD(2) [OF assms(1)] by simp
  have ok: "?ok 0 \<longleftrightarrow> err = None \<and> resp = Some 200" by (auto simp: answered_ok_simps d)
  have below: "unat n \<le> unat (pc_ErrorThreshold cfg)" using less.prems by (simp add: word_le_nat_alt)
  let ?n = "if ?ok 0 then n else n + 1"
  show ?case
  proof (cases "if ?ok 0 then Attempt bo b + 1 < pc_Attempts cfg else n < pc_ErrorThreshold cfg")
    case False
    have last: "\<not> n < pc_ErrorThreshold cfg \<Longrightarrow> unat n = unat (pc_ErrorThreshold cfg)" using less.prems by simp
    show ?thesis
    proof (cases "?ok 0")
      case True
      then show ?thesis using False ok d a assms(2) below
        by (intro exI [of _ 0]) (simp add: fail_ends_def runUntilFail.simps [of Do sleep cfg req bo b n w] Let_def errors_before_def)
    next
      case err: False
      then have "runUntilFail Do sleep cfg req bo b n w = Some (1, v)"
        using False ok d by (subst runUntilFail.simps) auto
      then show ?thesis using err d last False
        by (rule_tac x = 0 in exI, rule_tac x = 1 in exI) (simp add: fail_ends_def errors_before_def)
    qed
  next
    case True
    have step: "runUntilFail Do sleep cfg req bo b n w = runUntilFail Do sleep cfg req bo ?b ?n ?w"
      using True d a ok by (subst runUntilFail.simps) (auto simp: Let_def split: if_splits)
    have n: "?n \<le> pc_ErrorThreshold cfg" "unat ?n = (if ?ok 0 then unat n else Suc (unat n))"
      using True less.prems unat_below_Suc [of n "pc_ErrorThreshold cfg"]
      by (auto simp: word_less_nat_alt word_le_nat_alt split: if_splits)
    have "nat (pc_Attempts cfg - Attempt bo ?b) + (unat (pc_ErrorThreshold cfg) - unat ?n) <
        nat (pc_Attempts cfg - Attempt bo b) + (unat (pc_ErrorThreshold cfg) - unat n)"
      using True a n(2) by (auto simp: word_less_nat_alt split: if_splits)
    from less(1) [OF this n(1), of ?w] obtain k code
      where k: "fail_ends cfg (Attempt bo ?b) (unat ?n) (answered_ok Do sleep req bo ?b ?w) k code"
        "runUntilFail Do sleep cfg req bo ?b ?n ?w = Some (code, snd (Do req (before_attempt Do sleep req bo k ?b ?w)))"
      by blast
    have "fail_ends cfg (Attempt bo b) (unat n) ?ok (Suc k) code"
    proof (rule fail_ends_Suc)
      show "?ok 0 \<longrightarrow> Attempt bo b + 1 < pc_Attempts cfg" using True by simp
      show "fail_ends cfg (Attempt bo b + 1) (if ?ok 0 then unat n else Suc (unat n)) (\<lambda>k. ?ok (Suc k)) k code"
        using k(1) unfolding a n(2) by (simp add: answered_ok_simps(2) d)
    qed
    then show ?thesis using step k(2) d by (intro exI [of _ "Suc k"] exI [of _ code]) simp
  qed
qed

section \<open>The body of the request\<close>

text \<open>
  What the HTTP client documents: an attempt that does not reach a server has read nothing, and
  one that does has read the body to its end.
\<close>

definition sends_whole :: "('u http_request \<Rightarrow> string \<Rightarrow> 'w \<Rightarrow> nat \<times> 'x) \<Rightarrow> bool" where
  "sends_whole send \<longleftrightarrow> (\<forall>req str w. fst (send req str w) = 0 \<or> length str \<le> fst (send req str w))"

text \<open>What attempt \<open>k\<close> reads of its body, \<open>str\<close> being what its reader holds.\<close>

definition bytes_read where
  "bytes_read send req s = fst (send req (unread s (req_Body req)) (outside s))"

abbreviation pause_with where
  "pause_with sleep \<equiv> \<lambda>d s. s\<lparr>outside := sleep d (outside s)\<rparr>"

lemma client_Do_unread:
  "unread (snd (client_Do send req s)) (req_Body req) = drop (bytes_read send req s) (unread s (req_Body req))"
  by (simp add: client_Do_def bytes_read_def Let_def split: prod.split)

lemma unread_before_attempt:
  fixes sleep :: "int \<Rightarrow> 'w \<Rightarrow> 'w" and w :: "'w poll_state" and req :: "'u http_request" and bo :: "'b backoff"
  assumes "sends_whole send"
  defines "at \<equiv> \<lambda>k b w. before_attempt (client_Do send) (pause_with sleep) req bo k b w"
  shows "unread (at k b w) (req_Body req) =
    (if \<exists>j < k. 0 < bytes_read send req (at j b w) then [] else unread w (req_Body req))"
proof (induction k arbitrary: b w)
  case 0
  then show ?case by (simp add: at_def)
next
  case (Suc k)
  let ?w = "pause_with sleep (fst (Duration bo b)) (snd (client_Do send req w))" and ?b = "snd (Duration bo b)"
  have split: "(\<exists>j < Suc k. 0 < bytes_read send req (at j b w)) \<longleftrightarrow>
      0 < bytes_read send req w \<or> (\<exists>j < k. 0 < bytes_read send req (at j ?b ?w))"
    by (auto simp: at_def less_Suc_eq_0_disj)
  have "bytes_read send req w = 0 \<or> length (unread w (req_Body req)) \<le> bytes_read send req w"
    using assms(1) by (auto simp: sends_whole_def bytes_read_def)
  then have left: "unread ?w (req_Body req) = (if 0 < bytes_read send req w then [] else unread w (req_Body req))"
    by (auto simp: client_Do_unread)
  have "at (Suc k) b w = at k ?b ?w" by (simp add: at_def)
  then show ?case using Suc.IH [of ?b ?w] unfolding split left by (auto split: if_splits)
qed

text \<open>
  C37. Polling a URL: with a limit on the attempts test-http-transcoding ends. Until success it ends
  with status 0 at the first attempt answered with 200 without an error, when not told to go
  on, and with status 1 at the last attempt allowed; until an error it ends with status 0 at the
  first success that is not before the limit, and with status 1 at the first error after as many
  errors as the threshold allows. All attempts share one request and its reader: attempts find
  the body of the flags in it until one of them has reached a server, and each later attempt finds
  it empty.
\<close>

theorem later_attempts_send_no_body:
  fixes sleep :: "int \<Rightarrow> 'w \<Rightarrow> 'w" and s :: "'w poll_state"
  assumes "backoff_ok bo" and "0 \<le> pc_Attempts cfg" and "Parse (pf_URL cfg) = Inr url" and "sends_whole send"
  defines "start \<equiv> snd (NewReader (pf_Body cfg) s)"
    and "req \<equiv> \<lparr>req_Method = ''POST'', req_URL = url, req_Body = next_reader s, req_Host = pf_Host cfg\<rparr>"
    and "b \<equiv> newBackoff bo (pf_Dur cfg) (pf_Dur cfg)"
  defines "at \<equiv> \<lambda>k. before_attempt (client_Do send) (pause_with sleep) req bo k b start"
    and "ok \<equiv> answered_ok (client_Do send) (pause_with sleep) req bo b start"
  shows "(\<exists>k code. poll_main Parse send sleep bo cfg s = Some (code, snd (client_Do send req (at k))) \<and>
      (if pf_PollUntilError cfg then fail_ends (poll_config.truncate cfg) 0 0 ok k code
       else success_ends (poll_config.truncate cfg) 0 ok k code)) \<and>
    (\<forall>k. unread (at k) (req_Body req) =
       (if \<exists>j < k. 0 < bytes_read send req (at j) then [] else pf_Body cfg))"
proof
  let ?cfg = "poll_config.truncate cfg"
  have n: "0 \<le> pc_Attempts ?cfg" using assms(2) by (simp add: poll_config.truncate_def)
  have main: "poll_main Parse send sleep bo cfg s =
      (if \<not> pf_PollUntilError cfg then runUntilSuccess (client_Do send) (pause_with sleep) ?cfg req bo b start
       else runUntilFail (client_Do send) (pause_with sleep) ?cfg req bo b 0 start)"
    using assms(3) by (simp add: poll_main_def NewReader_def start_def req_def b_def Let_def)
  have zero: "Attempt bo b = 0" unfolding b_def by (rule backoff_okD(1) [OF assms(1)])
  show "\<exists>k code. poll_main Parse send sleep bo cfg s = Some (code, snd (client_Do send req (at k))) \<and>
      (if pf_PollUntilError cfg then fail_ends ?cfg 0 0 ok k code else success_ends ?cfg 0 ok k code)"
    using run_until_success_ends [OF assms(1) n, of b "client_Do send" "pause_with sleep" req start]
      run_until_fail_ends [OF assms(1) n, of 0 b "client_Do send" "pause_with sleep" req start]
    unfolding main zero at_def ok_def by (cases "pf_PollUntilError cfg") (simp_all, blast+)
  show "\<forall>k. unread (at k) (req_Body req) =
       (if \<exists>j < k. 0 < bytes_read send req (at j) then [] else pf_Body cfg)"
    unfolding at_def unread_before_attempt [OF assms(4)] by (auto simp: start_def req_def NewReader_def)
qed

text \<open>
  A server that is up from the second attempt on and answers 200 only from the fourth attempt on.
  The world holds the bodies received and the number of attempts.
\<close>

definition late_server ::
    "unit http_request \<Rightarrow> string \<Rightarrow> string list \<times> nat \<Rightarrow> nat \<times> (int option \<times> goerr option) \<times> string list \<times> nat" where
  "late_server req str = (\<lambda>(bs, n).
     if n = 0 then (0, (None, Some (ExtError ''connection refused'')), bs, Suc n)
     else (Suc (length str), (Some (if n < 3 then 404 else 200), None), bs @ [str], Suc n))"

definition poll_sample :: poll_flags where
  "poll_sample = \<lparr>pc_Attempts = 5, pc_ContinueOnSuccess = False, pc_ErrorThreshold = 0, pf_URL = [], pf_Host = [],
     pf_Dur = 1, pf_Body = ''{}'', pf_PollUntilError = False\<rparr>"

definition poll_start :: "(string list \<times> nat) poll_state" where
  "poll_start = \<lparr>unread = (\<lambda>_. []), next_reader = 0, outside = ([], 0)\<rparr>"

lemma poll_sample_run:
  "\<exists>s. poll_main (\<lambda>_. Inr ()) late_server (\<lambda>_ w. w) counting_backoff poll_sample poll_start = Some (0, s) \<and>
     outside s = ([''{}'', [], []], 4)"
  by (simp add: poll_main_def poll_sample_def poll_start_def NewReader_def counting_backoff_def
      poll_config.truncate_def Let_def late_server_def client_Do_def runUntilSuccess.simps)

theorem later_attempts_send_no_body_witness:
  "\<exists>s k. poll_main (\<lambda>_. Inr ()) late_server (\<lambda>_ w. w) counting_backoff poll_sample poll_start = Some (0, s) \<and>
     outside s = ([''{}'', [], []], 4) \<and> k < (5::nat)"
proof -
  obtain s where s: "poll_main (\<lambda>_. Inr ()) late_server (\<lambda>_ w. w) counting_backoff poll_sample poll_start = Some (0, s)"
    "outside s = ([''{}'', [], []], 4)" using poll_sample_run by blast
  have sends: "sends_whole late_server" by (auto simp: sends_whole_def late_server_def)
  have sample: "0 \<le> pc_Attempts poll_sample" "(\<lambda>_. Inr ()) (pf_URL poll_sample) = Inr ()"
    "pf_PollUntilError poll_sample = False" "pc_Attempts (poll_config.truncate poll_sample) = 5"
    by (simp_all add: poll_sample_def poll_config.truncate_def)
  from later_attempts_send_no_body [OF counting_backoff_ok sample(1,2) sends, where sleep = "\<lambda>_ w. w" and s = poll_start,
      THEN conjunct1]
  obtain ok k code where "success_ends (poll_config.truncate poll_sample) 0 ok k code"
    unfolding sample(3) if_False by blast
  then have "\<forall>j < k. int j + 1 < 5" unfolding success_ends_def sample(4) by simp
  then have "k < 5" by (cases k) auto
  with s show ?thesis by blast
qed

end
