(* ===== verification/Cli.thy ===== *)
theory Cli
  imports ReflectionRetry
begin

text \<open>
  The command \<open>transflect\<close> (cmd/transflect/main.go): query a server, then write the descriptor set
  in one of six formats. The file system, the two embedded templates with the template engine,
  and the protobuf codecs are parameters; \<open>net.SplitHostPort\<close> is modelled. The parsing of the
  command line is done by a library and left out.
\<close>

section \<open>Addresses\<close>

text \<open>The index of the first and of the last occurrence of a byte.\<close>

fun index_byte :: "char \<Rightarrow> string \<Rightarrow> nat option" where
  "index_byte c [] = None"
| "index_byte c (x # xs) = (if x = c then Some 0 else map_option Suc (index_byte c xs))"

fun last_index_byte :: "char \<Rightarrow> string \<Rightarrow> nat option" where
  "last_index_byte c [] = None"
| "last_index_byte c (x # xs) =
     (case last_index_byte c xs of
        Some i \<Rightarrow> Some (Suc i)
      | None \<Rightarrow> if x = c then Some 0 else None)"

definition addr_err :: "string \<Rightarrow> goerr + 'a" where
  "addr_err why = Inl (ExtError why)"

text \<open>The checks for stray brackets at the end of \<open>net.SplitHostPort\<close>.\<close>

definition split_checked :: "nat \<Rightarrow> nat \<Rightarrow> nat \<Rightarrow> string \<Rightarrow> string \<Rightarrow> goerr + string \<times> string" where
  "split_checked j k i host hostport =
     (if index_byte (CHR ''['') (drop j hostport) \<noteq> None then addr_err ''unexpected [ in address''
      else if index_byte (CHR '']'') (drop k hostport) \<noteq> None then addr_err ''unexpected ] in address''
      else Inr (host, drop (i + 1) hostport))"

definition SplitHostPort :: "string \<Rightarrow> goerr + string \<times> string" where
  "SplitHostPort hostport =
     (case last_index_byte (CHR '':'') hostport of
        None \<Rightarrow> addr_err ''missing port in address''
      | Some i \<Rightarrow>
          if hostport ! 0 = CHR ''['' then
            (case index_byte (CHR '']'') hostport of
               None \<Rightarrow> addr_err ''missing ] in address''
             | Some e \<Rightarrow>
                 if e + 1 = length hostport then addr_err ''missing port in address''
                 else if e + 1 = i then split_checked 1 (e + 1) i (take (e - 1) (drop 1 hostport)) hostport
                 else if hostport ! (e + 1) = CHR '':'' then addr_err ''too many colons in address''
                 else addr_err ''missing port in address'')
          else
            let host = take i hostport in
            if index_byte (CHR '':'') host \<noteq> None then addr_err ''too many colons in address''
            else split_checked 0 0 i host hostport)"

definition getPort :: "string \<Rightarrow> goerr + int" where
  "getPort addr =
     (case SplitHostPort addr of
        Inl err \<Rightarrow> Inl (WrapError ''cannot parse address'' err)
      | Inr (_, port) \<Rightarrow>
          (case Atoi port of
             None \<Rightarrow> Inl (WrapError ''cannot parse port'' (ExtError ''strconv.Atoi''))
           | Some i \<Rightarrow> Inr i))"

lemma index_byte_None: "index_byte c s = None \<longleftrightarrow> c \<notin> set s"
  by (induction s) auto

lemma index_byte_append: "c \<notin> set s \<Longrightarrow> index_byte c (s @ c # t) = Some (length s)"
  by (induction s) auto

lemma last_index_byte_None: "last_index_byte c s = None \<longleftrightarrow> c \<notin> set s"
  by (induction s) (auto split: option.split)

lemma last_index_byte_append: "c \<notin> set t \<Longrightarrow> last_index_byte c (s @ c # t) = Some (length s)"
proof (induction s)
  case Nil
  then show ?case using last_index_byte_None [of c t] by simp
qed simp

lemma digits_no_separator: "c \<in> {CHR '':'', CHR ''['', CHR '']''} \<Longrightarrow> c \<notin> set (show_nat p)"
  using show_nat_digits [of c p] by (auto simp: digit_of_def)

lemma split_plain:
  assumes "CHR '':'' \<notin> set h" "CHR ''['' \<notin> set h" "CHR '']'' \<notin> set h"
    and "CHR '':'' \<notin> set p" "CHR ''['' \<notin> set p" "CHR '']'' \<notin> set p"
  shows "SplitHostPort (h @ '':'' @ p) = Inr (h, p)"
proof -
  have "last_index_byte (CHR '':'') (h @ '':'' @ p) = Some (length h)"
    using last_index_byte_append [OF assms(4)] by simp
  moreover have "(h @ '':'' @ p) ! 0 \<noteq> CHR ''[''" using assms(2) by (cases h) auto
  ultimately show ?thesis
    using assms by (simp add: SplitHostPort_def split_checked_def index_byte_None Let_def)
qed

lemma split_bracketed:
  assumes "CHR ''['' \<notin> set h" "CHR '']'' \<notin> set h"
    and "CHR '':'' \<notin> set p" "CHR ''['' \<notin> set p" "CHR '']'' \<notin> set p"
  shows "SplitHostPort (''['' @ h @ '']:'' @ p) = Inr (h, p)"
proof -
  have "last_index_byte (CHR '':'') (''['' @ h @ '']:'' @ p) = Some (length h + 2)"
    using last_index_byte_append [OF assms(3), of "''['' @ h @ '']''"] by simp
  moreover have "index_byte (CHR '']'') (''['' @ h @ '']:'' @ p) = Some (length h + 1)"
    using index_byte_append [of "CHR '']''" "''['' @ h" "'':'' @ p"] assms(2) by simp
  ultimately show ?thesis
    using assms by (simp add: SplitHostPort_def split_checked_def index_byte_None)
qed

text \<open>
  Ports of addresses: \<open>getPort\<close> reads back the port of an address that was put together from a
  host and a port in decimal, for a host without colons and brackets as it is, and for one
  with colons, an IPv6 address, in brackets.
\<close>

theorem getPort_reads_port:
  assumes "CHR ''['' \<notin> set host" and "CHR '']'' \<notin> set host" and "p < 2 ^ 63"
  shows "getPort ((if CHR '':'' \<in> set host then ''['' @ host @ '']:'' else host @ '':'') @ show_nat p) =
    Inr (int p)"
proof -
  have p: "CHR '':'' \<notin> set (show_nat p)" "CHR ''['' \<notin> set (show_nat p)" "CHR '']'' \<notin> set (show_nat p)"
    by (simp_all add: digits_no_separator)
  have "SplitHostPort ((if CHR '':'' \<in> set host then ''['' @ host @ '']:'' else host @ '':'') @ show_nat p) =
      Inr (host, show_nat p)"
    using split_plain [OF _ assms(1,2) p] split_bracketed [OF assms(1,2) p] by auto
  then show ?thesis by (simp add: getPort_def Atoi_show_nat [OF assms(3)])
qed

theorem getPort_reads_port_witness:
  "getPort ''[::1]:8080'' = Inr 8080"
proof -
  have "show_nat 8080 = ''8080''"
    by (simp add: show_nat.simps char_of_digit_def char_of_def bit_iff_odd)
  then show ?thesis using getPort_reads_port [of "''::1''" 8080] by simp
qed

section \<open>Output\<close>

record cli_config =
  cf_Address :: string
  cf_Plaintext :: bool
  cf_Authority :: string
  cf_Out :: string
  cf_Format :: string
  cf_HTTPPort :: "32 word"
  cf_App :: string
  cf_Namespace :: string
  cf_IstioPort :: "32 word"
  cf_HTTPPathPrefix :: string
  cf_LogFormat :: string

record tmpl_data =
  td_ProtosetBase64 :: string
  td_Services :: "string list"
  td_AppPort :: int
  td_HTTPPort :: "32 word"
  td_App :: string
  td_Namespace :: string
  td_IstioAppPort :: "32 word"

datatype out_handle = Stdout | OutFile string
datatype template = EnvoyTmpl | IstioTmpl

record 'w cli_env =
  Create :: "string \<Rightarrow> 'w \<Rightarrow> goerr option \<times> 'w"
  Write :: "out_handle \<Rightarrow> byte list \<Rightarrow> 'w \<Rightarrow> goerr option \<times> 'w"
  Execute :: "template \<Rightarrow> out_handle \<Rightarrow> tmpl_data \<Rightarrow> 'w \<Rightarrow> goerr option \<times> 'w"
  MarshalProto :: "file_desc list \<Rightarrow> goerr + byte list"
  MarshalJSON :: "file_desc list \<Rightarrow> goerr + string"

definition string_bytes :: "string \<Rightarrow> byte list" where
  "string_bytes s = map of_char s"

text \<open>\<open>fmt.Fprintln(w, s)\<close>, whose error the code drops.\<close>

definition Fprintln :: "'w cli_env \<Rightarrow> out_handle \<Rightarrow> string \<Rightarrow> ('w, unit) io" where
  "Fprintln env out s = io_modify (\<lambda>w. snd (Write env out (string_bytes (s @ [CHR 0x0A])) w))"

definition writeProtosetFile :: "'w cli_env \<Rightarrow> out_handle \<Rightarrow> file_desc list \<Rightarrow> ('w, unit) io" where
  "writeProtosetFile env out protoset =
     (case MarshalProto env protoset of
        Inl err \<Rightarrow> io_fail (WrapError ''failed to marshal file descriptor set'' err)
      | Inr b \<Rightarrow> io_wrap ''failed to write file descriptor set'' (io_check (Write env out b)))"

definition printJSON :: "'w cli_env \<Rightarrow> out_handle \<Rightarrow> file_desc list \<Rightarrow> ('w, unit) io" where
  "printJSON env out msg =
     (case MarshalJSON env msg of
        Inl err \<Rightarrow> io_fail (WrapError ''cannot JSON marshal proto message'' err)
      | Inr text \<Rightarrow> Fprintln env out text)"

definition printBase64 :: "'w cli_env \<Rightarrow> out_handle \<Rightarrow> file_desc list \<Rightarrow> ('w, unit) io" where
  "printBase64 env out msg =
     (case Base64Proto (MarshalProto env) msg of
        Inl err \<Rightarrow> io_fail (WrapError ''cannot base64 encode proto message'' err)
      | Inr str \<Rightarrow> Fprintln env out str)"

definition printEnvoy ::
    "'w cli_env \<Rightarrow> out_handle \<Rightarrow> file_desc list \<Rightarrow> string list \<Rightarrow> cli_config \<Rightarrow> ('w, unit) io" where
  "printEnvoy env out descriptorSet services cfg =
     (case Base64Proto (MarshalProto env) descriptorSet of
        Inl err \<Rightarrow> io_fail (WrapError ''cannot base64 encode FileDescriptorSet'' err)
      | Inr protosetBase64 \<Rightarrow>
          (case getPort (cf_Address cfg) of
             Inl err \<Rightarrow> io_fail err
           | Inr port \<Rightarrow>
               io_wrap ''cannot parser envoy template'' (io_check (Execute env EnvoyTmpl out
                 \<lparr>td_ProtosetBase64 = protosetBase64, td_Services = services, td_AppPort = port,
                  td_HTTPPort = cf_HTTPPort cfg, td_App = [], td_Namespace = [], td_IstioAppPort = 0\<rparr>))))"

definition printIstio ::
    "'w cli_env \<Rightarrow> out_handle \<Rightarrow> file_desc list \<Rightarrow> string list \<Rightarrow> cli_config \<Rightarrow> ('w, unit) io" where
  "printIstio env out descriptorSet services cfg =
     (case Base64Proto (MarshalProto env) descriptorSet of
        Inl err \<Rightarrow> io_fail (WrapError ''cannot base64 encode FileDescriptorSet'' err)
      | Inr protosetBase64 \<Rightarrow>
          io_wrap ''cannot parser istio template'' (io_check (Execute env IstioTmpl out
            \<lparr>td_ProtosetBase64 = protosetBase64, td_Services = services, td_AppPort = 0, td_HTTPPort = 0,
             td_App = cf_App cfg, td_Namespace = cf_Namespace cfg, td_IstioAppPort = cf_IstioPort cfg\<rparr>)))"

definition writeOutput ::
    "'w cli_env \<Rightarrow> cli_config \<Rightarrow> file_desc list \<Rightarrow> string list \<Rightarrow> ('w, unit) io" where
  "writeOutput env cfg protoset services =
     io_bind (if cf_Out cfg \<noteq> ''-'' then
                io_bind (io_wrap ''cannot create output file'' (io_check (Create env (cf_Out cfg))))
                  (\<lambda>_. io_return (OutFile (cf_Out cfg)))
              else io_return Stdout) (\<lambda>out.
       if cf_Format cfg = ''base64'' then printBase64 env out protoset
       else if cf_Format cfg = ''json'' then printJSON env out protoset
       else if cf_Format cfg = ''envoy'' then printEnvoy env out protoset services cfg
       else if cf_Format cfg = ''istio'' then printIstio env out protoset services cfg
       else if cf_Format cfg = ''protoset'' then writeProtosetFile env out protoset
       else io_return ())"

definition protosetFromReflection ::
    "nat \<Rightarrow> 'b backoff \<Rightarrow> 'w hooks \<Rightarrow> ('w, 'c, 's) dialer \<Rightarrow> cli_config \<Rightarrow>
     ('w, file_desc list \<times> string list) io" where
  "protosetFromReflection fuel bo h net cfg =
     (let opts = (if cf_Plaintext cfg then [WithInsecure] else []) @
                 (if cf_Authority cfg \<noteq> [] then [WithAuthority (cf_Authority cfg)] else []) in
      io_wrap ''cannot create file descriptor set''
        (GetFileDescriptorSet fuel bo h net (cf_Address cfg) (cf_HTTPPathPrefix cfg) opts))"

text \<open>The program: \<open>run\<close>.\<close>

definition run_transflect ::
    "nat \<Rightarrow> 'b backoff \<Rightarrow> 'w hooks \<Rightarrow> ('w, 'c, 's) dialer \<Rightarrow> 'w cli_env \<Rightarrow> cli_config \<Rightarrow> ('w, unit) io" where
  "run_transflect fuel bo h net env cfg =
     io_bind (protosetFromReflection fuel bo h net cfg)
       (\<lambda>(protoset, services). writeOutput env cfg protoset services)"

text \<open>\<open>main\<close>: an error is printed and gives the exit status 1.\<close>

definition main_transflect ::
    "nat \<Rightarrow> 'b backoff \<Rightarrow> 'w hooks \<Rightarrow> ('w, 'c, 's) dialer \<Rightarrow> 'w cli_env \<Rightarrow> cli_config \<Rightarrow> ('w, nat) io" where
  "main_transflect fuel bo h net env cfg =
     io_bind (io_try (run_transflect fuel bo h net env cfg)) (\<lambda>r.
       case r of Inl err \<Rightarrow> io_return 1 | Inr _ \<Rightarrow> io_return 0)"

section \<open>What is written\<close>

text \<open>What the environment has received for a handle: the bytes written, in order.\<close>

definition records_writes :: "'w cli_env \<Rightarrow> ('w \<Rightarrow> out_handle \<Rightarrow> byte list) \<Rightarrow> bool" where
  "records_writes env contents \<longleftrightarrow>
     (\<forall>name w. \<exists>w'. Create env name w = (None, w') \<and>
        contents w' = (contents w)(OutFile name := [])) \<and>
     (\<forall>out b w. \<exists>w'. Write env out b w = (None, w') \<and>
        contents w' = (contents w)(out := contents w out @ b))"

lemma records_writesD:
  assumes "records_writes env contents"
  shows "\<exists>w'. Create env name w = (None, w') \<and> contents w' = (contents w)(OutFile name := [])"
    "\<exists>w'. Write env out b w = (None, w') \<and> contents w' = (contents w)(out := contents w out @ b)"
  using assms by (simp_all add: records_writes_def)

lemma written_protoset:
  assumes "records_writes env contents" "MarshalProto env protoset = Inr bytes"
    and "cf_Out cfg \<noteq> ''-''" "cf_Format cfg = ''protoset''"
  shows "\<exists>w'. writeOutput env cfg protoset services w = Some (Ok (), w') \<and>
    contents w' (OutFile (cf_Out cfg)) = bytes"
proof -
  obtain w1 where 1: "Create env (cf_Out cfg) w = (None, w1)"
    "contents w1 = (contents w)(OutFile (cf_Out cfg) := [])" using records_writesD(1) [OF assms(1)] by blast
  obtain w2 where 2: "Write env (OutFile (cf_Out cfg)) bytes w1 = (None, w2)"
    "contents w2 = (contents w1)(OutFile (cf_Out cfg) := contents w1 (OutFile (cf_Out cfg)) @ bytes)"
    using records_writesD(2) [OF assms(1)] by blast
  show ?thesis using 1 2 assms(2-4)
    by (simp add: writeOutput_def writeProtosetFile_def io_bind_def io_wrap_def io_check_def io_return_def)
qed

lemma written_base64:
  assumes "records_writes env contents" "MarshalProto env protoset = Inr bytes"
    and "cf_Out cfg \<noteq> ''-''" "cf_Format cfg = ''base64''"
  shows "\<exists>w'. writeOutput env cfg protoset services w = Some (Ok (), w') \<and>
    contents w' (OutFile (cf_Out cfg)) = string_bytes (b64_encode bytes @ [CHR 0x0A])"
proof -
  obtain w1 where 1: "Create env (cf_Out cfg) w = (None, w1)"
    "contents w1 = (contents w)(OutFile (cf_Out cfg) := [])" using records_writesD(1) [OF assms(1)] by blast
  obtain w2 where 2: "Write env (OutFile (cf_Out cfg)) (string_bytes (b64_encode bytes @ [CHR 0x0A])) w1 = (None, w2)"
    "contents w2 = (contents w1)(OutFile (cf_Out cfg) :=
       contents w1 (OutFile (cf_Out cfg)) @ string_bytes (b64_encode bytes @ [CHR 0x0A]))"
    using records_writesD(2) [OF assms(1)] by blast
  show ?thesis using 1 2 assms(2-4)
    by (simp add: writeOutput_def printBase64_def Base64Proto_def Fprintln_def io_bind_def io_wrap_def
        io_check_def io_return_def io_modify_def)
qed

text \<open>
  C16. The formats agree: in an environment that stores what is written, the file made with the
  format \<open>protoset\<close> holds the marshalled descriptor set, and the one made with the format
  \<open>base64\<close> is a line of base64 that decodes to the contents of the first, whatever was in
  the file before.
\<close>

theorem base64_output_decodes_to_protoset:
  assumes "records_writes env contents" and "MarshalProto env protoset = Inr bytes" and "cf_Out cfg \<noteq> ''-''"
  shows "\<exists>w1 w2 text.
    writeOutput env (cfg\<lparr>cf_Format := ''protoset''\<rparr>) protoset services w = Some (Ok (), w1) \<and>
    writeOutput env (cfg\<lparr>cf_Format := ''base64''\<rparr>) protoset services w = Some (Ok (), w2) \<and>
    contents w2 (OutFile (cf_Out cfg)) = string_bytes (text @ [CHR 0x0A]) \<and>
    b64_decode text = Some (contents w1 (OutFile (cf_Out cfg)))"
proof -
  obtain w1 where 1: "writeOutput env (cfg\<lparr>cf_Format := ''protoset''\<rparr>) protoset services w = Some (Ok (), w1)"
    "contents w1 (OutFile (cf_Out cfg)) = bytes"
    using written_protoset [OF assms(1,2), of "cfg\<lparr>cf_Format := ''protoset''\<rparr>" services w] assms(3) by auto
  obtain w2 where 2: "writeOutput env (cfg\<lparr>cf_Format := ''base64''\<rparr>) protoset services w = Some (Ok (), w2)"
    "contents w2 (OutFile (cf_Out cfg)) = string_bytes (b64_encode bytes @ [CHR 0x0A])"
    using written_base64 [OF assms(1,2), of "cfg\<lparr>cf_Format := ''base64''\<rparr>" services w] assms(3) by auto
  show ?thesis using 1 2 b64_decode_encode by metis
qed

text \<open>An environment that is its files.\<close>

definition file_env :: "(out_handle \<Rightarrow> byte list) cli_env" where
  "file_env =
     \<lparr>Create = (\<lambda>name fs. (None, fs(OutFile name := []))),
      Write = (\<lambda>out b fs. (None, fs(out := fs out @ b))),
      Execute = (\<lambda>t out d fs. (None, fs)),
      MarshalProto = (\<lambda>_. Inr [10, 1, 97]),
      MarshalJSON = (\<lambda>_. Inr ''{}'')\<rparr>"

definition sample_cli :: cli_config where
  "sample_cli =
     \<lparr>cf_Address = ''localhost:9090'', cf_Plaintext = True, cf_Authority = [], cf_Out = ''out.pb'',
      cf_Format = ''json'', cf_HTTPPort = 9999, cf_App = [], cf_Namespace = [], cf_IstioPort = 8080,
      cf_HTTPPathPrefix = [], cf_LogFormat = ''std''\<rparr>"

theorem base64_output_decodes_to_protoset_witness:
  "\<exists>w1 w2 text.
    writeOutput file_env (sample_cli\<lparr>cf_Format := ''protoset''\<rparr>) [] [] (\<lambda>_. [7]) = Some (Ok (), w1) \<and>
    writeOutput file_env (sample_cli\<lparr>cf_Format := ''base64''\<rparr>) [] [] (\<lambda>_. [7]) = Some (Ok (), w2) \<and>
    id w2 (OutFile (cf_Out sample_cli)) = string_bytes (text @ [CHR 0x0A]) \<and>
    b64_decode text = Some (id w1 (OutFile (cf_Out sample_cli)))"
  by (rule base64_output_decodes_to_protoset [where contents = id])
    (simp_all add: records_writes_def file_env_def sample_cli_def)

end
