(* ===== verification/Spec2Isabelle.thy ===== *)
theory Spec2Isabelle
  imports Startup FleetErrors Logging Gauge Metrics Tools Cli
begin

text \<open>
  A model of transflect (github.com/cashapp/transflect), the tools that configure Envoy to
  transcode HTTP/JSON requests to gRPC. The library pkg/transflect asks a gRPC server over its
  reflection service for its services and file descriptors. The command cmd/transflect prints
  what the library returns. The operator cmd/transflect-operator watches the ReplicaSets of a
  Kubernetes cluster, queries the servers they run and keeps one Istio EnvoyFilter per deployment
  up to date. Two small programs, cmd/retry-until-fail and cmd/test-http-transcoding, serve the
  tests.

  How the model is built. A Go function that only computes is a HOL function. A Go function that
  reaches the outside world is a state-passing computation of type \<open>('w, 'a) io\<close>: it takes the
  world, or the operator's state with the world in it, and gives None when it does not return,
  and otherwise an outcome, \<open>Ok\<close> with a value, \<open>Fail\<close> with a Go error or \<open>Panic\<close>, together with
  the state after it. Deferred calls are \<open>io_finally\<close> and run on each of the three outcomes. What
  is not in the repository is a record of functions that the definitions take as an argument: the
  reflection client, the gRPC dialer, the protobuf codecs, the back-off counter, the API servers,
  the informer caches with the work queue, the error group, the leader election, the Prometheus
  client, the file system and the template engine. Where a
  property needs more of them than their types, its hypotheses say what, and a witness
  instantiates them with concrete functions. Of contexts only the values are passed around; a
  cancelled context shows as an error of the call it is given to.
\<close>

section \<open>The theories\<close>

text \<open>
  Prelude: Go errors, outcomes, the computations above with the collections \<open>io_simps\<close> and
  \<open>io_frames\<close>, and Go maps. GoStd: \<open>strconv.Atoi\<close>, \<open>%d\<close>, \<open>strings.Split\<close>,
  \<open>strings.TrimSpace\<close> and the machine integers read with them. Base64: the standard encoding and a
  decoder that is its inverse.

  Systems: labelled step relations, their runs, and the locale \<open>label_system\<close> that turns an invariant
  or a monotone observation of the steps into one of the runs; Workers and Concurrent interpret it,
  and Fleet its variant \<open>history_system\<close> for invariants that speak of the labels so far.
  Programs: computations cut into atomic actions, pools of them that run interleaved, and the
  locales \<open>relying\<close> and \<open>rely_guarantee\<close> for what a program does among others that keep a promise.

  MutexMap (pkg/transflect/mutexmap.go): the map of locks over a heap of mutexes, \<open>Lock\<close>,
  \<open>Unlock\<close> and \<open>Remove\<close>. Workers: the interleavings of the operator's worker goroutines on this
  map, as a step relation. Mutual exclusion and progress hold as long as no entry is removed; two
  theorems show what the removals of the operator do.

  Descriptors: the descriptors and \<open>AnnotateHTTPRule\<close>. TopoSort: \<open>topoSort\<close>, its correctness on
  acyclic imports and its divergence on cycles. Reflection: the client, from \<open>doRefl\<close> to
  \<open>getFileDescriptorSet\<close>, and its result against a server that answers. ReflectionRetry: the retry
  loop and \<open>GetFileDescriptorSet\<close> with its connection (all of pkg/transflect/transflect.go).

  Kube (operator.go and envoyfilter.go): what the operator reads from a ReplicaSet and the objects
  it builds for it. Upsert: \<open>upsertFilter\<close>, \<open>deleteFilter\<close> and the calls they are made of, with the
  locale \<open>create_or_update\<close> for the contract the three pairs of create and update share.
  SampleCluster: API servers that keep their objects in memory and a small reflection server, for
  the witnesses. UpsertSpec: what an upsert does in a healthy cluster, and that deleting its
  temporary objects is the last thing it does in every cluster.

  Operator (operator.go): queue, worker step, active state and cleanup. OperatorSpec: the
  invariant, the outcomes of \<open>processReplicaset\<close>, termination of a worker step. Reconcile: the
  abstract reconciler on the active state alone, the refinement, and the independence of the
  order in which ReplicaSets arrive. Startup: \<open>syncActive\<close>, what it recovers after a restart, and
  the invariant of all reachable states. Gauge: the gauge of EnvoyFilters against the filters stored.

  ApiSteps: \<open>processReplicaset\<close> and all it calls in envoyfilter.go as programs of single API calls,
  which run alone are the functions of Upsert and Operator. ApiRuns: many of them interleaved
  for different deployments do not interfere, and all can go on to their ends. Fleet: workers with
  the locks of MutexMap around these programs, and \<open>cleanupDeployment\<close> beside them, the finest
  system of this development; under each of its schedules the latest revision of every deployment
  wins that is not cleaned up and whose ReplicaSets keep their port. FleetErrors: the same system
  when any call may fail; exclusion, the serial active state and progress hold all the same. What
  happens when the lock entry of a deployment is removed while its workers run, by a cleanup or for
  a ReplicaSet without a port, is left to Workers and Concurrent.

  Concurrent: the same worker cut into steps, interleaved with other workers and with cleanups; it
  refines Workers on the locks and Reconcile on the active state, a worker alone does what
  \<open>handle_replicaset\<close> does, and a cleanup shows what is lost without the lock. Lifecycle:
  \<open>startLeading\<close> and \<open>stop\<close> as goroutines, with workers that end or are stranded on the lock of a
  deployment. Servers (auxservers.go): routes and errors of the
  two HTTP servers. Logging (main.go): \<open>setupLogging\<close> and the hook that logs the attempts of the
  retry loop. Process: \<open>start\<close> with its election callbacks, the servers, signals and the error
  group on top of Lifecycle: when the process ends, and what becomes of the lease. Metrics
  (metrics.go): the metrics, their registration, and the counter of operations by the names of its
  labels, derived from \<open>processReplicaset\<close>. Setup: \<open>newOperator\<close>, the clients'
  configuration, the lock and the election's timing, and \<open>run\<close> up to the group, with the failures
  that end it before.

  Cli (cmd/transflect/main.go): the output formats and \<open>getPort\<close>. Tools: the two test programs; the
  readers that test-http-transcoding makes for request bodies are part of its state.
\<close>

section \<open>Correspondence of state\<close>

text \<open>
  The Go \<open>operator\<close> struct is split. \<open>op_config\<close> has the fields set by \<open>newOperator\<close> and never
  changed; \<open>op_state\<close> has the active state, a \<open>sync.Map\<close> as a HOL map from deployment keys to
  \<open>active_entry\<close>, the \<open>MutexMap\<close>, the metrics and the outside world; the clients are the record
  \<open>cluster\<close> and the informers with the queue the record \<open>informer\<close>; \<open>stopper\<close>, \<open>stopLock\<close> and the
  wait group are in \<open>lifecycle\<close>, which is a part of \<open>process\<close>; the lease settings are in
  \<open>operator_setup\<close>. The theories Operator to Startup model handlers as whole steps on \<open>op_state\<close>.
  Workers keeps the lock actions of \<open>next\<close> and drops what happens between them; Concurrent has both,
  with one step for an upsert; ApiSteps cuts that step into its API calls and leaves the locks out;
  Fleet has the locks and the API calls. The work of the workers and the life cycle of
  the process are separate systems that share two numbers only: how many workers run, and how many
  of these are blocked for ever in \<open>deploymentLocker.Lock\<close>, which Workers shows to be possible.

  Ports and revisions keep their Go width (\<open>uint32\<close> and \<open>int\<close>): they are words or integers with
  the range check of \<open>strconv\<close> written out. Strings are byte strings, lists of \<open>char\<close>.
\<close>

section \<open>Fuel and bounds\<close>

text \<open>
  \<open>topoSort\<close> and \<open>addDependencies\<close> recurse along imports that a server chooses. They take fuel,
  the depth of the recursion, and give None without it. The theorems show both sides: without
  cycles any fuel above the rank of the import graph, in particular above the number of files,
  gives the result; with a cycle of imports no amount does. The retry loops count: a query is made at
  most seventeen times, a List call at start at most twelve times, and the theorems on them
  include that the loops return. The loops of the test programs and of \<open>runWorker\<close> may run for ever
  and are partial functions; the theorems of Tools show when and how they return.
\<close>

section \<open>What is not modelled\<close>

text \<open>
  The parsing of command lines and the messages that are only logged (\<open>watchErrorHandler\<close> and the
  other calls of the logger) are calls of libraries with no decision of their own. Cancellation is
  not passed around: that the context of a run was cancelled is a fact of the theory Process, and
  in the other theories it shows as an error of a call. The templates of cmd/transflect are text for a template engine that
  is a parameter. The tests, the generated code, the sample service and the deployment files of
  the repository are left aside.
\<close>

end
